(* ===== verification/Hashy_Prelude.thy ===== *)
theory Hashy_Prelude
  imports
    Main
    "HOL-Library.Word"
    "HOL-Library.Char_ord"
    "HOL-Library.List_Lexorder"
    "HOL-Library.Product_Lexorder"
    "HOL-Library.AList"
    "HOL-Library.Multiset"
begin

text \<open>
  Shared vocabulary of the development.

  \<^item> Go maps. A map value is a list of key/value pairs with distinct keys; the nil map is
    \<^const>\<open>None\<close>. Go does not fix the order in which a map is ranged over, so each
    definition that ranges over a map takes a function \<open>ord\<close> that arranges the keys
    (\<open>range_keys\<close>).
  \<^item> Sorting. \<open>slices.SortFunc\<close> and \<open>sort.Strings\<close> are modelled by insertion sort over
    a three-way comparison; the locale \<open>keyed_comparison\<close> shows that any other sorting
    procedure gives the same slice when the keys are distinct.
  \<^item> Strings are byte strings, as in Go: a \<^typ>\<open>char\<close> is one byte.
\<close>

named_theorems go_simps \<open>unfolding rules for the Go primitives\<close>

section \<open>Go maps\<close>

type_synonym ('k, 'v) gomap = "('k \<times> 'v) list option"

definition gomap_lookup :: "('k, 'v) gomap \<Rightarrow> 'k \<Rightarrow> 'v option" where
  "gomap_lookup m k = (case m of None \<Rightarrow> None | Some ps \<Rightarrow> map_of ps k)"

definition gomap_keys :: "('k, 'v) gomap \<Rightarrow> 'k list" where
  "gomap_keys m = (case m of None \<Rightarrow> [] | Some ps \<Rightarrow> map fst ps)"

definition gomap_len :: "('k, 'v) gomap \<Rightarrow> nat" where
  "gomap_len m = length (gomap_keys m)"

definition gomap_clear :: "('k, 'v) gomap \<Rightarrow> ('k, 'v) gomap" where
  "gomap_clear m = map_option (\<lambda>_. []) m"

definition gomap_wf :: "('k, 'v) gomap \<Rightarrow> bool" where
  "gomap_wf m \<longleftrightarrow> distinct (gomap_keys m)"

lemma gomap_lookup_simps [simp, go_simps]:
  "gomap_lookup None k = None"
  "gomap_lookup (Some ps) k = map_of ps k"
  by (simp_all add: gomap_lookup_def)

lemma gomap_keys_simps [simp, go_simps]:
  "gomap_keys None = []"
  "gomap_keys (Some ps) = map fst ps"
  by (simp_all add: gomap_keys_def)

lemma gomap_wf_simps [simp, go_simps]:
  "gomap_wf None"
  "gomap_wf (Some ps) \<longleftrightarrow> distinct (map fst ps)"
  by (simp_all add: gomap_wf_def)

lemma gomap_clear_keys [simp]: "gomap_keys (gomap_clear m) = []"
  by (cases m) (simp_all add: gomap_clear_def)

lemma gomap_lookup_None_iff: "gomap_lookup m k = None \<longleftrightarrow> k \<notin> set (gomap_keys m)"
  by (cases m) (simp_all add: map_of_eq_None_iff)

lemma gomap_lookup_clear [simp]: "gomap_lookup (gomap_clear m) k = None"
  by (simp add: gomap_lookup_None_iff)

lemma set_fst_AList_update: "set (map fst (AList.update k v ps)) = insert k (set (map fst ps))"
  by (induction ps) auto

lemma fst_image_AList_update [simp]: "fst ` set (AList.update k v ps) = insert k (fst ` set ps)"
  using set_fst_AList_update [of k v ps] by simp

section \<open>Iteration orders\<close>

text \<open>
  The runtime may visit the keys of a map in any order. \<open>ord\<close> is an arbitrary function that
  stands for its choice; an answer that is not an arrangement of the keys is no choice the
  runtime can make, and is replaced by the keys as they are. Every statement that holds for
  all \<open>ord\<close> therefore holds for every iteration order, with no side condition.
\<close>

definition range_keys :: "('k list \<Rightarrow> 'k list) \<Rightarrow> 'k list \<Rightarrow> 'k list" where
  "range_keys ord ks =
     (if distinct (ord ks) \<and> set (ord ks) = set ks then ord ks else ks)"

lemma set_range_keys [simp]: "set (range_keys ord ks) = set ks"
  by (simp add: range_keys_def)

lemma distinct_range_keys [simp]: "distinct ks \<Longrightarrow> distinct (range_keys ord ks)"
  by (simp add: range_keys_def)

lemma mset_range_keys [simp]: "distinct ks \<Longrightarrow> mset (range_keys ord ks) = mset ks"
  by (simp add: set_eq_iff_mset_eq_distinct flip: set_eq_iff_mset_eq_distinct)

lemma length_range_keys [simp]: "distinct ks \<Longrightarrow> length (range_keys ord ks) = length ks"
  by (rule mset_eq_length) simp

lemma range_keys_Nil [simp]: "range_keys ord [] = []"
  by (simp add: range_keys_def)

lemma range_keys_id [simp]: "range_keys (\<lambda>xs. xs) ks = ks"
  by (simp add: range_keys_def)

lemma range_keys_surj:
  "distinct ks \<Longrightarrow> mset ys = mset ks \<Longrightarrow> range_keys (\<lambda>_. ys) ks = ys"
  by (auto simp: range_keys_def dest: mset_eq_setD mset_eq_imp_distinct_iff)

section \<open>Three-way comparisons and sorting\<close>

fun sort_insert :: "('a \<Rightarrow> 'a \<Rightarrow> int) \<Rightarrow> 'a \<Rightarrow> 'a list \<Rightarrow> 'a list" where
  "sort_insert cmp x [] = [x]"
| "sort_insert cmp x (y # ys) =
     (if cmp x y \<le> 0 then x # y # ys else y # sort_insert cmp x ys)"

fun sort_func :: "('a \<Rightarrow> 'a \<Rightarrow> int) \<Rightarrow> 'a list \<Rightarrow> 'a list" where
  "sort_func cmp [] = []"
| "sort_func cmp (x # xs) = sort_insert cmp x (sort_func cmp xs)"

lemma mset_sort_insert [simp]: "mset (sort_insert cmp x xs) = add_mset x (mset xs)"
  by (induction xs) auto

lemma mset_sort_func [simp]: "mset (sort_func cmp xs) = mset xs"
  by (induction xs) auto

lemma set_sort_func [simp]: "set (sort_func cmp xs) = set xs"
  by (rule mset_eq_setD) simp

lemma length_sort_func [simp]: "length (sort_func cmp xs) = length xs"
  by (rule mset_eq_length) simp

locale keyed_comparison =
  fixes key :: "'a \<Rightarrow> 'k::linorder"
    and cmp :: "'a \<Rightarrow> 'a \<Rightarrow> int"
  assumes cmp_less: "cmp a b < 0 \<longleftrightarrow> key a < key b"
    and cmp_equal: "cmp a b = 0 \<longleftrightarrow> key a = key b"
begin

lemma cmp_le: "cmp a b \<le> 0 \<longleftrightarrow> key a \<le> key b"
  using cmp_less [of a b] cmp_equal [of a b] by (auto simp: order_le_less)

lemma sort_insert_insort: "sort_insert cmp x xs = insort_key key x xs"
  by (induction xs) (simp_all add: cmp_le)

lemma sort_func_sort_key: "sort_func cmp xs = sort_key key xs"
  by (induction xs) (simp_all add: sort_insert_insort sort_key_def)

text \<open>
  Whatever algorithm sorts the slice: a permutation that is ascending for the comparison is
  the one computed here, when no two elements have the same key.
\<close>

lemma sort_func_unique:
  assumes "distinct (map key xs)" and "mset ys = mset xs"
    and "sorted_wrt (\<lambda>a b. cmp a b \<le> 0) ys"
  shows "ys = sort_func cmp xs"
proof -
  have "sorted (map key ys)"
    using assms(3) by (simp add: sorted_map cmp_le)
  moreover have "mset (map key ys) = mset (map key (sort_func cmp xs))"
    using assms(2) by simp
  moreover have "sorted (map key (sort_func cmp xs))"
    by (simp add: sort_func_sort_key)
  ultimately have "map key ys = map key (sort_func cmp xs)"
    by (metis properties_for_sort)
  moreover have "set ys = set xs"
    using assms(2) by (rule mset_eq_setD)
  moreover have "inj_on key (set xs)"
    using assms(1) by (simp add: distinct_map)
  ultimately show ?thesis by (simp add: map_inj_on)
qed

end

locale comparison = keyed_comparison "\<lambda>x. x" cmp for cmp :: "'a::linorder \<Rightarrow> 'a \<Rightarrow> int"
begin

lemma sort_func_sort: "sort_func cmp xs = sort xs"
  by (simp add: sort_func_sort_key)

lemma sorted_sort_func: "sorted (sort_func cmp xs)"
  by (simp add: sort_func_sort)

lemma sort_func_sorted_list_of_set:
  "distinct xs \<Longrightarrow> sort_func cmp xs = sorted_list_of_set (set xs)"
  by (simp add: sort_func_sort sorted_list_of_set_sort_remdups distinct_remdups_id)

end

text \<open>\<open>strings.Compare\<close>: lexicographic on bytes.\<close>

fun strings_compare :: "string \<Rightarrow> string \<Rightarrow> int" where
  "strings_compare [] [] = 0"
| "strings_compare [] (_ # _) = - 1"
| "strings_compare (_ # _) [] = 1"
| "strings_compare (a # as) (b # bs) =
     (if a < b then - 1 else if b < a then 1 else strings_compare as bs)"

interpretation strcmp: comparison strings_compare
proof unfold_locales
  fix a b :: string
  show "strings_compare a b < 0 \<longleftrightarrow> a < b"
    by (induction a b rule: strings_compare.induct) auto
  show "strings_compare a b = 0 \<longleftrightarrow> a = b"
    by (induction a b rule: strings_compare.induct) auto
qed

text \<open>\<open>sort.Strings\<close> sorts with the same order.\<close>

definition sort_strings :: "string list \<Rightarrow> string list" where
  "sort_strings xs = sort_func strings_compare xs"

lemma sort_strings_sort: "sort_strings xs = sort xs"
  by (simp add: sort_strings_def strcmp.sort_func_sort)

section \<open>Sorted enumerations of finite sets\<close>

lemma sort_eq_sorted_list_of_set:
  "distinct xs \<Longrightarrow> sort xs = sorted_list_of_set (set (xs :: 'a::linorder list))"
  by (simp add: sorted_list_of_set_sort_remdups distinct_remdups_id)

lemma sort_perm_eq: "mset xs = mset ys \<Longrightarrow> sort xs = sort (ys :: 'a::linorder list)"
  by (rule properties_for_sort) simp_all

section \<open>Functional options\<close>

text \<open>
  Every constructor of the program applies a list of options to a zero value and stops at the
  first option that fails.
\<close>

fun apply_options :: "('c \<Rightarrow> 'e + 'c) list \<Rightarrow> 'c \<Rightarrow> 'e + 'c" where
  "apply_options [] c = Inr c"
| "apply_options (opt # opts) c =
     (case opt c of Inl e \<Rightarrow> Inl e | Inr c' \<Rightarrow> apply_options opts c')"

lemma apply_options_append:
  "apply_options (xs @ ys) c = (case apply_options xs c of Inl e \<Rightarrow> Inl e | Inr c' \<Rightarrow> apply_options ys c')"
  by (induction xs arbitrary: c) (auto split: sum.split)

lemma apply_options_total: "apply_options (map (\<lambda>f c. Inr (f c)) fs) c = Inr (fold (\<lambda>f. f) fs c)"
  by (induction fs arbitrary: c) simp_all

section \<open>Loops over lists\<close>

text \<open>A loop that appends one result per element.\<close>

lemma foldl_collect: "foldl (\<lambda>acc x. acc @ [f x]) acc xs = acc @ map f xs"
  by (induction xs arbitrary: acc) simp_all

lemma find_append:
  "List.find P (xs @ ys) = (case List.find P xs of None \<Rightarrow> List.find P ys | Some x \<Rightarrow> Some x)"
  by (induction xs) simp_all

text \<open>With distinct keys the direction of the search does not matter.\<close>

lemma find_rev_distinct:
  "distinct (map f xs) \<Longrightarrow> List.find (\<lambda>x. f x = n) (rev xs) = List.find (\<lambda>x. f x = n) xs"
proof (induction xs)
  case (Cons x xs)
  then have "List.find (\<lambda>y. f y = f x) xs = None" by (auto simp: find_None_iff image_iff)
  with Cons show ?case by (auto simp: find_append split: option.split)
qed simp

end
