(* ===== verification/Go_Slices.thy ===== *)
theory Go_Slices
  imports Hashy_Prelude
begin

text \<open>
  Go slices over an explicit store of backing arrays.

  The collectors of the service package keep address slices inside map values, copy them
  with the map value, and dedupe and sort the copies in place, so which slices share a
  backing array is part of the behaviour. A store is the list of all backing arrays ever
  allocated; an array's length is the capacity of the slices over it. All slices of the
  modelled code start at index 0 of their array.

  The runtime's choice of a new capacity is a function \<open>g\<close> of the old and the needed
  capacity; only that the result is large enough is used. \<open>z\<close> is the element type's
  zero value.
\<close>

type_synonym 'v store = "'v list list"

datatype slice = NilSlice | Slice nat nat

type_synonym growth = "nat \<Rightarrow> nat \<Rightarrow> nat"

fun slice_len :: "slice \<Rightarrow> nat" where
  "slice_len NilSlice = 0"
| "slice_len (Slice a n) = n"

fun slice_array :: "slice \<Rightarrow> nat option" where
  "slice_array NilSlice = None"
| "slice_array (Slice a n) = Some a"

fun backing :: "'v store \<Rightarrow> slice \<Rightarrow> 'v list" where
  "backing h NilSlice = []"
| "backing h (Slice a n) = (if a < length h then h ! a else [])"

definition slice_cap :: "'v store \<Rightarrow> slice \<Rightarrow> nat" where
  "slice_cap h s = length (backing h s)"

text \<open>The elements a slice shows.\<close>

definition deref :: "'v store \<Rightarrow> slice \<Rightarrow> 'v list" where
  "deref h s = take (slice_len s) (backing h s)"

fun valid_slice :: "'v store \<Rightarrow> slice \<Rightarrow> bool" where
  "valid_slice h NilSlice = True"
| "valid_slice h (Slice a n) = (a < length h \<and> n \<le> length (h ! a))"

definition grow_cap :: "growth \<Rightarrow> nat \<Rightarrow> nat \<Rightarrow> nat" where
  "grow_cap g old need = max need (g old need)"

text \<open>A fresh array, and a composite literal over one.\<close>

definition slice_alloc :: "'v store \<Rightarrow> 'v list \<Rightarrow> nat \<Rightarrow> 'v store \<times> slice" where
  "slice_alloc h xs n = (h @ [xs], Slice (length h) n)"

definition slice_literal :: "'v store \<Rightarrow> 'v list \<Rightarrow> 'v store \<times> slice" where
  "slice_literal h xs = slice_alloc h xs (length xs)"

text \<open>Overwriting part of the backing array of a slice.\<close>

fun slice_write :: "'v store \<Rightarrow> slice \<Rightarrow> 'v list \<Rightarrow> 'v store" where
  "slice_write h NilSlice xs = h"
| "slice_write h (Slice a n) xs = h[a := xs @ drop (length xs) (h ! a)]"

text \<open>\<open>append(s, vs...)\<close>: in place when the capacity allows it, else into a new array.\<close>

definition slice_append ::
  "growth \<Rightarrow> 'v \<Rightarrow> 'v store \<Rightarrow> slice \<Rightarrow> 'v list \<Rightarrow> 'v store \<times> slice" where
  "slice_append g z h s vs =
     (let n = slice_len s; need = n + length vs in
      if vs = [] then (h, s)
      else if need \<le> slice_cap h s then
        (case s of NilSlice \<Rightarrow> (h, NilSlice)
         | Slice a _ \<Rightarrow> (slice_write h s (deref h s @ vs), Slice a need))
      else
        (let c = grow_cap g (slice_cap h s) need
         in slice_alloc h (deref h s @ vs @ replicate (c - need) z) need))"

text \<open>
  \<open>slices.Grow(s, n)\<close>: reallocates, elements beyond the length included, only when fewer
  than \<open>n\<close> elements fit behind the length.
\<close>

definition slice_grow ::
  "growth \<Rightarrow> 'v \<Rightarrow> 'v store \<Rightarrow> slice \<Rightarrow> nat \<Rightarrow> 'v store \<times> slice" where
  "slice_grow g z h s n =
     (let cap = slice_cap h s; extra = n - (cap - slice_len s) in
      if 0 < extra then
        (let c = grow_cap g cap (cap + extra)
         in slice_alloc h (backing h s @ replicate (c - cap) z) (slice_len s))
      else (h, s))"

text \<open>
  \<open>slices.Delete(s, i, j)\<close>: shifts the tail down in place and zeroes what is left over.
\<close>

definition slice_delete :: "'v \<Rightarrow> 'v store \<Rightarrow> slice \<Rightarrow> nat \<Rightarrow> nat \<Rightarrow> 'v store \<times> slice" where
  "slice_delete z h s i j =
     (if i = j then (h, s)
      else
        (case s of NilSlice \<Rightarrow> (h, s)
         | Slice a n \<Rightarrow>
             (slice_write h s (take i (deref h s) @ drop j (deref h s) @ replicate (j - i) z),
              Slice a (n - (j - i)))))"

text \<open>\<open>slices.SortFunc\<close> sorts the shown elements in place.\<close>

definition slice_sort :: "('v \<Rightarrow> 'v \<Rightarrow> int) \<Rightarrow> 'v store \<Rightarrow> slice \<Rightarrow> 'v store" where
  "slice_sort cmp h s = slice_write h s (sort_func cmp (deref h s))"

section \<open>What a slice operation may touch\<close>

text \<open>
  \<open>slice_step h s h' s'\<close>: the operation turned \<open>s\<close> into \<open>s'\<close>, wrote at most to the array
  of \<open>s\<close>, and the result lives in that array or in a fresh one.
\<close>

definition slice_step :: "'v store \<Rightarrow> slice \<Rightarrow> 'v store \<Rightarrow> slice \<Rightarrow> bool" where
  "slice_step h s h' s' \<longleftrightarrow>
     length h \<le> length h' \<and> valid_slice h' s' \<and>
     (\<forall>b < length h. slice_array s \<noteq> Some b \<longrightarrow> h' ! b = h ! b) \<and>
     (slice_array s' = slice_array s \<or> (\<exists>b. slice_array s' = Some b \<and> length h \<le> b))"

lemma slice_step_refl: "valid_slice h s \<Longrightarrow> slice_step h s h s"
  by (simp add: slice_step_def)

lemma slice_step_valid: "slice_step h s h' s' \<Longrightarrow> valid_slice h' s'"
  by (simp add: slice_step_def)

lemma slice_step_trans:
  assumes "slice_step h s h1 s1" and "slice_step h1 s1 h2 s2"
  shows "slice_step h s h2 s2"
proof -
  have "h2 ! b = h ! b" if "b < length h" and "slice_array s \<noteq> Some b" for b
  proof -
    have "slice_array s1 \<noteq> Some b" and "b < length h1" and "h1 ! b = h ! b"
      using that assms(1) by (auto simp: slice_step_def)
    then show ?thesis using assms(2) by (simp add: slice_step_def)
  qed
  moreover have "slice_array s2 = slice_array s \<or> (\<exists>b. slice_array s2 = Some b \<and> length h \<le> b)"
  proof (cases "slice_array s2 = slice_array s1")
    case True
    then show ?thesis using assms(1) by (simp add: slice_step_def)
  next
    case False
    then show ?thesis using assms by (auto simp: slice_step_def intro: le_trans)
  qed
  ultimately show ?thesis using assms by (auto simp: slice_step_def)
qed

lemma slice_step_other:
  assumes step: "slice_step h s h' s'" and t: "valid_slice h t"
    and sep: "slice_array t \<noteq> slice_array s \<or> slice_array t = None"
  shows "valid_slice h' t" and "deref h' t = deref h t"
    and "slice_array s' \<noteq> slice_array t \<or> slice_array t = None"
proof -
  have "valid_slice h' t \<and> deref h' t = deref h t \<and>
      (slice_array s' \<noteq> slice_array t \<or> slice_array t = None)"
  proof (cases t)
    case NilSlice
    then show ?thesis by (simp add: deref_def)
  next
    case (Slice a n)
    with t sep have a: "a < length h" "slice_array s \<noteq> Some a" by auto
    with step have "h' ! a = h ! a" "a < length h'" "slice_array s' \<noteq> Some a"
      by (auto simp: slice_step_def)
    with Slice t show ?thesis by (simp add: deref_def)
  qed
  then show "valid_slice h' t" and "deref h' t = deref h t"
    and "slice_array s' \<noteq> slice_array t \<or> slice_array t = None" by simp_all
qed

lemma deref_Nil [simp]: "deref h NilSlice = []"
  by (simp add: deref_def)

lemma length_deref: "valid_slice h s \<Longrightarrow> length (deref h s) = slice_len s"
  by (cases s) (simp_all add: deref_def)

text \<open>
  A family of slices no two of which share an array. An operation on one member keeps the
  family separate and leaves what the other members show unchanged.
\<close>

definition slot_family :: "'v store \<Rightarrow> ('k \<Rightarrow> slice) \<Rightarrow> bool" where
  "slot_family h f \<longleftrightarrow>
     (\<forall>k. valid_slice h (f k)) \<and>
     (\<forall>k k'. k \<noteq> k' \<longrightarrow> slice_array (f k) \<noteq> slice_array (f k') \<or> slice_array (f k) = None)"

lemma slot_family_valid: "slot_family h f \<Longrightarrow> valid_slice h (f k)"
  by (simp add: slot_family_def)

lemma slot_family_nil: "slot_family h (\<lambda>_. NilSlice)"
  by (simp add: slot_family_def)

lemma slot_family_step:
  assumes fam: "slot_family h f" and step: "slice_step h (f k) h' s'"
  shows "slot_family h' (f(k := s'))"
    and "deref h' ((f(k := s')) k') = (if k' = k then deref h' s' else deref h (f k'))"
proof -
  have other: "valid_slice h' (f j) \<and> deref h' (f j) = deref h (f j) \<and>
      (slice_array s' \<noteq> slice_array (f j) \<or> slice_array (f j) = None)" if "j \<noteq> k" for j
  proof -
    have "slice_array (f j) \<noteq> slice_array (f k) \<or> slice_array (f j) = None"
      using fam that by (simp add: slot_family_def)
    from slice_step_other [OF step slot_family_valid [OF fam] this] show ?thesis by simp
  qed
  have sep: "slice_array (f i) \<noteq> slice_array (f j) \<or> slice_array (f i) = None"
    if "i \<noteq> j" for i j
    using fam that by (simp add: slot_family_def)
  show "slot_family h' (f(k := s'))"
    unfolding slot_family_def
  proof (intro conjI allI impI)
    show "valid_slice h' ((f(k := s')) j)" for j
      using other [of j] slice_step_valid [OF step] by (cases "j = k") simp_all
    show "slice_array ((f(k := s')) i) \<noteq> slice_array ((f(k := s')) j) \<or>
        slice_array ((f(k := s')) i) = None" if "i \<noteq> j" for i j
    proof -
      consider "i = k" | "j = k" | "i \<noteq> k" "j \<noteq> k" by blast
      then show ?thesis
      proof cases
        case 1
        with that other [of j] show ?thesis by (cases "slice_array s'") auto
      next
        case 2
        with that other [of i] show ?thesis by auto
      next
        case 3
        with sep [OF that] show ?thesis by simp
      qed
    qed
  qed
  show "deref h' ((f(k := s')) k') = (if k' = k then deref h' s' else deref h (f k'))"
    using other [of k'] by simp
qed

section \<open>The operations\<close>

lemma slice_alloc_step:
  "n \<le> length xs \<Longrightarrow> slice_alloc h xs n = (h', s') \<Longrightarrow>
     slice_step h s h' s' \<and> deref h' s' = take n xs"
  by (auto simp: slice_alloc_def slice_step_def deref_def nth_append)

lemma slice_literal_step:
  "slice_literal h xs = (h', s') \<Longrightarrow> slice_step h NilSlice h' s' \<and> deref h' s' = xs"
  unfolding slice_literal_def by (drule slice_alloc_step [rotated]) auto

lemma slice_append_spec:
  assumes valid: "valid_slice h s" and run: "slice_append g z h s vs = (h', s')"
  shows "deref h' s' = deref h s @ vs" and "slice_step h s h' s'"
proof -
  have "deref h' s' = deref h s @ vs \<and> slice_step h s h' s'"
  proof (cases "vs = [] \<or> slice_len s + length vs > slice_cap h s")
    case True
    with valid run show ?thesis
      using length_deref [OF valid]
        slice_alloc_step [of "slice_len s + length vs" "deref h s @ vs @ replicate
          (grow_cap g (slice_cap h s) (slice_len s + length vs) - (slice_len s + length vs)) z"
          h h' s' s]
      by (auto simp: slice_append_def Let_def slice_step_refl split: if_splits)
  next
    case False
    with valid run show ?thesis
      by (cases s) (auto simp: slice_append_def slice_cap_def deref_def slice_step_def Let_def)
  qed
  then show "deref h' s' = deref h s @ vs" and "slice_step h s h' s'" by blast+
qed

lemma slice_grow_spec:
  assumes valid: "valid_slice h s" and run: "slice_grow g z h s n = (h', s')"
  shows "deref h' s' = deref h s" and "slice_step h s h' s'"
    and "slice_len s + n \<le> slice_cap h' s'"
proof -
  let ?cap = "slice_cap h s" and ?extra = "n - (slice_cap h s - slice_len s)"
  have len: "slice_len s \<le> ?cap"
    using valid by (cases s) (simp_all add: slice_cap_def)
  have "deref h' s' = deref h s \<and> slice_step h s h' s' \<and> slice_len s + n \<le> slice_cap h' s'"
  proof (cases "0 < ?extra")
    case True
    let ?c = "grow_cap g ?cap (?cap + ?extra)"
    have alloc: "slice_alloc h (backing h s @ replicate (?c - ?cap) z) (slice_len s) = (h', s')"
      using run True by (simp add: slice_grow_def Let_def)
    have "deref h' s' = deref h s \<and> slice_step h s h' s'"
      using slice_alloc_step [OF _ alloc, of s] len by (simp add: slice_cap_def deref_def)
    moreover have "slice_len s + n \<le> slice_cap h' s'"
      using alloc True len by (auto simp: slice_alloc_def slice_cap_def grow_cap_def)
    ultimately show ?thesis by simp
  next
    case False
    then have "(h', s') = (h, s)"
      using run by (simp add: slice_grow_def Let_def)
    with False valid len show ?thesis by (auto simp: slice_step_refl)
  qed
  then show "deref h' s' = deref h s" and "slice_step h s h' s'"
    and "slice_len s + n \<le> slice_cap h' s'" by blast+
qed

lemma slice_write_shorter:
  assumes "valid_slice h (Slice a n)" and "length xs = n" and "m \<le> n"
  shows "deref (slice_write h (Slice a n) xs) (Slice a m) = take m xs"
    and "slice_step h (Slice a n) (slice_write h (Slice a n) xs) (Slice a m)"
  using assms by (simp_all add: deref_def slice_step_def)

lemma slice_write_spec:
  assumes "valid_slice h s" and "length xs = slice_len s"
  shows "deref (slice_write h s xs) s = xs" and "slice_step h s (slice_write h s xs) s"
proof -
  have "deref (slice_write h s xs) s = xs \<and> slice_step h s (slice_write h s xs) s"
    using assms slice_write_shorter [of h _ "slice_len s" xs "slice_len s"]
    by (cases s) (simp_all add: slice_step_def)
  then show "deref (slice_write h s xs) s = xs" and "slice_step h s (slice_write h s xs) s"
    by simp_all
qed

lemma slice_sort_spec:
  assumes "valid_slice h s"
  shows "deref (slice_sort cmp h s) s = sort_func cmp (deref h s)"
    and "slice_step h s (slice_sort cmp h s) s"
  using slice_write_spec [OF assms, of "sort_func cmp (deref h s)"] assms
  by (simp_all add: slice_sort_def length_deref)

lemma slice_delete_spec:
  assumes valid: "valid_slice h s" and ij: "i \<le> j" "j \<le> slice_len s"
    and run: "slice_delete z h s i j = (h', s')"
  shows "deref h' s' = take i (deref h s) @ drop j (deref h s)" and "slice_step h s h' s'"
proof -
  have "deref h' s' = take i (deref h s) @ drop j (deref h s) \<and> slice_step h s h' s'"
  proof (cases s)
    case NilSlice
    with ij run show ?thesis by (auto simp: slice_delete_def slice_step_def)
  next
    case (Slice a n)
    let ?d = "deref h s"
    let ?ys = "take i ?d @ drop j ?d @ replicate (j - i) z"
    have len: "length ?d = n" and d: "?d = take n (h ! a)"
      using length_deref [OF valid] Slice valid by (simp_all add: deref_def)
    show ?thesis
    proof (cases "i = j")
      case True
      with run valid show ?thesis by (auto simp: slice_delete_def slice_step_refl)
    next
      case False
      then have res: "h' = slice_write h s ?ys" "s' = Slice a (n - (j - i))"
        using run Slice by (simp_all add: slice_delete_def)
      have "length ?ys = n" using len ij Slice by simp
      moreover have "take (n - (j - i)) ?ys = take i ?d @ drop j ?d"
        using len ij Slice by simp
      ultimately show ?thesis
        using slice_write_shorter [of h a n ?ys "n - (j - i)"] res valid Slice by simp
    qed
  qed
  then show "deref h' s' = take i (deref h s) @ drop j (deref h s)" and "slice_step h s h' s'"
    by blast+
qed

end
