(* ===== verification/Values.thy ===== *)
theory Values
  imports Go_Slices
begin

text \<open>
  The generic collections of the root package: \<open>Deduper\<close> (\<open>dedupe.go\<close>), a set kept as the
  keys of a map, and \<open>Values\<close> (\<open>values.go\<close>), a slice with in-place operations.

  \<open>Deduper.AppendTo\<close> and \<open>Values\<close> exist in two readings: over the array store, where
  sharing matters (addresses), and over plain lists, for slices no one else can write
  (service and target names).
\<close>

section \<open>Deduper\<close>

type_synonym 'v deduper = "('v, unit) gomap"

definition deduper_len :: "'v deduper \<Rightarrow> nat" where
  "deduper_len d = gomap_len d"

definition deduper_clear :: "'v deduper \<Rightarrow> 'v deduper" where
  "deduper_clear d = gomap_clear d"

definition deduper_add :: "'v deduper \<Rightarrow> 'v list \<Rightarrow> 'v deduper" where
  "deduper_add d more =
     Some (fold (\<lambda>v ps. AList.update v () ps) more (case d of None \<Rightarrow> [] | Some ps \<Rightarrow> ps))"

definition deduper_append_to :: "('v list \<Rightarrow> 'v list) \<Rightarrow> 'v deduper \<Rightarrow> 'v list \<Rightarrow> 'v list" where
  "deduper_append_to ord d dst =
     (if 0 < deduper_len d then dst @ range_keys ord (gomap_keys d) else dst)"

definition deduper_slice :: "('v list \<Rightarrow> 'v list) \<Rightarrow> 'v deduper \<Rightarrow> 'v list" where
  "deduper_slice ord d = (if 0 < deduper_len d then range_keys ord (gomap_keys d) else [])"

definition deduper_sort_func ::
  "('v list \<Rightarrow> 'v list) \<Rightarrow> 'v deduper \<Rightarrow> ('v \<Rightarrow> 'v \<Rightarrow> int) \<Rightarrow> 'v list" where
  "deduper_sort_func ord d cmp = sort_func cmp (deduper_slice ord d)"

text \<open>\<open>AppendTo\<close> over the store: grow once, then append key by key.\<close>

definition deduper_append_to_slice ::
  "growth \<Rightarrow> 'v \<Rightarrow> ('v list \<Rightarrow> 'v list) \<Rightarrow> 'v deduper \<Rightarrow> 'v store \<Rightarrow> slice
    \<Rightarrow> 'v store \<times> slice" where
  "deduper_append_to_slice g z ord d h dst =
     (if 0 < deduper_len d
      then fold (\<lambda>v (h, s). slice_append g z h s [v]) (range_keys ord (gomap_keys d))
             (slice_grow g z h dst (deduper_len d))
      else (h, dst))"

definition dedupe_keys :: "'v list \<Rightarrow> 'v list" where
  "dedupe_keys xs = gomap_keys (deduper_add None xs)"

lemma gomap_keys_fold_update:
  "set (map fst (fold (\<lambda>v ps. AList.update v () ps) more ps)) = set (map fst ps) \<union> set more"
  "distinct (map fst ps) \<Longrightarrow>
     distinct (map fst (fold (\<lambda>v ps. AList.update v () ps) more ps))"
  by (induction more arbitrary: ps)
    (simp_all add: set_fst_AList_update distinct_update del: set_map)

lemma set_keys_deduper_add [simp]:
  "set (gomap_keys (deduper_add d more)) = set (gomap_keys d) \<union> set more"
  by (cases d) (simp_all add: deduper_add_def gomap_keys_fold_update del: set_map)

lemma wf_deduper_add [simp]: "gomap_wf d \<Longrightarrow> gomap_wf (deduper_add d more)"
  by (cases d) (simp_all add: deduper_add_def gomap_keys_fold_update)

lemma wf_deduper_clear [simp]: "gomap_wf (deduper_clear d)"
  by (simp add: gomap_wf_def deduper_clear_def)

lemma keys_deduper_clear [simp]: "gomap_keys (deduper_clear d) = []"
  by (simp add: deduper_clear_def)

lemma deduper_len_card: "gomap_wf d \<Longrightarrow> deduper_len d = card (set (gomap_keys d))"
  by (simp add: deduper_len_def gomap_len_def gomap_wf_def distinct_card)

lemma deduper_len_0: "deduper_len d = 0 \<longleftrightarrow> gomap_keys d = []"
  by (simp add: deduper_len_def gomap_len_def)

lemma deduper_slice_keys: "deduper_slice ord d = range_keys ord (gomap_keys d)"
  by (cases "gomap_keys d") (simp_all add: deduper_slice_def deduper_len_def gomap_len_def)

lemma set_deduper_slice [simp]: "set (deduper_slice ord d) = set (gomap_keys d)"
  by (simp add: deduper_slice_keys)

lemma distinct_deduper_slice: "gomap_wf d \<Longrightarrow> distinct (deduper_slice ord d)"
  by (simp add: deduper_slice_keys gomap_wf_def)

lemma deduper_append_to_keys: "deduper_append_to ord d dst = dst @ range_keys ord (gomap_keys d)"
  by (cases "gomap_keys d") (simp_all add: deduper_append_to_def deduper_len_def gomap_len_def)

lemma set_dedupe_keys [simp]: "set (dedupe_keys xs) = set xs"
  by (simp add: dedupe_keys_def)

lemma distinct_dedupe_keys [simp]: "distinct (dedupe_keys xs)"
  using wf_deduper_add [of None xs] by (simp add: dedupe_keys_def gomap_wf_def)

lemma length_dedupe_keys: "length (dedupe_keys xs) = card (set xs)"
  by (metis distinct_card distinct_dedupe_keys set_dedupe_keys)

subsection \<open>The contract of a deduper\<close>

text \<open>
  What the collectors rely on: values go in with \<open>add\<close>, and \<open>slice\<close> returns each value
  that went in exactly once.
\<close>

locale value_set =
  fixes empty :: 'd
    and add :: "'d \<Rightarrow> 'v list \<Rightarrow> 'd"
    and slice :: "'d \<Rightarrow> 'v list"
    and elems :: "'d \<Rightarrow> 'v set"
    and inv :: "'d \<Rightarrow> bool"
  assumes elems_empty: "elems empty = {}"
    and inv_empty: "inv empty"
    and elems_add: "elems (add d more) = elems d \<union> set more"
    and inv_add: "inv d \<Longrightarrow> inv (add d more)"
    and set_slice: "inv d \<Longrightarrow> set (slice d) = elems d"
    and distinct_slice: "inv d \<Longrightarrow> distinct (slice d)"
begin

lemma fold_add:
  "elems (fold (\<lambda>k d. add d (f k)) ks d) = elems d \<union> (\<Union>k \<in> set ks. set (f k))"
  "inv d \<Longrightarrow> inv (fold (\<lambda>k d. add d (f k)) ks d)"
  by (induction ks arbitrary: d) (auto simp: elems_add inv_add)

lemma length_slice: "inv d \<Longrightarrow> length (slice d) = card (elems d)"
  using distinct_card [OF distinct_slice] by (simp add: set_slice)

end

locale sorting_value_set = value_set empty add slice elems inv + comparison cmp
  for empty :: 'd and add :: "'d \<Rightarrow> 'v::linorder list \<Rightarrow> 'd" and slice :: "'d \<Rightarrow> 'v list"
    and elems :: "'d \<Rightarrow> 'v set" and inv :: "'d \<Rightarrow> bool" and cmp :: "'v \<Rightarrow> 'v \<Rightarrow> int"
begin

lemma sort_slice: "inv d \<Longrightarrow> sort_func cmp (slice d) = sorted_list_of_set (elems d)"
  using sort_func_sorted_list_of_set [OF distinct_slice] by (simp add: set_slice)

lemma sort_slice_fold:
  "sort_func cmp (slice (fold (\<lambda>k d. add d (f k)) ks empty)) =
     sorted_list_of_set (\<Union>k \<in> set ks. set (f k))"
  by (simp add: sort_slice fold_add inv_empty elems_empty)

end

interpretation dd: value_set None deduper_add "deduper_slice ord"
    "\<lambda>d. set (gomap_keys d)" gomap_wf for ord
  by unfold_locales (simp_all add: distinct_deduper_slice)

interpretation sdd: sorting_value_set None deduper_add "deduper_slice ord"
    "\<lambda>d. set (gomap_keys d)" gomap_wf strings_compare for ord
  by unfold_locales

section \<open>Values\<close>

definition values_append ::
  "growth \<Rightarrow> 'v \<Rightarrow> 'v store \<Rightarrow> slice \<Rightarrow> 'v list \<Rightarrow> 'v store \<times> slice" where
  "values_append g z h vs more =
     (let (h', vs') = slice_grow g z h vs (length more) in slice_append g z h' vs' more)"

text \<open>\<open>Add\<close> is \<open>Append\<close> with the result stored back through the receiver.\<close>

definition values_add ::
  "growth \<Rightarrow> 'v \<Rightarrow> 'v store \<Rightarrow> slice \<Rightarrow> 'v list \<Rightarrow> 'v store \<times> slice" where
  "values_add g z h vs more =
     (let (h', vs') = slice_grow g z h vs (length more) in slice_append g z h' vs' more)"

definition values_dedupe ::
  "growth \<Rightarrow> 'v \<Rightarrow> ('v list \<Rightarrow> 'v list) \<Rightarrow> 'v store \<Rightarrow> slice \<Rightarrow> 'v store \<times> slice" where
  "values_dedupe g z ord h vs =
     (if slice_len vs < 2 then (h, vs)
      else
        (let d = deduper_add None (deref h vs) in
         if deduper_len d < slice_len vs then
           (let (h', vs') = slice_delete z h vs (deduper_len d) (slice_len vs)
            in deduper_append_to_slice g z ord d h' vs')
         else (h, vs)))"

definition values_sort_func :: "('v \<Rightarrow> 'v \<Rightarrow> int) \<Rightarrow> 'v store \<Rightarrow> slice \<Rightarrow> 'v store" where
  "values_sort_func cmp h vs = slice_sort cmp h vs"

definition values_len :: "slice \<Rightarrow> nat" where
  "values_len vs = slice_len vs"

definition values_all :: "'v store \<Rightarrow> slice \<Rightarrow> 'v list" where
  "values_all h vs = deref h vs"

text \<open>\<open>Append\<close> on a slice that is not shared.\<close>

definition values_append_list :: "'v list \<Rightarrow> 'v list \<Rightarrow> 'v list" where
  "values_append_list vs more = vs @ more"

subsection \<open>Appending: a contract with two providers\<close>

locale slice_appender =
  fixes app :: "'v store \<Rightarrow> slice \<Rightarrow> 'v list \<Rightarrow> 'v store \<times> slice"
  assumes app_deref: "valid_slice h s \<Longrightarrow> app h s vs = (h', s') \<Longrightarrow> deref h' s' = deref h s @ vs"
    and app_step: "valid_slice h s \<Longrightarrow> app h s vs = (h', s') \<Longrightarrow> slice_step h s h' s'"
begin

lemma app_fold:
  assumes "valid_slice h s" and "fold (\<lambda>v (h, s). app h s [v]) vs (h, s) = (h', s')"
  shows "deref h' s' = deref h s @ vs \<and> slice_step h s h' s'"
  using assms
proof (induction vs arbitrary: h s)
  case Nil
  then show ?case by (simp add: slice_step_refl)
next
  case (Cons v vs)
  obtain h1 s1 where app: "app h s [v] = (h1, s1)" by fastforce
  note d = app_deref [OF Cons.prems(1) app] and st = app_step [OF Cons.prems(1) app]
  have "deref h' s' = deref h1 s1 @ vs \<and> slice_step h1 s1 h' s'"
    using Cons.IH [OF slice_step_valid [OF st]] Cons.prems(2) app by simp
  with d st show ?case by (auto intro: slice_step_trans)
qed

end

interpretation sapp: slice_appender "slice_append g z" for g z
  by unfold_locales (erule (1) slice_append_spec)+

lemma grow_append_spec:
  assumes valid: "valid_slice h s"
    and run: "(let (h', s') = slice_grow g z h s n in slice_append g z h' s' vs) = (h2, s2)"
  shows "deref h2 s2 = deref h s @ vs \<and> slice_step h s h2 s2"
proof -
  obtain h1 s1 where grow: "slice_grow g z h s n = (h1, s1)" by fastforce
  note g1 = slice_grow_spec(1,2) [OF valid grow]
  have app: "slice_append g z h1 s1 vs = (h2, s2)" using run grow by simp
  note g2 = slice_append_spec [OF slice_step_valid [OF g1(2)] app]
  show ?thesis using g1 g2 by (auto intro: slice_step_trans)
qed

interpretation vapp: slice_appender "values_append g z" for g z
  by unfold_locales (simp_all add: values_append_def grow_append_spec)

interpretation vadd: slice_appender "values_add g z" for g z
  by unfold_locales (simp_all add: values_add_def grow_append_spec)

text \<open>On an unshared slice \<open>Append\<close> is list append.\<close>

lemma values_append_refines:
  "valid_slice h s \<Longrightarrow> values_append g z h s more = (h', s') \<Longrightarrow>
     deref h' s' = values_append_list (deref h s) more"
  by (simp add: values_append_list_def vapp.app_deref)

subsection \<open>Sorting and deduping in place\<close>

lemma values_sort_func_spec:
  assumes "valid_slice h s"
  shows "deref (values_sort_func cmp h s) s = sort_func cmp (deref h s)"
    and "slice_step h s (values_sort_func cmp h s) s"
  using slice_sort_spec [OF assms] by (simp_all add: values_sort_func_def)

lemma deduper_append_to_slice_spec:
  assumes valid: "valid_slice h s"
    and run: "deduper_append_to_slice g z ord d h s = (h', s')"
  shows "deref h' s' = deduper_append_to ord d (deref h s)" and "slice_step h s h' s'"
proof -
  have "deref h' s' = deref h s @ range_keys ord (gomap_keys d) \<and> slice_step h s h' s'"
  proof (cases "0 < deduper_len d")
    case True
    obtain h1 s1 where grow: "slice_grow g z h s (deduper_len d) = (h1, s1)" by fastforce
    note g = slice_grow_spec(1,2) [OF valid grow]
    have "fold (\<lambda>v (h, s). slice_append g z h s [v]) (range_keys ord (gomap_keys d)) (h1, s1) =
        (h', s')"
      using run True grow by (simp add: deduper_append_to_slice_def)
    from sapp.app_fold [OF slice_step_valid [OF g(2)] this] g show ?thesis
      by (auto intro: slice_step_trans)
  next
    case False
    with run valid show ?thesis
      by (auto simp: deduper_append_to_slice_def deduper_len_0 slice_step_refl)
  qed
  then show "deref h' s' = deduper_append_to ord d (deref h s)" and "slice_step h s h' s'"
    by (simp_all add: deduper_append_to_keys)
qed

text \<open>
  What \<open>Dedupe\<close> computes: a slice without duplicates is left alone; from any other it keeps
  the first \<open>k\<close> elements, \<open>k\<close> the number of distinct values, and appends the \<open>k\<close> distinct
  values to them.
\<close>

definition dedupe_result :: "('v list \<Rightarrow> 'v list) \<Rightarrow> 'v list \<Rightarrow> 'v list" where
  "dedupe_result ord xs =
     (if distinct xs then xs
      else take (card (set xs)) xs @ range_keys ord (dedupe_keys xs))"

lemma distinct_iff_card: "distinct xs \<longleftrightarrow> \<not> card (set xs) < length xs"
  using card_length [of xs] card_distinct [of xs] distinct_card [of xs] by linarith

lemma short_distinct: "length xs < 2 \<Longrightarrow> distinct xs"
  by (cases xs; cases "tl xs") auto

lemma values_dedupe_spec:
  assumes valid: "valid_slice h s" and run: "values_dedupe g z ord h s = (h', s')"
  shows "deref h' s' = dedupe_result ord (deref h s)" and "slice_step h s h' s'"
proof -
  let ?xs = "deref h s" and ?d = "deduper_add None (deref h s)"
  have len: "slice_len s = length ?xs" using length_deref [OF valid] by simp
  have k: "deduper_len ?d = card (set ?xs)"
    by (simp add: deduper_len_card)
  have "deref h' s' = dedupe_result ord ?xs \<and> slice_step h s h' s'"
  proof (cases "distinct ?xs")
    case True
    then have "(h', s') = (h, s)"
      using run k len by (auto simp: values_dedupe_def distinct_iff_card split: if_splits)
    with True valid show ?thesis by (simp add: dedupe_result_def slice_step_refl)
  next
    case False
    obtain h1 s1 where del: "slice_delete z h s (deduper_len ?d) (slice_len s) = (h1, s1)"
      by fastforce
    have le: "deduper_len ?d \<le> slice_len s"
      using k len by (simp add: card_length)
    note d = slice_delete_spec [OF valid le order_refl del]
    have app: "deduper_append_to_slice g z ord ?d h1 s1 = (h', s')"
      using run False short_distinct [of ?xs] len k del
      by (auto simp: values_dedupe_def distinct_iff_card Let_def split: if_splits)
    note a = deduper_append_to_slice_spec [OF slice_step_valid [OF d(2)] app]
    have "deref h' s' = take (card (set ?xs)) ?xs @ range_keys ord (dedupe_keys ?xs)"
      using a(1) d(1) k len by (simp add: deduper_append_to_keys dedupe_keys_def)
    with False d(2) a(2) show ?thesis
      by (auto simp: dedupe_result_def intro: slice_step_trans)
  qed
  then show "deref h' s' = dedupe_result ord (deref h s)" and "slice_step h s h' s'"
    by blast+
qed

lemma set_dedupe_result [simp]: "set (dedupe_result ord xs) = set xs"
  using set_take_subset [of "card (set xs)" xs] by (auto simp: dedupe_result_def)

lemma dedupe_result_distinct [simp]: "distinct xs \<Longrightarrow> dedupe_result ord xs = xs"
  by (simp add: dedupe_result_def)

lemma length_dedupe_result:
  "length (dedupe_result ord xs) = (if distinct xs then length xs else 2 * card (set xs))"
  using card_length [of xs] by (simp add: dedupe_result_def length_dedupe_keys)

lemma distinct_dedupe_result_iff: "distinct (dedupe_result ord xs) \<longleftrightarrow> distinct xs"
proof
  assume dist: "distinct (dedupe_result ord xs)"
  show "distinct xs"
  proof (rule ccontr)
    assume dup: "\<not> distinct xs"
    have "card (set (dedupe_result ord xs)) = length (dedupe_result ord xs)"
      using dist by (rule distinct_card)
    then have "card (set xs) = 0"
      using dup by (simp add: length_dedupe_result)
    with dup show False by simp
  qed
qed (simp add: dedupe_result_def)

section \<open>Properties\<close>

text \<open>
  Property C31: \<open>Dedupe\<close> keeps the set of values but removes no duplicates: its result is free of
  duplicates only if the slice already was, and from a slice with duplicates over \<open>k\<close> distinct
  values it makes one of length \<open>2k\<close> (its comment promises to remove any duplicates; the append
  must not start behind the first \<open>k\<close> elements).
\<close>

theorem values_dedupe_keeps_duplicates:
  assumes "valid_slice h s" and "values_dedupe g z ord h s = (h', s')"
  shows "set (deref h' s') = set (deref h s) \<and>
    (distinct (deref h' s') \<longleftrightarrow> distinct (deref h s)) \<and>
    length (deref h' s') =
      (if distinct (deref h s) then length (deref h s) else 2 * card (set (deref h s)))"
  by (simp add: values_dedupe_spec(1) [OF assms] distinct_dedupe_result_iff length_dedupe_result)

theorem values_dedupe_keeps_duplicates_witness:
  "\<exists>h' s'. values_dedupe (\<lambda>_ n. n) (0 :: int) (\<lambda>ks. ks) [[5, 7, 5]] (Slice 0 3) = (h', s') \<and>
    \<not> distinct (deref h' s') \<and> length (deref h' s') = 4"
proof -
  obtain h' s' where run:
    "values_dedupe (\<lambda>_ n. n) (0 :: int) (\<lambda>ks. ks) [[5, 7, 5]] (Slice 0 3) = (h', s')" by fastforce
  have "valid_slice [[5, 7, 5 :: int]] (Slice 0 3)" and "deref [[5, 7, 5 :: int]] (Slice 0 3) = [5, 7, 5]"
    by (simp_all add: deref_def)
  moreover have "card {5, 7, 5 :: int} = 2" by code_simp
  ultimately show ?thesis using values_dedupe_keeps_duplicates [OF _ run] run by auto
qed

text \<open>
  A deduper is a set: whatever was added in however many calls, and in whatever
  order the runtime visits the map, \<open>Slice\<close> lists every added value once, and \<open>SortFunc\<close> lists
  them in ascending order.
\<close>

lemma deduper_is_set:
  "set (deduper_slice ord (fold (\<lambda>vs d. deduper_add d vs) batches None)) = (\<Union>vs \<in> set batches. set vs) \<and>
   distinct (deduper_slice ord (fold (\<lambda>vs d. deduper_add d vs) batches None)) \<and>
   deduper_sort_func ord (fold (\<lambda>vs d. deduper_add d vs) batches None) strings_compare =
     sorted_list_of_set (\<Union>vs \<in> set batches. set vs)"
proof -
  let ?d = "fold (\<lambda>vs d. deduper_add d vs) batches None"
  have "gomap_wf ?d" and "set (gomap_keys ?d) = (\<Union>vs \<in> set batches. set vs)"
    using dd.fold_add [where f = "\<lambda>vs. vs" and ks = batches and d = None] by simp_all
  then show ?thesis
    using dd.distinct_slice [of ?d ord] sdd.sort_slice [of ?d ord]
    by (simp add: deduper_sort_func_def)
qed

end
