(* ===== verification/Net_Addr.thy ===== *)
theory Net_Addr
  imports Hashy_Prelude
begin

text \<open>
  IP addresses (\<open>net/netip.Addr\<close>) and hashy's order on them (\<open>compare.go\<close>).

  An address is the zero \<open>Addr\<close>, an IPv4 address or an IPv6 address with its zone. A
  4-in-6 address such as \<open>::ffff:192.168.1.1\<close> is an IPv6 address. The order is the one
  of \<open>Addr.Compare\<close>: bit length, then value, then zone.
\<close>

datatype addr = ZeroAddr | IPv4 "32 word" | IPv6 "128 word" string

fun addr_bit_len :: "addr \<Rightarrow> nat" where
  "addr_bit_len ZeroAddr = 0"
| "addr_bit_len (IPv4 w) = 32"
| "addr_bit_len (IPv6 w zone) = 128"

fun addr_value :: "addr \<Rightarrow> nat" where
  "addr_value ZeroAddr = 0"
| "addr_value (IPv4 w) = unat w"
| "addr_value (IPv6 w zone) = unat w"

fun addr_zone :: "addr \<Rightarrow> string" where
  "addr_zone (IPv6 w zone) = zone"
| "addr_zone _ = []"

definition addr_key :: "addr \<Rightarrow> nat \<times> nat \<times> string" where
  "addr_key a = (addr_bit_len a, addr_value a, addr_zone a)"

lemma addr_key_inject: "addr_key a = addr_key b \<Longrightarrow> a = b"
  by (cases a; cases b) (auto simp: addr_key_def intro: word_unat_eq_iff [THEN iffD2])

instantiation addr :: linorder
begin

definition less_eq_addr :: "addr \<Rightarrow> addr \<Rightarrow> bool" where
  "a \<le> b \<longleftrightarrow> addr_key a \<le> addr_key b"

definition less_addr :: "addr \<Rightarrow> addr \<Rightarrow> bool" where
  "a < b \<longleftrightarrow> addr_key a < addr_key b"

instance
  by standard (auto simp: less_eq_addr_def less_addr_def intro: addr_key_inject)

end

text \<open>\<open>netip.Addr.Compare\<close>, which \<open>CompareAddrs\<close> returns.\<close>

definition compare_addrs :: "addr \<Rightarrow> addr \<Rightarrow> int" where
  "compare_addrs a1 a2 =
     (if addr_bit_len a1 < addr_bit_len a2 then - 1
      else if addr_bit_len a2 < addr_bit_len a1 then 1
      else if addr_value a1 < addr_value a2 then - 1
      else if addr_value a2 < addr_value a1 then 1
      else strings_compare (addr_zone a1) (addr_zone a2))"

interpretation addrcmp: comparison compare_addrs
proof unfold_locales
  fix a b :: addr
  show "compare_addrs a b < 0 \<longleftrightarrow> a < b"
    using strcmp.cmp_less [of "addr_zone a" "addr_zone b"]
    by (auto simp: compare_addrs_def less_addr_def addr_key_def)
  show "compare_addrs a b = 0 \<longleftrightarrow> a = b"
    using strcmp.cmp_equal [of "addr_zone a" "addr_zone b"] addr_key_inject [of a b]
    by (auto simp: compare_addrs_def addr_key_def)
qed

end
