(* ===== verification/Group_Definition.thy ===== *)
theory Group_Definition
  imports Hashy_Prelude
begin

text \<open>
  Group definitions (\<open>service/groupDefinition.go\<close>): the text of a discovery TXT record is
  split into fields, the first names the group and the others its services. Group names are
  checked byte by byte against a lookup table.
\<close>

section \<open>The character table\<close>

record char_class =
  group_leading :: bool
  group_inner :: bool
  group_trailing :: bool

type_synonym char_table = "char \<Rightarrow> char_class"

definition byte_loop :: "char \<Rightarrow> char \<Rightarrow> char list" where
  "byte_loop lo hi = map char_of [of_char lo ..< (of_char hi :: nat)]"

definition empty_table :: char_table where
  "empty_table = (\<lambda>_. \<lparr>group_leading = False, group_inner = False, group_trailing = False\<rparr>)"

text \<open>The three steps of \<open>init\<close>; both loops use a strict upper bound.\<close>

definition init_hyphen :: "char_table \<Rightarrow> char_table" where
  "init_hyphen t = t(CHR ''-'' := (t (CHR ''-''))\<lparr>group_inner := True\<rparr>)"

definition init_digits :: "char_table \<Rightarrow> char_table" where
  "init_digits t =
     fold (\<lambda>i t. t(i := (t i)\<lparr>group_inner := True, group_trailing := True\<rparr>))
       (byte_loop (CHR ''0'') (CHR ''9'')) t"

definition init_letters :: "char_table \<Rightarrow> char_table" where
  "init_letters t =
     fold (\<lambda>i t. t(i := (t i)\<lparr>group_leading := True, group_inner := True, group_trailing := True\<rparr>))
       (byte_loop (CHR ''a'') (CHR ''z'')) t"

definition valid_characters :: char_table where
  "valid_characters = init_letters (init_digits (init_hyphen empty_table))"

lemma fold_table_pointwise:
  assumes "\<And>x. f (f x) = f x"
  shows "fold (\<lambda>i t. t(i := f (t i))) is t c = (if c \<in> set is then f (t c) else t c)"
  using assms by (induction "is" arbitrary: t) auto

lemma set_byte_loop: "set (byte_loop lo hi) = {c. lo \<le> c \<and> c < hi}"
proof (intro set_eqI iffI)
  fix c assume "c \<in> set (byte_loop lo hi)"
  then obtain n :: nat where n: "c = char_of n" "of_char lo \<le> n" "n < of_char hi"
    by (auto simp: byte_loop_def)
  have "n < 256" using n(3) nat_of_char_less_256 [of hi] by linarith
  then have "of_char c = n" using n(1) by simp
  with n show "c \<in> {c. lo \<le> c \<and> c < hi}" by (simp add: less_eq_char_def less_char_def)
next
  fix c assume "c \<in> {c. lo \<le> c \<and> c < hi}"
  then have "of_char c \<in> set [of_char lo ..< (of_char hi :: nat)]"
    by (simp add: less_eq_char_def less_char_def)
  then have "char_of (of_char c :: nat) \<in> set (byte_loop lo hi)"
    unfolding byte_loop_def set_map by (rule imageI)
  then show "c \<in> set (byte_loop lo hi)" by simp
qed

definition group_letter :: "char \<Rightarrow> bool" where
  "group_letter c \<longleftrightarrow> CHR ''a'' \<le> c \<and> c < CHR ''z''"

definition group_digit :: "char \<Rightarrow> bool" where
  "group_digit c \<longleftrightarrow> CHR ''0'' \<le> c \<and> c < CHR ''9''"

lemma init_letters_at:
  "init_letters t c =
     (if group_letter c
      then (t c)\<lparr>group_leading := True, group_inner := True, group_trailing := True\<rparr> else t c)"
  using fold_table_pointwise [where t = t and c = c and f = "\<lambda>r.
      r\<lparr>group_leading := True, group_inner := True, group_trailing := True\<rparr>"]
  by (simp add: init_letters_def set_byte_loop group_letter_def)

lemma init_digits_at:
  "init_digits t c =
     (if group_digit c then (t c)\<lparr>group_inner := True, group_trailing := True\<rparr> else t c)"
  using fold_table_pointwise [where t = t and c = c and f = "\<lambda>r.
      r\<lparr>group_inner := True, group_trailing := True\<rparr>"]
  by (simp add: init_digits_def set_byte_loop group_digit_def)

lemma valid_characters_eq:
  "group_leading (valid_characters c) \<longleftrightarrow> group_letter c"
  "group_trailing (valid_characters c) \<longleftrightarrow> group_letter c \<or> group_digit c"
  "group_inner (valid_characters c) \<longleftrightarrow> group_letter c \<or> group_digit c \<or> c = CHR ''-''"
  by (simp_all add: valid_characters_def init_letters_at init_digits_at init_hyphen_def
    empty_table_def)

lemma valid_characters_code [code]:
  "valid_characters c =
     \<lparr>group_leading = group_letter c, group_inner = group_letter c \<or> group_digit c \<or> c = CHR ''-'',
      group_trailing = group_letter c \<or> group_digit c\<rparr>"
  by (rule char_class.equality) (simp_all add: valid_characters_eq)

section \<open>Validation\<close>

datatype group_error =
    InvalidGroupDefinition
  | BlankGroup
  | InvalidGroupLeading
  | InvalidGroupTrailing
  | InvalidGroup

definition validate_group_name :: "string \<Rightarrow> group_error option" where
  "validate_group_name name =
     (if length name = 0 then Some BlankGroup
      else if \<not> group_leading (valid_characters (name ! 0)) then Some InvalidGroupLeading
      else if \<not> group_trailing (valid_characters (name ! (length name - 1)))
        then Some InvalidGroupTrailing
      else if \<not> list_all (\<lambda>i. group_inner (valid_characters (name ! i))) [1..<length name - 1]
        then Some InvalidGroup
      else None)"

section \<open>Splitting into fields\<close>

text \<open>
  \<open>strings.Fields\<close> splits around runs of white space. White space is the six ASCII space
  characters and, in UTF-8, the other runes for which \<open>unicode.IsSpace\<close> holds: U+0085,
  U+00A0, U+1680, U+2000 to U+200A, U+2028, U+2029, U+202F, U+205F and U+3000.
  \<open>space_width\<close> is the number of bytes of the space at the front of a string, 0 if there is
  none. (The lead bytes of these encodings never occur inside another rune, so scanning byte
  by byte finds the same spaces as scanning rune by rune.)
\<close>

definition ascii_spaces :: "char list" where
  "ascii_spaces = [CHR 0x09, CHR 0x0A, CHR 0x0B, CHR 0x0C, CHR 0x0D, CHR '' '']"

definition unicode_spaces :: "string list" where
  "unicode_spaces =
     [[CHR 0xC2, CHR 0x85], [CHR 0xC2, CHR 0xA0], [CHR 0xE1, CHR 0x9A, CHR 0x80],
      [CHR 0xE2, CHR 0x80, CHR 0x80], [CHR 0xE2, CHR 0x80, CHR 0x81],
      [CHR 0xE2, CHR 0x80, CHR 0x82], [CHR 0xE2, CHR 0x80, CHR 0x83],
      [CHR 0xE2, CHR 0x80, CHR 0x84], [CHR 0xE2, CHR 0x80, CHR 0x85],
      [CHR 0xE2, CHR 0x80, CHR 0x86], [CHR 0xE2, CHR 0x80, CHR 0x87],
      [CHR 0xE2, CHR 0x80, CHR 0x88], [CHR 0xE2, CHR 0x80, CHR 0x89],
      [CHR 0xE2, CHR 0x80, CHR 0x8A], [CHR 0xE2, CHR 0x80, CHR 0xA8],
      [CHR 0xE2, CHR 0x80, CHR 0xA9], [CHR 0xE2, CHR 0x80, CHR 0xAF],
      [CHR 0xE2, CHR 0x81, CHR 0x9F], [CHR 0xE3, CHR 0x80, CHR 0x80]]"

fun space_width :: "string \<Rightarrow> nat" where
  "space_width [] = 0"
| "space_width (c # cs) =
     (if c \<in> set ascii_spaces then 1
      else if [c] @ take 1 cs \<in> set unicode_spaces then 2
      else if [c] @ take 2 cs \<in> set unicode_spaces then 3
      else 0)"

text \<open>
  The scan: \<open>skip\<close> bytes of a multi-byte space are still to be passed over, \<open>cur\<close> is the
  field being read.
\<close>

fun fields_loop :: "nat \<Rightarrow> string \<Rightarrow> string \<Rightarrow> string list" where
  "fields_loop skip cur [] = (if cur = [] then [] else [cur])"
| "fields_loop (Suc skip) cur (c # cs) = fields_loop skip cur cs"
| "fields_loop 0 cur (c # cs) =
     (if space_width (c # cs) = 0 then fields_loop 0 (cur @ [c]) cs
      else (if cur = [] then [] else [cur]) @ fields_loop (space_width (c # cs) - 1) [] cs)"

definition strings_fields :: "string \<Rightarrow> string list" where
  "strings_fields s = fields_loop 0 [] s"

section \<open>Group definitions\<close>

record group_definition =
  gdef_name :: string
  gdef_services :: "string list"

definition zero_group_definition :: group_definition where
  "zero_group_definition = \<lparr>gdef_name = [], gdef_services = []\<rparr>"

text \<open>The returned error wraps the text and the cause.\<close>

datatype definition_error = InvalidDefinition string group_error

definition parse_group_definition ::
  "string \<Rightarrow> group_definition \<times> definition_error option" where
  "parse_group_definition txt =
     (let fields = strings_fields txt;
          (gdef, err) =
            (if 1 < length fields
             then (\<lparr>gdef_name = fields ! 0, gdef_services = drop 1 fields\<rparr>,
                   validate_group_name (fields ! 0))
             else (zero_group_definition, Some InvalidGroupDefinition))
      in (gdef, map_option (InvalidDefinition txt) err))"

definition merge_group_definitions :: "group_definition list \<Rightarrow> group_definition" where
  "merge_group_definitions defs =
     (if length defs = 1 then defs ! 0
      else if 1 < length defs then
        \<lparr>gdef_name = gdef_name (defs ! 0),
         gdef_services = foldl (\<lambda>acc d. acc @ gdef_services d) [] defs\<rparr>
      else zero_group_definition)"

section \<open>Facts about names\<close>

definition group_name_char :: "char \<Rightarrow> bool" where
  "group_name_char c \<longleftrightarrow> group_letter c \<or> group_digit c \<or> c = CHR ''-''"

lemma validate_group_name_None:
  "validate_group_name name = None \<longleftrightarrow>
     name \<noteq> [] \<and> group_letter (hd name) \<and> (group_letter (last name) \<or> group_digit (last name)) \<and>
     (\<forall>c \<in> set name. group_name_char c)"
proof (cases "name = []")
  case False
  then have split: "set name = insert (hd name) (insert (last name) (nth name ` {1..<length name - 1}))"
  proof -
    have "set name = nth name ` {0..<length name}" by (auto simp: set_conv_nth)
    also have "{0..<length name} = insert 0 (insert (length name - 1) {1..<length name - 1})"
      using False by auto
    finally show ?thesis using False by (simp add: hd_conv_nth last_conv_nth)
  qed
  show ?thesis
    unfolding validate_group_name_def split using False
    by (auto simp: valid_characters_eq list_all_iff hd_conv_nth last_conv_nth group_name_char_def)
qed (simp add: validate_group_name_def)

lemma group_name_char_ascii:
  "group_name_char c \<Longrightarrow> of_char c < (128 :: nat) \<and> c \<notin> set ascii_spaces"
  by (auto simp: group_name_char_def group_letter_def group_digit_def ascii_spaces_def
    less_eq_char_def less_char_def)

section \<open>Facts about fields\<close>

text \<open>A string with no white space at any position.\<close>

fun space_free :: "string \<Rightarrow> bool" where
  "space_free [] = True"
| "space_free (c # cs) = (space_width (c # cs) = 0 \<and> space_free cs)"

lemma unicode_space_bytes:
  "u \<in> set unicode_spaces \<Longrightarrow> c \<in> set u \<Longrightarrow> (128 :: nat) \<le> of_char c"
  by (auto simp: unicode_spaces_def)

lemma unicode_space_no_blank: "u \<in> set unicode_spaces \<Longrightarrow> CHR '' '' \<notin> set u"
  using unicode_space_bytes [of u "CHR '' ''"] by auto

lemma ascii_space_free:
  "\<forall>c \<in> set s. of_char c < (128 :: nat) \<and> c \<notin> set ascii_spaces \<Longrightarrow> space_free s"
proof (induction s)
  case (Cons c cs)
  have "u \<notin> set unicode_spaces" if "c \<in> set u" for u
    using that Cons.prems unicode_space_bytes [of u c] by fastforce
  with Cons show ?case by simp
qed simp

lemma space_width_blank [simp]: "space_width (CHR '' '' # cs) = 1"
  by (simp add: ascii_spaces_def)

text \<open>A blank after a non-space byte does not complete a multi-byte space.\<close>

lemma space_width_append_blank:
  assumes "space_width (c # cs) = 0"
  shows "space_width (c # cs @ CHR '' '' # rest) = 0"
proof -
  have "[c] @ take n (cs @ CHR '' '' # rest) \<notin> set unicode_spaces"
    if "[c] @ take n cs \<notin> set unicode_spaces" for n
  proof (cases "n \<le> length cs")
    case True
    with that show ?thesis by simp
  next
    case False
    then have "CHR '' '' \<in> set ([c] @ take n (cs @ CHR '' '' # rest))"
      by (cases "n - length cs") auto
    then show ?thesis using unicode_space_no_blank by blast
  qed
  with assms show ?thesis by (auto split: if_splits)
qed

lemma fields_loop_word:
  "space_free w \<Longrightarrow> fields_loop 0 cur (w @ CHR '' '' # rest) =
     (if cur @ w = [] then [] else [cur @ w]) @ fields_loop 0 [] rest"
proof (induction w arbitrary: cur)
  case Nil
  then show ?case by (simp del: space_width.simps)
next
  case (Cons c cs)
  then have "space_width (c # cs @ CHR '' '' # rest) = 0"
    using space_width_append_blank by simp
  with Cons show ?case by (simp del: space_width.simps)
qed

lemma fields_loop_last: "space_free w \<Longrightarrow> fields_loop 0 cur w = (if cur @ w = [] then [] else [cur @ w])"
  by (induction w arbitrary: cur) (simp_all del: space_width.simps)

fun join_fields :: "string list \<Rightarrow> string" where
  "join_fields [] = []"
| "join_fields [w] = w"
| "join_fields (w # ws) = w @ CHR '' '' # join_fields ws"

lemma fields_join:
  "\<forall>w \<in> set ws. w \<noteq> [] \<and> space_free w \<Longrightarrow> strings_fields (join_fields ws) = ws"
  unfolding strings_fields_def
  by (induction ws rule: join_fields.induct) (simp_all add: fields_loop_word fields_loop_last)

text \<open>Conversely every field is non-empty and free of white space.\<close>

lemma space_free_append: "space_free (xs @ ys) \<Longrightarrow> space_free ys"
  by (induction xs) auto

lemma space_width_prefix_0:
  assumes "space_width (c # cs @ ys) = 0"
  shows "space_width (c # cs) = 0"
proof -
  have "[c] @ take n cs \<notin> set unicode_spaces"
    if "[c] @ take 1 (cs @ ys) \<notin> set unicode_spaces" "[c] @ take 2 (cs @ ys) \<notin> set unicode_spaces"
      "n = 1 \<or> n = 2" for n
  proof (cases "n \<le> length cs")
    case True
    with that show ?thesis by auto
  next
    case False
    then have "take n cs = take (length cs) (cs @ ys)" and "length cs = 0 \<or> length cs = 1"
      using that(3) by (auto simp: not_le less_Suc_eq numeral_2_eq_2)
    moreover have "[c] \<notin> set unicode_spaces" by (auto simp: unicode_spaces_def)
    ultimately show ?thesis using that(1) by auto
  qed
  with assms show ?thesis by (auto split: if_splits)
qed

lemma space_free_snoc:
  assumes "space_free (w @ ys)"
  shows "space_free w"
  using assms by (induction w) (auto simp del: space_width.simps dest: space_width_prefix_0)

text \<open>
  \<open>word_before cur s\<close>: the bytes of the field \<open>cur\<close> were no spaces in front of the rest \<open>s\<close>.
\<close>

fun word_before :: "string \<Rightarrow> string \<Rightarrow> bool" where
  "word_before [] s = True"
| "word_before (c # cs) s = (space_width (c # cs @ s) = 0 \<and> word_before cs s)"

lemma word_before_snoc:
  "word_before cur (c # cs) \<Longrightarrow> space_width (c # cs) = 0 \<Longrightarrow> word_before (cur @ [c]) cs"
  by (induction cur) (simp_all del: space_width.simps)

lemma word_before_space_free: "word_before cur s \<Longrightarrow> space_free cur"
  by (induction cur) (auto simp del: space_width.simps dest: space_width_prefix_0)

lemma fields_loop_fields:
  "(if skip = 0 then word_before cur s else cur = []) \<Longrightarrow> w \<in> set (fields_loop skip cur s) \<Longrightarrow>
     w \<noteq> [] \<and> space_free w"
proof (induction skip cur s rule: fields_loop.induct)
  case (1 skip cur)
  then show ?case by (auto simp: word_before_space_free split: if_splits)
next
  case (2 skip cur c cs)
  then show ?case by simp
next
  case (3 cur c cs)
  show ?case
  proof (cases "space_width (c # cs) = 0")
    case True
    with 3 show ?thesis by (simp add: word_before_snoc del: space_width.simps)
  next
    case False
    have "if space_width (c # cs) - 1 = 0 then word_before [] cs else [] = ([] :: string)" by simp
    note rest = "3.IH"(2) [OF False this]
    from "3.prems"(2) False have "w = cur \<and> cur \<noteq> [] \<or> w \<in> set (fields_loop (space_width (c # cs) - 1) [] cs)"
      by (auto simp del: space_width.simps split: if_splits)
    with rest "3.prems"(1) show ?thesis by (auto simp: word_before_space_free)
  qed
qed

lemma strings_fields_words: "w \<in> set (strings_fields s) \<Longrightarrow> w \<noteq> [] \<and> space_free w"
  unfolding strings_fields_def by (rule fields_loop_fields) simp_all

section \<open>Properties\<close>

text \<open>
  Property C34: the group names accepted are exactly the non-empty strings over the letters
  a to y, the digits 0 to 8 and the hyphen that start with a letter and end with a letter or
  digit. (The error texts and the package's comments promise all lowercase letters and
  digits; the loops that fill the table stop before 'z' and '9'.)
\<close>

theorem validate_group_name_accepts:
  "validate_group_name name = None \<longleftrightarrow>
     name \<noteq> [] \<and> CHR ''a'' \<le> hd name \<and> hd name \<le> CHR ''y'' \<and>
     last name \<noteq> CHR ''-'' \<and>
     (\<forall>c \<in> set name. (CHR ''a'' \<le> c \<and> c \<le> CHR ''y'') \<or> (CHR ''0'' \<le> c \<and> c \<le> CHR ''8'') \<or>
        c = CHR ''-'')"
proof -
  have letter: "group_letter c \<longleftrightarrow> CHR ''a'' \<le> c \<and> c \<le> CHR ''y''"
    and digit: "group_digit c \<longleftrightarrow> CHR ''0'' \<le> c \<and> c \<le> CHR ''8''" for c
    by (auto simp: group_letter_def group_digit_def less_eq_char_def less_char_def)
  have "\<not> CHR ''a'' \<le> CHR ''-''" "\<not> CHR ''0'' \<le> CHR ''-''"
    by (simp_all add: less_eq_char_def)
  then show ?thesis
    unfolding validate_group_name_None group_name_char_def letter digit
    by (auto dest: last_in_set)
qed

theorem validate_group_name_accepts_witness:
  "validate_group_name ''useast1'' = None"
proof -
  have "(\<forall>c \<in> set ''useast1''. (CHR ''a'' \<le> c \<and> c \<le> CHR ''y'') \<or>
      (CHR ''0'' \<le> c \<and> c \<le> CHR ''8'') \<or> c = CHR ''-'')"
    by (simp add: less_eq_char_def)
  then show ?thesis
    using validate_group_name_accepts [of "''useast1''"] by (simp add: less_eq_char_def)
qed

lemma parse_joined:
  assumes "validate_group_name name = None" and "svcs \<noteq> []"
    and "\<forall>s \<in> set svcs. s \<noteq> [] \<and> space_free s"
  shows "parse_group_definition (join_fields (name # svcs)) =
    (\<lparr>gdef_name = name, gdef_services = svcs\<rparr>, None)"
proof -
  have "\<forall>c \<in> set name. group_name_char c" and "name \<noteq> []"
    using assms(1) by (simp_all add: validate_group_name_None)
  then have "space_free name"
    by (intro ascii_space_free) (blast dest: group_name_char_ascii)
  with \<open>name \<noteq> []\<close> assms(3) have "strings_fields (join_fields (name # svcs)) = name # svcs"
    by (intro fields_join) simp
  with assms(1,2) show ?thesis by (simp add: parse_group_definition_def Let_def)
qed

text \<open>
  Property C35: a discovery text built from a valid group name and non-empty, blank-free
  service names, joined by single blanks, parses back to exactly that definition.
\<close>

theorem parse_group_definition_roundtrip:
  assumes "validate_group_name name = None" and "svcs \<noteq> []"
    and "\<forall>s \<in> set svcs. s \<noteq> [] \<and> space_free s"
  shows "parse_group_definition (join_fields (name # svcs)) =
    (\<lparr>gdef_name = name, gdef_services = svcs\<rparr>, None)"
  using assms by (rule parse_joined)

theorem parse_group_definition_roundtrip_witness:
  "parse_group_definition ''useast1 _talaria._tcp'' =
     (\<lparr>gdef_name = ''useast1'', gdef_services = [''_talaria._tcp'']\<rparr>, None)"
proof -
  have "validate_group_name ''useast1'' = None" and "space_free ''_talaria._tcp''"
    by code_simp+
  then show ?thesis
    using parse_group_definition_roundtrip [of "''useast1''" "[''_talaria._tcp'']"]
    by (simp del: space_free.simps)
qed

text \<open>
  Parsing succeeds exactly on texts with at least two fields whose first field
  is a valid group name; the result is then the name and the remaining fields, and these are
  non-empty and free of white space.
\<close>

lemma parse_group_definition_ok:
  "snd (parse_group_definition txt) = None \<longleftrightarrow>
     (\<exists>name svcs. strings_fields txt = name # svcs \<and> svcs \<noteq> [] \<and> validate_group_name name = None \<and>
        fst (parse_group_definition txt) = \<lparr>gdef_name = name, gdef_services = svcs\<rparr> \<and>
        (\<forall>s \<in> set svcs. s \<noteq> [] \<and> space_free s))"
proof -
  have words: "\<forall>s \<in> set (strings_fields txt). s \<noteq> [] \<and> space_free s"
    using strings_fields_words by blast
  show ?thesis
  proof (cases "strings_fields txt")
    case (Cons name svcs)
    with words show ?thesis by (cases svcs) (auto simp: parse_group_definition_def)
  qed (simp add: parse_group_definition_def)
qed

lemma foldl_services:
  "foldl (\<lambda>acc d. acc @ gdef_services d) acc ds = acc @ concat (map gdef_services ds)"
  by (induction ds arbitrary: acc) simp_all

lemma merge_services: "gdef_services (merge_group_definitions defs) = concat (map gdef_services defs)"
  by (cases defs; cases "tl defs")
    (auto simp: merge_group_definitions_def zero_group_definition_def foldl_services)

lemma merge_name:
  "gdef_name (merge_group_definitions defs) = (case defs of [] \<Rightarrow> [] | d # _ \<Rightarrow> gdef_name d)"
  by (cases defs; cases "tl defs")
    (auto simp: merge_group_definitions_def zero_group_definition_def)

end
