(* ===== verification/Group_Records.thy ===== *)
theory Group_Records
  imports Net_Addr Group_Definition
begin

text \<open>
  Endpoints, groups and the DNS records they produce (\<open>service/endpoint.go\<close>,
  \<open>service/group.go\<close>, \<open>service/empty.go\<close> and the \<open>LocatedEndpoints\<close> part of
  \<open>service/locator.go\<close>), with the part of the DNS package's record types that hashy reads
  and writes.

  An iterator is the list of values it yields. A nil pointer is \<^const>\<open>None\<close>; a run-time
  panic is a value of the left summand.
\<close>

section \<open>Resource records\<close>

record header =
  hdr_name :: string
  hdr_ttl :: "32 word"
  hdr_class :: "16 word"

text \<open>
  The record types hashy distinguishes; every other type is \<open>OtherRR\<close>. Only the fields the
  source reads or writes are kept.
\<close>

datatype rr =
    TXT header "string list"
  | SRV header string
  | A header addr
  | AAAA header addr
  | OtherRR header

fun rr_header :: "rr \<Rightarrow> header" where
  "rr_header (TXT h _) = h"
| "rr_header (SRV h _) = h"
| "rr_header (A h _) = h"
| "rr_header (AAAA h _) = h"
| "rr_header (OtherRR h) = h"

text \<open>The assignment \<open>*rr.Header() = header\<close>.\<close>

fun set_rr_header :: "header \<Rightarrow> rr \<Rightarrow> rr" where
  "set_rr_header h (TXT _ txt) = TXT h txt"
| "set_rr_header h (SRV _ target) = SRV h target"
| "set_rr_header h (A _ addr) = A h addr"
| "set_rr_header h (AAAA _ addr) = AAAA h addr"
| "set_rr_header h (OtherRR _) = OtherRR h"

lemma rr_header_set [simp]: "rr_header (set_rr_header h r) = h"
  by (cases r) simp_all

text \<open>Type, class and response codes of the DNS protocol (RFC 1035, RFC 3596).\<close>

definition type_A :: "16 word" where "type_A = 1"
definition type_TXT :: "16 word" where "type_TXT = 16"
definition type_AAAA :: "16 word" where "type_AAAA = 28"
definition class_INET :: "16 word" where "class_INET = 1"

lemma types_differ [simp]:
  "type_A \<noteq> type_TXT" "type_A \<noteq> type_AAAA" "type_AAAA \<noteq> type_TXT"
  "type_TXT \<noteq> type_A" "type_AAAA \<noteq> type_A" "type_TXT \<noteq> type_AAAA"
  by (simp_all add: type_A_def type_TXT_def type_AAAA_def)

text \<open>The header of a record before a handler fills it in: only the class is set.\<close>

definition inet_header :: header where
  "inet_header = \<lparr>hdr_name = [], hdr_ttl = 0, hdr_class = class_INET\<rparr>"

datatype panic = NilDereference | IndexOutOfRange

section \<open>Endpoints and groups\<close>

text \<open>
  \<open>'v\<close> is the type of an address collection: a slice while records are collected, the list
  of addresses once the groups are built.
\<close>

record 'v endpoint =
  ep_name :: string
  ep_ip4 :: 'v
  ep_ip6 :: 'v

definition original_name :: "'v endpoint \<Rightarrow> string" where
  "original_name s = ep_name s"

record 'v group =
  grp_name :: string
  grp_services :: "string list"
  grp_endpoints :: "'v endpoint list"

definition group_len :: "'v group \<Rightarrow> nat" where
  "group_len g = length (grp_endpoints g)"

definition group_endpoints :: "'v group \<Rightarrow> 'v endpoint list" where
  "group_endpoints g = map (\<lambda>i. grp_endpoints g ! i) [0..<length (grp_endpoints g)]"

lemma group_endpoints_eq [simp]: "group_endpoints g = grp_endpoints g"
  by (simp add: group_endpoints_def map_nth)

definition group_len_rrs :: "'v group \<Rightarrow> 16 word \<Rightarrow> nat" where
  "group_len_rrs g rr_type =
     (if rr_type = type_TXT then length (grp_services g) + length (grp_endpoints g) else 0)"

definition group_txt :: "'v group \<Rightarrow> string \<Rightarrow> rr" where
  "group_txt g item = TXT inet_header [grp_name g @ [CHR '' ''] @ item]"

definition empty_rrs :: "('e \<times> rr) list" where
  "empty_rrs = []"

definition group_rrs :: "'v group \<Rightarrow> 16 word \<Rightarrow> ('v group \<times> rr) list" where
  "group_rrs g rr_type =
     (if rr_type \<noteq> type_TXT then empty_rrs
      else map (\<lambda>service_name. (g, group_txt g service_name)) (grp_services g) @
           map (\<lambda>endpoint. (g, group_txt g (original_name endpoint))) (grp_endpoints g))"

record 'v groups =
  gps_by_name :: "(string, nat) gomap"
  gps_all :: "'v group list"

definition groups_len :: "'v groups \<Rightarrow> nat" where
  "groups_len gps = length (gps_all gps)"

definition groups_at :: "'v groups \<Rightarrow> nat \<Rightarrow> panic + 'v group" where
  "groups_at gps i =
     (if i < length (gps_all gps) then Inr (gps_all gps ! i) else Inl IndexOutOfRange)"

definition groups_get :: "'v groups \<Rightarrow> string \<Rightarrow> panic + 'v group option" where
  "groups_get gps group_name =
     (case gomap_lookup (gps_by_name gps) group_name of
        Some pos \<Rightarrow> map_sum id Some (groups_at gps pos)
      | None \<Rightarrow> Inr None)"

definition groups_all :: "'v groups \<Rightarrow> 'v group list" where
  "groups_all gps = map (\<lambda>i. gps_all gps ! i) [0..<length (gps_all gps)]"

lemma groups_all_eq [simp]: "groups_all gps = gps_all gps"
  by (simp add: groups_all_def map_nth)

definition groups_len_rrs :: "'v groups \<Rightarrow> 16 word \<Rightarrow> nat" where
  "groups_len_rrs gps rr_type = foldl (\<lambda>n g. n + group_len_rrs g rr_type) 0 (gps_all gps)"

definition groups_rrs :: "'v groups \<Rightarrow> 16 word \<Rightarrow> ('v group \<times> rr) list" where
  "groups_rrs gps rr_type = concat (map (\<lambda>group. group_rrs group rr_type) (gps_all gps))"

text \<open>The index of a finished \<open>Groups\<close> names every group by its own position.\<close>

definition groups_wf :: "'v groups \<Rightarrow> bool" where
  "groups_wf gps \<longleftrightarrow>
     distinct (map grp_name (gps_all gps)) \<and>
     (\<forall>name. gomap_lookup (gps_by_name gps) name =
        map_of (zip (map grp_name (gps_all gps)) [0..<length (gps_all gps)]) name)"

lemma groups_get_wf:
  assumes "groups_wf gps"
  shows "groups_get gps name = Inr (find (\<lambda>g. grp_name g = name) (gps_all gps))"
proof (cases "\<exists>i < length (gps_all gps). grp_name (gps_all gps ! i) = name")
  case True
  then obtain i where i: "i < length (gps_all gps)" "grp_name (gps_all gps ! i) = name" by blast
  have dist: "distinct (map grp_name (gps_all gps))" using assms by (simp add: groups_wf_def)
  have "gomap_lookup (gps_by_name gps) name = Some i"
    using assms i dist map_of_zip_nth [of "map grp_name (gps_all gps)" "[0..<length (gps_all gps)]" i]
    by (simp add: groups_wf_def)
  moreover have "find (\<lambda>g. grp_name g = name) (gps_all gps) = Some (gps_all gps ! i)"
    unfolding find_Some_iff using i dist
    by (auto simp: distinct_conv_nth intro!: exI [of _ i])
  ultimately show ?thesis using i by (simp add: groups_get_def groups_at_def)
next
  case False
  then have "find (\<lambda>g. grp_name g = name) (gps_all gps) = None"
    by (auto simp: find_None_iff in_set_conv_nth)
  moreover have "gomap_lookup (gps_by_name gps) name = None"
    using assms False by (auto simp: groups_wf_def map_of_eq_None_iff in_set_conv_nth)
  ultimately show ?thesis by (simp add: groups_get_def)
qed

section \<open>Located endpoints\<close>

text \<open>A located endpoint is a pointer, as the hash ring returns it.\<close>

type_synonym located = "addr list endpoint option list"

fun located_sum :: "(addr list endpoint \<Rightarrow> addr list) \<Rightarrow> nat \<Rightarrow> located \<Rightarrow> panic + nat" where
  "located_sum f n [] = Inr n"
| "located_sum f n (None # le) = Inl NilDereference"
| "located_sum f n (Some e # le) = located_sum f (n + length (f e)) le"

definition located_len_rrs :: "located \<Rightarrow> 16 word \<Rightarrow> panic + nat" where
  "located_len_rrs le rr_type =
     (if rr_type = type_A then located_sum ep_ip4 0 le
      else if rr_type = type_AAAA then located_sum ep_ip6 0 le
      else Inr 0)"

fun located_seq :: "(addr list endpoint \<Rightarrow> rr list) \<Rightarrow> located
    \<Rightarrow> panic + (addr list endpoint \<times> rr) list" where
  "located_seq f [] = Inr []"
| "located_seq f (None # le) = Inl NilDereference"
| "located_seq f (Some e # le) = map_sum id (\<lambda>rest. map (Pair e) (f e) @ rest) (located_seq f le)"

definition located_rrs :: "located \<Rightarrow> 16 word \<Rightarrow> panic + (addr list endpoint \<times> rr) list" where
  "located_rrs le rr_type =
     (if rr_type = type_A then located_seq (\<lambda>e. map (A inet_header) (ep_ip4 e)) le
      else if rr_type = type_AAAA then located_seq (\<lambda>e. map (AAAA inet_header) (ep_ip6 e)) le
      else Inr empty_rrs)"

section \<open>Filling in headers\<close>

text \<open>The loop both handlers run over a record sequence: one header for every record.\<close>

definition fill_headers :: "header \<Rightarrow> ('e \<times> rr) list \<Rightarrow> rr list" where
  "fill_headers h xs = map (\<lambda>(_, rr). set_rr_header h rr) xs"

lemma set_set_rr_header: "set_rr_header h (set_rr_header h' r) = set_rr_header h r"
  by (cases r) simp_all

lemma set_rr_header_id: "rr_header r = h \<Longrightarrow> set_rr_header h r = r"
  by (cases r) auto

lemma fill_headers_header: "r \<in> set (fill_headers h xs) \<Longrightarrow> rr_header r = h"
  by (auto simp: fill_headers_def)

section \<open>The contract of a record source\<close>

text \<open>
  What the DNS handlers rely on: \<open>LenRRs\<close> announces how many records \<open>RRs\<close> yields, both
  panic together, and each record comes with a header of which only the class is set.
\<close>

locale rr_source =
  fixes len_rrs :: "'c \<Rightarrow> 16 word \<Rightarrow> panic + nat"
    and rrs :: "'c \<Rightarrow> 16 word \<Rightarrow> panic + ('e \<times> rr) list"
  assumes len_rrs: "len_rrs c t = map_sum id length (rrs c t)"
    and fresh: "rrs c t = Inr xs \<Longrightarrow> (e, r) \<in> set xs \<Longrightarrow> rr_header r = inet_header"
begin

lemma length_fill_headers: "rrs c t = Inr xs \<Longrightarrow> len_rrs c t = Inr (length (fill_headers h xs))"
  by (simp add: fill_headers_def len_rrs)

lemma panic_iff: "isl (len_rrs c t) \<longleftrightarrow> isl (rrs c t)"
  by (cases "rrs c t") (simp_all add: len_rrs)

text \<open>Filling in headers loses nothing: the placeholder can be written back.\<close>

lemma refill_inet: "rrs c t = Inr xs \<Longrightarrow>
    map (set_rr_header inet_header) (fill_headers h xs) = map snd xs"
  using fresh [of c t xs] by (auto simp: fill_headers_def set_set_rr_header set_rr_header_id)

end

lemma length_group_rrs: "length (group_rrs g t) = group_len_rrs g t"
  by (simp add: group_rrs_def group_len_rrs_def empty_rrs_def)

lemma length_groups_rrs: "length (groups_rrs gps t) = groups_len_rrs gps t"
proof -
  have "foldl (\<lambda>n g. n + group_len_rrs g t) n gs =
      n + length (concat (map (\<lambda>group. group_rrs group t) gs))" for n and gs :: "'a group list"
    by (induction gs arbitrary: n) (simp_all add: length_group_rrs)
  then show ?thesis by (simp add: groups_len_rrs_def groups_rrs_def)
qed

lemma located_sum_seq:
  assumes "\<And>e. length (g e) = length (f e)"
  shows "located_sum f n le = map_sum id (\<lambda>xs. n + length xs) (located_seq g le)"
proof (induction le arbitrary: n)
  case (Cons p le)
  show ?case
  proof (cases p)
    case (Some e)
    with Cons show ?thesis by (cases "located_seq g le") (simp_all add: assms)
  qed simp
qed simp

lemma located_seq_header:
  assumes "\<And>e r. r \<in> set (f e) \<Longrightarrow> rr_header r = h"
  shows "located_seq f le = Inr xs \<Longrightarrow> (e, r) \<in> set xs \<Longrightarrow> rr_header r = h"
proof (induction le arbitrary: xs)
  case (Cons p le)
  then show ?case
    by (cases p; cases "located_seq f le") (auto dest: assms)
qed simp

lemma group_rrs_header: "(e, r) \<in> set (group_rrs g t) \<Longrightarrow> rr_header r = inet_header"
  by (auto simp: group_rrs_def group_txt_def empty_rrs_def split: if_splits)

interpretation grr: rr_source "\<lambda>g t. Inr (group_len_rrs g t)" "\<lambda>g t. Inr (group_rrs g t)"
  by unfold_locales (simp add: length_group_rrs, auto intro: group_rrs_header)

interpretation gsrr: rr_source "\<lambda>gps t. Inr (groups_len_rrs gps t)" "\<lambda>gps t. Inr (groups_rrs gps t)"
  by unfold_locales
    (simp add: length_groups_rrs, auto simp: groups_rrs_def intro: group_rrs_header)

interpretation lrr: rr_source located_len_rrs located_rrs
proof unfold_locales
  show "located_len_rrs c t = map_sum id length (located_rrs c t)" for c t
    using located_sum_seq [of "\<lambda>e. map (A inet_header) (ep_ip4 e)" ep_ip4 0 c]
      located_sum_seq [of "\<lambda>e. map (AAAA inet_header) (ep_ip6 e)" ep_ip6 0 c]
    by (simp add: located_len_rrs_def located_rrs_def empty_rrs_def)
  show "rr_header r = inet_header" if "located_rrs c t = Inr xs" "(e, r) \<in> set xs" for c t xs e r
  proof -
    have "rr_header r = inet_header" if "r \<in> set (map (A inet_header) as)" for r as
      using that by auto
    moreover have "rr_header r = inet_header" if "r \<in> set (map (AAAA inet_header) as)" for r as
      using that by auto
    ultimately show ?thesis
      using that
      by (auto simp only: located_rrs_def empty_rrs_def sum.inject list.set empty_iff
        split: if_splits dest: located_seq_header [rotated])
  qed
qed

text \<open>Without nil pointers the records are those of the endpoints, in order.\<close>

lemma located_seq_some:
  "located_seq f (map Some es) = Inr (concat (map (\<lambda>e. map (Pair e) (f e)) es))"
  by (induction es) simp_all

lemma located_seq_isl: "isl (located_seq f le) \<longleftrightarrow> None \<in> set le"
proof (induction le)
  case (Cons p le)
  then show ?case by (cases p; cases "located_seq f le") auto
qed simp

end
