(* ===== verification/Collectors.thy ===== *)
theory Collectors
  imports Values Group_Records
begin

text \<open>
  The collectors (\<open>service/collectors.go\<close>): DNS records stream into an \<open>RRCollector\<close>, and
  \<open>Build\<close> turns what was collected into groups.

  Addresses live in slices over an explicit store (\<open>col_heap\<close>), because \<open>endpointsFor\<close>
  dedupes and sorts the slices of a copied map value in place: the copy and the map entry
  share the array. Service and target names are lists; no one writes their slices while they
  are shared.
\<close>

text \<open>The orders in which the runtime ranges over the maps involved.\<close>

record map_orders =
  ord_groups :: "string list \<Rightarrow> string list"
  ord_services :: "string list \<Rightarrow> string list"
  ord_targets :: "string list \<Rightarrow> string list"
  ord_addrs :: "addr list \<Rightarrow> addr list"

section \<open>groupCollector\<close>

type_synonym group_collector = "(string, group_definition) gomap"

definition gc_clear :: "group_collector \<Rightarrow> group_collector" where
  "gc_clear gc = gomap_clear gc"

definition gc_add :: "group_collector \<Rightarrow> group_definition \<Rightarrow> group_collector" where
  "gc_add gc gdef =
     (case gc of
        None \<Rightarrow> Some [(gdef_name gdef, gdef)]
      | Some m \<Rightarrow>
          (let merged = (case map_of m (gdef_name gdef) of
                 None \<Rightarrow> zero_group_definition | Some d \<Rightarrow> d);
               merged = merged\<lparr>gdef_name := gdef_name gdef\<rparr>;
               merged = merged\<lparr>gdef_services := gdef_services merged @ gdef_services gdef\<rparr>
           in Some (AList.update (gdef_name gdef) merged m)))"

fun gc_add_txt :: "group_collector \<Rightarrow> string list \<Rightarrow> group_collector \<times> definition_error option" where
  "gc_add_txt gc [] = (gc, None)"
| "gc_add_txt gc (txt # values) =
     (let (gdef, err) = parse_group_definition txt in
      case err of
        Some e \<Rightarrow> (gc, Some e)
      | None \<Rightarrow> gc_add_txt (gc_add gc gdef) values)"

definition gdef_compare :: "group_definition \<Rightarrow> group_definition \<Rightarrow> int" where
  "gdef_compare def1 def2 = strings_compare (gdef_name def1) (gdef_name def2)"

text \<open>The loop of \<open>sorted\<close>: the deduper is cleared and reused for every definition.\<close>

definition gc_sorted_step ::
  "map_orders \<Rightarrow> group_definition \<Rightarrow> string deduper \<times> group_definition list
    \<Rightarrow> string deduper \<times> group_definition list" where
  "gc_sorted_step ords def st =
     (let (dedupe, defs) = st;
          dedupe = deduper_add (deduper_clear dedupe) (gdef_services def);
          services = sort_strings (deduper_append_to (ord_services ords) dedupe [])
      in (dedupe, defs @ [def\<lparr>gdef_services := services\<rparr>]))"

definition gc_sorted :: "map_orders \<Rightarrow> group_collector \<Rightarrow> group_definition list" where
  "gc_sorted ords gc =
     (if gomap_len gc < 1 then []
      else
        (let visited = map (\<lambda>k. the (gomap_lookup gc k)) (range_keys (ord_groups ords) (gomap_keys gc))
         in sort_func gdef_compare (snd (fold (gc_sorted_step ords) visited (None, [])))))"

definition gc_new_groups :: "map_orders \<Rightarrow> group_collector \<Rightarrow> 'v groups" where
  "gc_new_groups ords gc =
     (let all = map (\<lambda>gdef. \<lparr>grp_name = gdef_name gdef, grp_services = gdef_services gdef,
                grp_endpoints = []\<rparr>) (gc_sorted ords gc);
          by_name = fold (\<lambda>(i, g) m. AList.update (grp_name g) i m) (enumerate 0 all) []
      in \<lparr>gps_by_name = Some by_name, gps_all = all\<rparr>)"

section \<open>servicesCollector\<close>

type_synonym services_collector = "(string, string list) gomap"

definition sc_clear :: "services_collector \<Rightarrow> services_collector" where
  "sc_clear sc = gomap_clear sc"

definition sc_add :: "services_collector \<Rightarrow> string \<Rightarrow> string \<Rightarrow> services_collector" where
  "sc_add sc service_name target_name =
     (case sc of
        None \<Rightarrow> Some [(service_name, [target_name])]
      | Some m \<Rightarrow>
          (let old = (case map_of m service_name of None \<Rightarrow> [] | Some vs \<Rightarrow> vs)
           in Some (AList.update service_name (values_append_list old [target_name]) m)))"

definition sc_target_names ::
  "map_orders \<Rightarrow> services_collector \<Rightarrow> string list \<Rightarrow> string list" where
  "sc_target_names ords sc service_names =
     (let dedupe = fold (\<lambda>s d. deduper_add d (case gomap_lookup sc s of None \<Rightarrow> [] | Some vs \<Rightarrow> vs))
            service_names None
      in deduper_sort_func (ord_targets ords) dedupe strings_compare)"

section \<open>endpointCollector\<close>

type_synonym endpoint_collector = "(string, slice endpoint) gomap"

definition zero_endpoint :: "slice endpoint" where
  "zero_endpoint = \<lparr>ep_name = [], ep_ip4 = NilSlice, ep_ip6 = NilSlice\<rparr>"

definition ec_clear :: "endpoint_collector \<Rightarrow> endpoint_collector" where
  "ec_clear ec = gomap_clear ec"

definition ec_add_ip4 ::
  "growth \<Rightarrow> addr store \<Rightarrow> endpoint_collector \<Rightarrow> string \<Rightarrow> addr
    \<Rightarrow> addr store \<times> endpoint_collector" where
  "ec_add_ip4 g h ec name addr =
     (case ec of
        None \<Rightarrow>
          (let (h, s) = slice_literal h [addr]
           in (h, Some [(name, zero_endpoint\<lparr>ep_name := name, ep_ip4 := s\<rparr>)]))
      | Some m \<Rightarrow>
          (let edef = (case map_of m name of None \<Rightarrow> zero_endpoint | Some e \<Rightarrow> e);
               edef = edef\<lparr>ep_name := name\<rparr>;
               (h, s) = values_add g ZeroAddr h (ep_ip4 edef) [addr]
           in (h, Some (AList.update name (edef\<lparr>ep_ip4 := s\<rparr>) m))))"

definition ec_add_ip6 ::
  "growth \<Rightarrow> addr store \<Rightarrow> endpoint_collector \<Rightarrow> string \<Rightarrow> addr
    \<Rightarrow> addr store \<times> endpoint_collector" where
  "ec_add_ip6 g h ec name addr =
     (case ec of
        None \<Rightarrow>
          (let (h, s) = slice_literal h [addr]
           in (h, Some [(name, zero_endpoint\<lparr>ep_name := name, ep_ip6 := s\<rparr>)]))
      | Some m \<Rightarrow>
          (let edef = (case map_of m name of None \<Rightarrow> zero_endpoint | Some e \<Rightarrow> e);
               edef = edef\<lparr>ep_name := name\<rparr>;
               (h, s) = values_add g ZeroAddr h (ep_ip6 edef) [addr]
           in (h, Some (AList.update name (edef\<lparr>ep_ip6 := s\<rparr>) m))))"

text \<open>Deduping and sorting one address family of a copied endpoint.\<close>

definition ec_normalize ::
  "growth \<Rightarrow> map_orders \<Rightarrow> addr store \<Rightarrow> slice \<Rightarrow> addr store \<times> slice" where
  "ec_normalize g ords h vs =
     (let (h, vs) = values_dedupe g ZeroAddr (ord_addrs ords) h vs
      in (values_sort_func compare_addrs h vs, vs))"

fun ec_endpoints_for ::
  "growth \<Rightarrow> map_orders \<Rightarrow> addr store \<Rightarrow> endpoint_collector \<Rightarrow> string list
    \<Rightarrow> addr store \<times> slice endpoint list" where
  "ec_endpoints_for g ords h ec [] = (h, [])"
| "ec_endpoints_for g ords h ec (n # names) =
     (case gomap_lookup ec n of
        Some endpoint \<Rightarrow>
          (let (h, ip4) = ec_normalize g ords h (ep_ip4 endpoint);
               (h, ip6) = ec_normalize g ords h (ep_ip6 endpoint);
               (h, endpoints) = ec_endpoints_for g ords h ec names
           in (h, endpoint\<lparr>ep_ip4 := ip4, ep_ip6 := ip6\<rparr> # endpoints))
      | None \<Rightarrow> ec_endpoints_for g ords h ec names)"

section \<open>RRCollector\<close>

record rr_collector =
  discovery_domain :: string
  col_groups :: group_collector
  col_services :: services_collector
  col_endpoints :: endpoint_collector
  col_heap :: "addr store"

definition new_rr_collector :: "string \<Rightarrow> rr_collector" where
  "new_rr_collector domain =
     \<lparr>discovery_domain = domain, col_groups = None, col_services = None, col_endpoints = None,
      col_heap = []\<rparr>"

fun add_rr :: "growth \<Rightarrow> rr_collector \<Rightarrow> rr \<Rightarrow> rr_collector \<times> definition_error option" where
  "add_rr g rrc (TXT hdr txt) =
     (if hdr_name hdr = discovery_domain rrc
      then (let (gc, err) = gc_add_txt (col_groups rrc) txt in (rrc\<lparr>col_groups := gc\<rparr>, err))
      else (rrc, None))"
| "add_rr g rrc (SRV hdr target) =
     (rrc\<lparr>col_services := sc_add (col_services rrc) (hdr_name hdr) target\<rparr>, None)"
| "add_rr g rrc (A hdr addr) =
     (let (h, ec) = ec_add_ip4 g (col_heap rrc) (col_endpoints rrc) (hdr_name hdr) addr
      in (rrc\<lparr>col_heap := h, col_endpoints := ec\<rparr>, None))"
| "add_rr g rrc (AAAA hdr addr) =
     (let (h, ec) = ec_add_ip6 g (col_heap rrc) (col_endpoints rrc) (hdr_name hdr) addr
      in (rrc\<lparr>col_heap := h, col_endpoints := ec\<rparr>, None))"
| "add_rr g rrc (OtherRR hdr) = (rrc, None)"

definition rrc_reset :: "rr_collector \<Rightarrow> rr_collector" where
  "rrc_reset rrc = rrc\<lparr>col_groups := gc_clear (col_groups rrc),
     col_services := sc_clear (col_services rrc), col_endpoints := ec_clear (col_endpoints rrc)\<rparr>"

fun build_loop ::
  "growth \<Rightarrow> map_orders \<Rightarrow> rr_collector \<Rightarrow> addr store \<Rightarrow> slice group list
    \<Rightarrow> addr store \<times> slice group list" where
  "build_loop g ords rrc h [] = (h, [])"
| "build_loop g ords rrc h (grp # grps) =
     (let (h, endpoints) = ec_endpoints_for g ords h (col_endpoints rrc)
            (sc_target_names ords (col_services rrc) (grp_services grp));
          (h, grps) = build_loop g ords rrc h grps
      in (h, grp\<lparr>grp_endpoints := endpoints\<rparr> # grps))"

definition rrc_build :: "growth \<Rightarrow> map_orders \<Rightarrow> rr_collector \<Rightarrow> rr_collector \<times> slice groups" where
  "rrc_build g ords rrc =
     (let gps = gc_new_groups ords (col_groups rrc);
          (h, all) = build_loop g ords rrc (col_heap rrc) (groups_all gps)
      in (rrc_reset (rrc\<lparr>col_heap := h\<rparr>), gps\<lparr>gps_all := all\<rparr>))"

text \<open>What a reader of the finished groups sees: every slice replaced by its elements.\<close>

definition freeze_endpoint :: "addr store \<Rightarrow> slice endpoint \<Rightarrow> addr list endpoint" where
  "freeze_endpoint h e =
     \<lparr>ep_name = ep_name e, ep_ip4 = deref h (ep_ip4 e), ep_ip6 = deref h (ep_ip6 e)\<rparr>"

definition freeze_group :: "addr store \<Rightarrow> slice group \<Rightarrow> addr list group" where
  "freeze_group h g =
     \<lparr>grp_name = grp_name g, grp_services = grp_services g,
      grp_endpoints = map (freeze_endpoint h) (grp_endpoints g)\<rparr>"

definition freeze_groups :: "addr store \<Rightarrow> slice groups \<Rightarrow> addr list groups" where
  "freeze_groups h gps =
     \<lparr>gps_by_name = gps_by_name gps, gps_all = map (freeze_group h) (gps_all gps)\<rparr>"

text \<open>Adding a stream of records stops at the first error.\<close>

fun add_rrs :: "growth \<Rightarrow> rr_collector \<Rightarrow> rr list \<Rightarrow> rr_collector \<times> definition_error option" where
  "add_rrs g rrc [] = (rrc, None)"
| "add_rrs g rrc (rr # rrs) =
     (case add_rr g rrc rr of
        (rrc, Some e) \<Rightarrow> (rrc, Some e)
      | (rrc, None) \<Rightarrow> add_rrs g rrc rrs)"

definition build_from :: "growth \<Rightarrow> map_orders \<Rightarrow> string \<Rightarrow> rr list \<Rightarrow> addr list groups" where
  "build_from g ords domain rrs =
     (let (rrc, gps) = rrc_build g ords (fst (add_rrs g (new_rr_collector domain) rrs))
      in freeze_groups (col_heap rrc) gps)"

end
