(* ===== verification/Collector_Spec.thy ===== *)
theory Collector_Spec
  imports Collectors
begin

text \<open>
  The contract of the collectors. The specification is stated on the stream of records
  alone: which definitions, targets and addresses it mentions. \<open>groups_of\<close> is the result a
  reader of the package expects of \<open>Build\<close>; the collectors implement it for streams that
  do not repeat an address of a host.
\<close>

section \<open>What a stream of records says\<close>

fun txt_defs :: "string \<Rightarrow> rr \<Rightarrow> group_definition list" where
  "txt_defs domain (TXT hdr txt) =
     (if hdr_name hdr = domain then map (\<lambda>t. fst (parse_group_definition t)) txt else [])"
| "txt_defs domain _ = []"

fun srv_targets :: "string \<Rightarrow> rr \<Rightarrow> string list" where
  "srv_targets s (SRV hdr target) = (if hdr_name hdr = s then [target] else [])"
| "srv_targets s _ = []"

text \<open>The addresses of a host; the flag selects the IPv6 family.\<close>

fun host_addrs :: "string \<times> bool \<Rightarrow> rr \<Rightarrow> addr list" where
  "host_addrs (n, v6) (A hdr addr) = (if hdr_name hdr = n \<and> \<not> v6 then [addr] else [])"
| "host_addrs (n, v6) (AAAA hdr addr) = (if hdr_name hdr = n \<and> v6 then [addr] else [])"
| "host_addrs k _ = []"

definition stream_defs :: "string \<Rightarrow> rr list \<Rightarrow> group_definition list" where
  "stream_defs domain rrs = concat (map (txt_defs domain) rrs)"

definition stream_targets :: "rr list \<Rightarrow> string \<Rightarrow> string list" where
  "stream_targets rrs s = concat (map (srv_targets s) rrs)"

definition stream_addrs :: "rr list \<Rightarrow> string \<times> bool \<Rightarrow> addr list" where
  "stream_addrs rrs k = concat (map (host_addrs k) rrs)"

definition defs_services :: "group_definition list \<Rightarrow> string \<Rightarrow> string set" where
  "defs_services ds n = (\<Union>d \<in> {d \<in> set ds. gdef_name d = n}. set (gdef_services d))"

text \<open>The expected groups.\<close>

definition known_host :: "rr list \<Rightarrow> string \<Rightarrow> bool" where
  "known_host rrs n \<longleftrightarrow> stream_addrs rrs (n, False) \<noteq> [] \<or> stream_addrs rrs (n, True) \<noteq> []"

definition endpoint_of :: "rr list \<Rightarrow> string \<Rightarrow> addr list endpoint" where
  "endpoint_of rrs n =
     \<lparr>ep_name = n,
      ep_ip4 = sorted_list_of_set (set (stream_addrs rrs (n, False))),
      ep_ip6 = sorted_list_of_set (set (stream_addrs rrs (n, True)))\<rparr>"

definition group_of :: "string \<Rightarrow> rr list \<Rightarrow> string \<Rightarrow> addr list group" where
  "group_of domain rrs n =
     (let services = defs_services (stream_defs domain rrs) n
      in \<lparr>grp_name = n,
          grp_services = sorted_list_of_set services,
          grp_endpoints = map (endpoint_of rrs) (filter (known_host rrs)
            (sorted_list_of_set (\<Union>s \<in> services. set (stream_targets rrs s))))\<rparr>)"

definition group_names :: "string \<Rightarrow> rr list \<Rightarrow> string list" where
  "group_names domain rrs = sorted_list_of_set (gdef_name ` set (stream_defs domain rrs))"

definition groups_of :: "string \<Rightarrow> rr list \<Rightarrow> addr list groups" where
  "groups_of domain rrs =
     (let names = group_names domain rrs
      in \<lparr>gps_by_name = Some (zip names [0..<length names]),
          gps_all = map (group_of domain rrs) names\<rparr>)"

text \<open>No host repeats an address.\<close>

definition addrs_distinct :: "rr list \<Rightarrow> bool" where
  "addrs_distinct rrs \<longleftrightarrow> (\<forall>k. distinct (stream_addrs rrs k))"

section \<open>The collectors represent the stream\<close>

definition gc_models :: "group_collector \<Rightarrow> group_definition list \<Rightarrow> bool" where
  "gc_models gc ds \<longleftrightarrow> gomap_wf gc \<and>
     (\<forall>n. gomap_lookup gc n =
        (let es = filter (\<lambda>d. gdef_name d = n) ds
         in if es = [] then None
            else Some \<lparr>gdef_name = n, gdef_services = concat (map gdef_services es)\<rparr>))"

definition sc_models :: "services_collector \<Rightarrow> rr list \<Rightarrow> bool" where
  "sc_models sc rrs \<longleftrightarrow> gomap_wf sc \<and>
     (\<forall>s. gomap_lookup sc s =
        (if stream_targets rrs s = [] then None else Some (stream_targets rrs s)))"

definition ec_slot :: "endpoint_collector \<Rightarrow> string \<times> bool \<Rightarrow> slice" where
  "ec_slot ec k =
     (case gomap_lookup ec (fst k) of None \<Rightarrow> NilSlice
      | Some e \<Rightarrow> if snd k then ep_ip6 e else ep_ip4 e)"

definition ec_models :: "addr store \<Rightarrow> endpoint_collector \<Rightarrow> rr list \<Rightarrow> bool" where
  "ec_models h ec rrs \<longleftrightarrow> gomap_wf ec \<and> slot_family h (ec_slot ec) \<and>
     (\<forall>k. deref h (ec_slot ec k) = stream_addrs rrs k) \<and>
     (\<forall>n. case gomap_lookup ec n of None \<Rightarrow> \<not> known_host rrs n
          | Some e \<Rightarrow> ep_name e = n \<and> known_host rrs n)"

definition rrc_models :: "rr_collector \<Rightarrow> rr list \<Rightarrow> bool" where
  "rrc_models rrc rrs \<longleftrightarrow>
     gc_models (col_groups rrc) (stream_defs (discovery_domain rrc) rrs) \<and>
     sc_models (col_services rrc) rrs \<and>
     ec_models (col_heap rrc) (col_endpoints rrc) rrs"

lemma stream_snoc:
  "stream_defs dd (rrs @ [rr]) = stream_defs dd rrs @ txt_defs dd rr"
  "stream_targets (rrs @ [rr]) s = stream_targets rrs s @ srv_targets s rr"
  "stream_addrs (rrs @ [rr]) k = stream_addrs rrs k @ host_addrs k rr"
  by (simp_all add: stream_defs_def stream_targets_def stream_addrs_def)

lemma gc_models_add: "gc_models gc ds \<Longrightarrow> gc_models (gc_add gc d) (ds @ [d])"
proof (cases gc)
  case None
  assume "gc_models gc ds"
  with None have "filter (\<lambda>d. gdef_name d = n) ds = []" for n
    by (simp add: gc_models_def Let_def split: if_splits)
  with None show ?thesis by (auto simp: gc_models_def gc_add_def)
next
  case (Some m)
  assume "gc_models gc ds"
  with Some show ?thesis
    by (auto simp: gc_models_def gc_add_def Let_def update_conv' distinct_update
      zero_group_definition_def split: option.splits if_splits)
qed

lemma gc_models_add_txt:
  "gc_models gc ds \<Longrightarrow> gc_add_txt gc txts = (gc', None) \<Longrightarrow>
     gc_models gc' (ds @ map (\<lambda>t. fst (parse_group_definition t)) txts)"
proof (induction gc txts arbitrary: ds rule: gc_add_txt.induct)
  case (2 gc w ws)
  obtain gdef err where p: "parse_group_definition w = (gdef, err)" by fastforce
  with 2 show ?case
    using gc_models_add [of gc ds gdef] by (cases err) force+
qed simp

lemma sc_models_add:
  "sc_models sc rrs \<Longrightarrow> sc_models (sc_add sc (hdr_name hdr) t) (rrs @ [SRV hdr t])"
  by (cases sc)
    (auto simp: sc_models_def sc_add_def stream_snoc update_conv' distinct_update
      values_append_list_def split: option.splits if_splits)

text \<open>Adding an address updates exactly the slot of its host and family.\<close>

lemma ec_slot_update:
  "ec_slot (Some (AList.update n (e\<lparr>ep_ip4 := s\<rparr>) m)) =
     (\<lambda>k. if fst k = n then if snd k then ep_ip6 e else s else ec_slot (Some m) k)"
  "ec_slot (Some (AList.update n (e\<lparr>ep_ip6 := s\<rparr>) m)) =
     (\<lambda>k. if fst k = n then if snd k then s else ep_ip4 e else ec_slot (Some m) k)"
  by (auto simp: ec_slot_def update_conv' fun_eq_iff)

lemma ec_add_ip4_slot:
  assumes valid: "valid_slice h (ec_slot ec (n, False))"
    and run: "ec_add_ip4 g h ec n a = (h', ec')"
  shows "\<exists>s. ec_slot ec' = (ec_slot ec)((n, False) := s) \<and>
    slice_step h (ec_slot ec (n, False)) h' s \<and> deref h' s = deref h (ec_slot ec (n, False)) @ [a]"
proof (cases ec)
  case None
  obtain h1 s where "slice_literal h [a] = (h1, s)" by fastforce
  with None run slice_literal_step [OF this] show ?thesis
    by (auto simp: ec_add_ip4_def ec_slot_def zero_endpoint_def fun_eq_iff intro!: exI [of _ s])
next
  case (Some m)
  let ?e = "case map_of m n of None \<Rightarrow> zero_endpoint | Some e \<Rightarrow> e"
  have slot: "ec_slot ec (n, False) = ep_ip4 ?e" "ec_slot ec (n, True) = ep_ip6 ?e"
    using Some by (simp_all add: ec_slot_def zero_endpoint_def split: option.split)
  obtain h1 s where add: "values_add g ZeroAddr h (ep_ip4 ?e) [a] = (h1, s)" by fastforce
  with Some run have "h' = h1"
    and ec': "ec' = Some (AList.update n (?e\<lparr>ep_name := n, ep_ip4 := s\<rparr>) m)"
    by (auto simp: ec_add_ip4_def Let_def)
  moreover have "ec_slot ec' = (ec_slot ec)((n, False) := s)"
    using slot Some unfolding ec' by (auto simp: ec_slot_update fun_eq_iff)
  ultimately show ?thesis
    using vadd.app_step [OF _ add] vadd.app_deref [OF _ add] valid slot by auto
qed

lemma ec_add_ip6_slot:
  assumes valid: "valid_slice h (ec_slot ec (n, True))"
    and run: "ec_add_ip6 g h ec n a = (h', ec')"
  shows "\<exists>s. ec_slot ec' = (ec_slot ec)((n, True) := s) \<and>
    slice_step h (ec_slot ec (n, True)) h' s \<and> deref h' s = deref h (ec_slot ec (n, True)) @ [a]"
proof (cases ec)
  case None
  obtain h1 s where "slice_literal h [a] = (h1, s)" by fastforce
  with None run slice_literal_step [OF this] show ?thesis
    by (auto simp: ec_add_ip6_def ec_slot_def zero_endpoint_def fun_eq_iff intro!: exI [of _ s])
next
  case (Some m)
  let ?e = "case map_of m n of None \<Rightarrow> zero_endpoint | Some e \<Rightarrow> e"
  have slot: "ec_slot ec (n, True) = ep_ip6 ?e" "ec_slot ec (n, False) = ep_ip4 ?e"
    using Some by (simp_all add: ec_slot_def zero_endpoint_def split: option.split)
  obtain h1 s where add: "values_add g ZeroAddr h (ep_ip6 ?e) [a] = (h1, s)" by fastforce
  with Some run have "h' = h1"
    and ec': "ec' = Some (AList.update n (?e\<lparr>ep_name := n, ep_ip6 := s\<rparr>) m)"
    by (auto simp: ec_add_ip6_def Let_def)
  moreover have "ec_slot ec' = (ec_slot ec)((n, True) := s)"
    using slot Some unfolding ec' by (auto simp: ec_slot_update fun_eq_iff)
  ultimately show ?thesis
    using vadd.app_step [OF _ add] vadd.app_deref [OF _ add] valid slot by auto
qed

text \<open>The names of the entries after an addition.\<close>

lemma ec_add_lookup:
  assumes "ec_add_ip4 g h ec n a = (h', ec') \<or> ec_add_ip6 g h ec n a = (h', ec')"
  shows "map_option ep_name (gomap_lookup ec' m) =
      (if m = n then Some n else map_option ep_name (gomap_lookup ec m))"
    and "gomap_wf ec \<Longrightarrow> gomap_wf ec'"
  using assms
  by (cases ec; auto simp: ec_add_ip4_def ec_add_ip6_def Let_def update_conv' distinct_update
    split: prod.splits)+

lemma ec_models_alt:
  "ec_models h ec rrs \<longleftrightarrow> gomap_wf ec \<and> slot_family h (ec_slot ec) \<and>
     (\<forall>k. deref h (ec_slot ec k) = stream_addrs rrs k) \<and>
     (\<forall>n. map_option ep_name (gomap_lookup ec n) = (if known_host rrs n then Some n else None))"
proof -
  have "(case x of None \<Rightarrow> \<not> known_host rrs n | Some e \<Rightarrow> ep_name e = n \<and> known_host rrs n) \<longleftrightarrow>
      map_option ep_name x = (if known_host rrs n then Some n else None)" for x :: "slice endpoint option" and n
    by (cases x) auto
  then show ?thesis by (simp add: ec_models_def)
qed

lemma ec_models_slot_add:
  assumes models: "ec_models h ec rrs"
    and names: "\<And>m. map_option ep_name (gomap_lookup ec' m) =
      (if m = n then Some n else map_option ep_name (gomap_lookup ec m))"
    and wf: "gomap_wf ec \<Longrightarrow> gomap_wf ec'"
    and slot: "\<exists>s. ec_slot ec' = (ec_slot ec)((n, b) := s) \<and>
      slice_step h (ec_slot ec (n, b)) h' s \<and> deref h' s = deref h (ec_slot ec (n, b)) @ [a]"
    and rr: "\<And>k. host_addrs k rr = (if k = (n, b) then [a] else [])"
  shows "ec_models h' ec' (rrs @ [rr])"
proof -
  obtain s where s: "ec_slot ec' = (ec_slot ec)((n, b) := s)"
    "slice_step h (ec_slot ec (n, b)) h' s" "deref h' s = deref h (ec_slot ec (n, b)) @ [a]"
    using slot by blast
  from models have fam: "slot_family h (ec_slot ec)" by (simp add: ec_models_def)
  have "known_host (rrs @ [rr]) m \<longleftrightarrow> known_host rrs m \<or> m = n" for m
    by (cases b) (auto simp: known_host_def stream_snoc rr)
  moreover have "deref h' (ec_slot ec' k) = stream_addrs (rrs @ [rr]) k" for k
    using slot_family_step(2) [OF fam s(2), of k] s(1,3) models
    by (cases k) (auto simp: ec_models_def stream_snoc rr)
  ultimately show ?thesis
    using slot_family_step(1) [OF fam s(2)] models wf
    by (simp add: ec_models_alt names s(1))
qed

lemma stream_snoc_other:
  "txt_defs dd rr = [] \<Longrightarrow> stream_defs dd (rrs @ [rr]) = stream_defs dd rrs"
  "(\<And>s. srv_targets s rr = []) \<Longrightarrow> sc_models sc (rrs @ [rr]) = sc_models sc rrs"
  "(\<And>k. host_addrs k rr = []) \<Longrightarrow> ec_models h ec (rrs @ [rr]) = ec_models h ec rrs"
  by (simp_all add: stream_snoc sc_models_def ec_models_def known_host_def cong: option.case_cong)

lemma rrc_models_add_rr:
  assumes models: "rrc_models rrc rrs" and run: "add_rr g rrc rr = (rrc', None)"
  shows "rrc_models rrc' (rrs @ [rr]) \<and> discovery_domain rrc' = discovery_domain rrc"
proof (cases rr)
  case (TXT hdr strings)
  then have other: "\<And>s. srv_targets s rr = []" "\<And>k. host_addrs k rr = []" by auto
  show ?thesis
  proof (cases "hdr_name hdr = discovery_domain rrc")
    case True
    obtain gc err where add: "gc_add_txt (col_groups rrc) strings = (gc, err)" by fastforce
    with run TXT True have res: "rrc' = rrc\<lparr>col_groups := gc\<rparr>" "err = None" by auto
    have "gc_models gc (stream_defs (discovery_domain rrc) rrs @
        map (\<lambda>t. fst (parse_group_definition t)) strings)"
      using models add res(2) by (intro gc_models_add_txt) (simp_all add: rrc_models_def)
    then have "gc_models gc (stream_defs (discovery_domain rrc) (rrs @ [rr]))"
      using TXT True by (simp add: stream_snoc)
    with models res show ?thesis by (simp add: rrc_models_def stream_snoc_other(2,3) other)
  next
    case False
    with run TXT models show ?thesis
      by (auto simp: rrc_models_def stream_snoc_other other)
  qed
next
  case (SRV hdr target)
  then have "\<And>k. host_addrs k rr = []" by auto
  with SRV run models show ?thesis
    by (auto simp: rrc_models_def stream_snoc_other sc_models_add)
next
  case (A hdr a)
  obtain h ec where add: "ec_add_ip4 g (col_heap rrc) (col_endpoints rrc) (hdr_name hdr) a = (h, ec)"
    by fastforce
  have m: "ec_models (col_heap rrc) (col_endpoints rrc) rrs" using models by (simp add: rrc_models_def)
  then have "valid_slice (col_heap rrc) (ec_slot (col_endpoints rrc) (hdr_name hdr, False))"
    by (simp add: ec_models_def slot_family_valid)
  from ec_models_slot_add [OF m _ _ ec_add_ip4_slot [OF this add]]
  have "ec_models h ec (rrs @ [rr])"
    using ec_add_lookup [OF disjI1 [OF add]] A by auto
  with A add run models show ?thesis by (auto simp: rrc_models_def stream_snoc_other)
next
  case (AAAA hdr a)
  obtain h ec where add: "ec_add_ip6 g (col_heap rrc) (col_endpoints rrc) (hdr_name hdr) a = (h, ec)"
    by fastforce
  have m: "ec_models (col_heap rrc) (col_endpoints rrc) rrs" using models by (simp add: rrc_models_def)
  then have "valid_slice (col_heap rrc) (ec_slot (col_endpoints rrc) (hdr_name hdr, True))"
    by (simp add: ec_models_def slot_family_valid)
  from ec_models_slot_add [OF m _ _ ec_add_ip6_slot [OF this add]]
  have "ec_models h ec (rrs @ [rr])"
    using ec_add_lookup [OF disjI2 [OF add]] AAAA by auto
  with AAAA add run models show ?thesis by (auto simp: rrc_models_def stream_snoc_other)
next
  case (OtherRR hdr)
  with run models show ?thesis by (auto simp: rrc_models_def stream_snoc_other)
qed

lemma rrc_models_add_rrs:
  "rrc_models rrc rrs \<Longrightarrow> add_rrs g rrc new = (rrc', None) \<Longrightarrow>
     rrc_models rrc' (rrs @ new) \<and> discovery_domain rrc' = discovery_domain rrc"
proof (induction new arbitrary: rrc rrs)
  case (Cons rr new)
  obtain rrc1 err where add: "add_rr g rrc rr = (rrc1, err)" by fastforce
  with Cons.prems(2) have "err = None" by (cases err) simp_all
  with add rrc_models_add_rr [OF Cons.prems(1)] have
    "rrc_models rrc1 (rrs @ [rr])" "discovery_domain rrc1 = discovery_domain rrc" by auto
  with Cons.IH [of rrc1 "rrs @ [rr]"] Cons.prems(2) add \<open>err = None\<close> show ?case by simp
qed simp

lemma ec_slot_None: "ec_slot None = (\<lambda>_. NilSlice)"
  by (simp add: ec_slot_def fun_eq_iff)

lemma rrc_models_new: "rrc_models (new_rr_collector domain) []"
  by (simp add: rrc_models_def new_rr_collector_def gc_models_def sc_models_def ec_models_def
    stream_defs_def stream_targets_def stream_addrs_def ec_slot_None slot_family_nil known_host_def)

section \<open>Build\<close>

subsection \<open>Groups and services\<close>

interpretation gdcmp: keyed_comparison gdef_name gdef_compare
  by unfold_locales (simp_all add: gdef_compare_def strcmp.cmp_less strcmp.cmp_equal)

definition tidy_def :: "group_definition \<Rightarrow> group_definition" where
  "tidy_def d = d\<lparr>gdef_services := sorted_list_of_set (set (gdef_services d))\<rparr>"

lemma gc_sorted_step_eq:
  "\<exists>dd'. gc_sorted_step ords d (dd, defs) = (dd', defs @ [tidy_def d])"
proof -
  let ?dd = "deduper_add (deduper_clear dd) (gdef_services d)"
  have keys: "set (gomap_keys ?dd) = set (gdef_services d)" "distinct (gomap_keys ?dd)"
    using wf_deduper_add [OF wf_deduper_clear, of dd "gdef_services d"]
    by (simp_all add: gomap_wf_def)
  have "sort_strings (deduper_append_to (ord_services ords) ?dd []) =
      sorted_list_of_set (set (gdef_services d))"
    using sort_eq_sorted_list_of_set [OF distinct_range_keys [OF keys(2), of "ord_services ords"]] keys(1)
    by (simp add: sort_strings_sort deduper_append_to_keys)
  then show ?thesis by (simp add: gc_sorted_step_def Let_def tidy_def_def)
qed

lemma gc_sorted_fold:
  "snd (fold (gc_sorted_step ords) ds (dd, defs)) = defs @ map tidy_def ds"
proof (induction ds arbitrary: dd defs)
  case (Cons d ds)
  then show ?case using gc_sorted_step_eq [of ords d dd defs] by auto
qed simp

lemma gc_models_keys:
  assumes "gc_models gc ds"
  shows "set (gomap_keys gc) = gdef_name ` set ds"
proof (intro set_eqI)
  fix n
  have "n \<in> set (gomap_keys gc) \<longleftrightarrow> gomap_lookup gc n \<noteq> None"
    by (simp add: gomap_lookup_None_iff)
  also have "\<dots> \<longleftrightarrow> filter (\<lambda>d. gdef_name d = n) ds \<noteq> []"
    using assms by (simp add: gc_models_def Let_def)
  finally show "n \<in> set (gomap_keys gc) \<longleftrightarrow> n \<in> gdef_name ` set ds"
    by (auto simp: filter_empty_conv)
qed

lemma tidy_lookup:
  assumes "gc_models gc ds" and "n \<in> gdef_name ` set ds"
  shows "tidy_def (the (gomap_lookup gc n)) =
    \<lparr>gdef_name = n, gdef_services = sorted_list_of_set (defs_services ds n)\<rparr>"
proof -
  let ?es = "filter (\<lambda>d. gdef_name d = n) ds"
  have "?es \<noteq> []" using assms(2) by (auto simp: filter_empty_conv)
  then have "gomap_lookup gc n =
      Some \<lparr>gdef_name = n, gdef_services = concat (map gdef_services ?es)\<rparr>"
    using assms(1) by (simp add: gc_models_def Let_def)
  moreover have "set (concat (map gdef_services ?es)) = defs_services ds n"
    by (auto simp: defs_services_def)
  ultimately show ?thesis by (simp add: tidy_def_def)
qed

lemma gc_sorted_eq:
  assumes models: "gc_models gc ds"
  shows "gc_sorted ords gc =
    map (\<lambda>n. \<lparr>gdef_name = n, gdef_services = sorted_list_of_set (defs_services ds n)\<rparr>)
      (sorted_list_of_set (gdef_name ` set ds))"
proof (cases "gomap_keys gc = []")
  case True
  then show ?thesis
    using gc_models_keys [OF models] by (simp add: gc_sorted_def gomap_len_def)
next
  case False
  let ?F = "\<lambda>n. \<lparr>gdef_name = n, gdef_services = sorted_list_of_set (defs_services ds n)\<rparr>"
  let ?keys = "range_keys (ord_groups ords) (gomap_keys gc)"
  let ?names = "sorted_list_of_set (gdef_name ` set ds)"
  have keys: "set ?keys = gdef_name ` set ds" "distinct ?keys"
    using gc_models_keys [OF models] models by (simp_all add: gc_models_def gomap_wf_def)
  have tidy: "map (\<lambda>k. tidy_def (the (gomap_lookup gc k))) ?keys = map ?F ?keys"
    using tidy_lookup [OF models] keys(1) by (intro map_cong) simp_all
  have "gc_sorted ords gc =
      sort_func gdef_compare (map (\<lambda>k. tidy_def (the (gomap_lookup gc k))) ?keys)"
    using False by (simp add: gc_sorted_def gomap_len_def gc_sorted_fold comp_def)
  also have "\<dots> = sort_func gdef_compare (map ?F ?keys)"
    by (simp only: tidy)
  also have "\<dots> = map ?F ?names"
  proof (rule gdcmp.sort_func_unique [symmetric])
    show "distinct (map gdef_name (map ?F ?keys))"
      using keys(2) by (simp add: comp_def)
    have "mset ?names = mset ?keys"
      using keys by (intro set_eq_iff_mset_eq_distinct [THEN iffD1]) simp_all
    then show "mset (map ?F ?names) = mset (map ?F ?keys)" by simp
    show "sorted_wrt (\<lambda>a b. gdef_compare a b \<le> 0) (map ?F ?names)"
      by (simp add: gdcmp.cmp_le sorted_wrt_map)
  qed
  finally show ?thesis .
qed

lemma by_name_fold:
  assumes "distinct (map grp_name gs)" and "set (map fst m) \<inter> grp_name ` set gs = {}"
  shows "fold (\<lambda>(i, g) m. AList.update (grp_name g) i m) (enumerate k gs) m =
    m @ zip (map grp_name gs) [k..<k + length gs]"
  using assms
proof (induction gs arbitrary: k m)
  case (Cons g gs)
  have fresh: "grp_name g \<notin> set (map fst m)" using Cons.prems(2) by auto
  then have upd: "AList.update (grp_name g) k m = m @ [(grp_name g, k)]"
    by (induction m) auto
  have "[k..<k + length (g # gs)] = k # [Suc k..<Suc k + length gs]"
    by (simp add: upt_rec)
  with Cons upd show ?case by (auto simp: Cons.IH)
qed simp

lemma gc_new_groups_eq:
  assumes "gc_models gc (stream_defs domain rrs)"
  shows "gc_new_groups ords gc =
    \<lparr>gps_by_name = gps_by_name (groups_of domain rrs),
     gps_all = map (\<lambda>n. \<lparr>grp_name = n, grp_services =
       sorted_list_of_set (defs_services (stream_defs domain rrs) n), grp_endpoints = []\<rparr>)
       (group_names domain rrs)\<rparr>"
  using gc_sorted_eq [OF assms, of ords]
  by (simp add: gc_new_groups_def Let_def groups_of_def group_names_def by_name_fold comp_def)

lemma sc_target_names_eq:
  assumes "sc_models sc rrs"
  shows "sc_target_names ords sc services =
    sorted_list_of_set (\<Union>s \<in> set services. set (stream_targets rrs s))"
proof -
  have "(case gomap_lookup sc s of None \<Rightarrow> [] | Some vs \<Rightarrow> vs) = stream_targets rrs s" for s
    using assms by (simp add: sc_models_def)
  then show ?thesis
    by (simp add: sc_target_names_def deduper_sort_func_def sdd.sort_slice_fold)
qed

subsection \<open>Endpoints\<close>

text \<open>
  While the groups are built the slices of the map entries stay where they are; their arrays
  are sorted in place. \<open>P\<close> is the set of slots sorted so far.
\<close>

definition build_inv ::
  "(string \<times> bool \<Rightarrow> slice) \<Rightarrow> rr list \<Rightarrow> (string \<times> bool) set \<Rightarrow> addr store \<Rightarrow> bool" where
  "build_inv f rrs P h \<longleftrightarrow> slot_family h f \<and>
     (\<forall>k. mset (deref h (f k)) = mset (stream_addrs rrs k)) \<and>
     (\<forall>k \<in> P. deref h (f k) = sorted_list_of_set (set (stream_addrs rrs k)))"

lemma values_dedupe_distinct:
  "valid_slice h s \<Longrightarrow> distinct (deref h s) \<Longrightarrow> values_dedupe g z ord h s = (h, s)"
  by (simp add: values_dedupe_def Let_def deduper_len_card distinct_card length_deref)

lemma ec_normalize_inv:
  assumes inv: "build_inv f rrs P h" and dist: "distinct (stream_addrs rrs k)"
  shows "\<exists>h'. ec_normalize g ords h (f k) = (h', f k) \<and> build_inv f rrs (insert k P) h'"
proof (intro exI conjI)
  let ?h' = "values_sort_func compare_addrs h (f k)"
  have fam: "slot_family h f" using inv by (simp add: build_inv_def)
  have content: "mset (deref h (f j)) = mset (stream_addrs rrs j)" for j
    using inv unfolding build_inv_def by blast
  have valid: "valid_slice h (f k)" using fam by (rule slot_family_valid)
  have d: "distinct (deref h (f k))" using mset_eq_imp_distinct_iff [OF content] dist by simp
  show "ec_normalize g ords h (f k) = (?h', f k)"
    by (simp add: ec_normalize_def values_dedupe_distinct [OF valid d])
  note spec = values_sort_func_spec [OF valid, of compare_addrs]
  have sorted: "deref ?h' (f k) = sorted_list_of_set (set (stream_addrs rrs k))"
    using addrcmp.sort_func_sorted_list_of_set [OF d] mset_eq_setD [OF content] spec(1) by simp
  have fam': "slot_family ?h' f"
    using slot_family_step(1) [OF fam spec(2)] by simp
  have other: "deref ?h' (f j) = (if j = k then deref ?h' (f k) else deref h (f j))" for j
    using slot_family_step(2) [OF fam spec(2), of j] by simp
  have "mset (deref ?h' (f j)) = mset (stream_addrs rrs j)" for j
    using content [of j] spec(1) other [of j] by (cases "j = k") auto
  moreover have "deref ?h' (f j) = sorted_list_of_set (set (stream_addrs rrs j))"
    if "j \<in> insert k P" for j
    using that inv sorted other [of j] unfolding build_inv_def by (cases "j = k") auto
  ultimately show "build_inv f rrs (insert k P) ?h'"
    using fam' unfolding build_inv_def by blast
qed

text \<open>The entries of the named hosts, and the slots they use.\<close>

definition entries :: "endpoint_collector \<Rightarrow> string list \<Rightarrow> slice endpoint list" where
  "entries ec names = List.map_filter (gomap_lookup ec) names"

definition entry_slots :: "endpoint_collector \<Rightarrow> string set \<Rightarrow> (string \<times> bool) set" where
  "entry_slots ec N = {k. fst k \<in> N \<and> gomap_lookup ec (fst k) \<noteq> None}"

lemma entries_simps [simp]:
  "entries ec [] = []"
  "gomap_lookup ec n = None \<Longrightarrow> entries ec (n # ns) = entries ec ns"
  "gomap_lookup ec n = Some e \<Longrightarrow> entries ec (n # ns) = e # entries ec ns"
  by (simp_all add: entries_def List.map_filter_simps)

lemma entry_slots_simps:
  "entry_slots ec {} = {}"
  "gomap_lookup ec n = None \<Longrightarrow> entry_slots ec (insert n N) = entry_slots ec N"
  "gomap_lookup ec n = Some e \<Longrightarrow>
     entry_slots ec (insert n N) = insert (n, True) (insert (n, False) (entry_slots ec N))"
  "entry_slots ec (N \<union> M) = entry_slots ec N \<union> entry_slots ec M"
  by (auto simp: entry_slots_def)

lemma ec_endpoints_for_inv:
  assumes "build_inv (ec_slot ec) rrs P h" and dist: "addrs_distinct rrs"
  shows "\<exists>h'. ec_endpoints_for g ords h ec names = (h', entries ec names) \<and>
    build_inv (ec_slot ec) rrs (P \<union> entry_slots ec (set names)) h'"
  using assms(1)
proof (induction names arbitrary: P h)
  case Nil
  then show ?case by (simp add: entry_slots_simps)
next
  case (Cons n names)
  show ?case
  proof (cases "gomap_lookup ec n")
    case None
    with Cons show ?thesis by (simp add: entry_slots_simps)
  next
    case (Some e)
    have slots: "ec_slot ec (n, False) = ep_ip4 e" "ec_slot ec (n, True) = ep_ip6 e"
      using Some by (simp_all add: ec_slot_def)
    have d: "distinct (stream_addrs rrs k)" for k using dist unfolding addrs_distinct_def by (rule spec)
    obtain h1 where h1: "ec_normalize g ords h (ep_ip4 e) = (h1, ep_ip4 e)"
      "build_inv (ec_slot ec) rrs (insert (n, False) P) h1"
      using ec_normalize_inv [where k = "(n, False)", OF Cons.prems d] slots by auto
    obtain h2 where h2: "ec_normalize g ords h1 (ep_ip6 e) = (h2, ep_ip6 e)"
      "build_inv (ec_slot ec) rrs (insert (n, True) (insert (n, False) P)) h2"
      using ec_normalize_inv [where k = "(n, True)", OF h1(2) d] slots by auto
    obtain h3 where h3: "ec_endpoints_for g ords h2 ec names = (h3, entries ec names)"
      "build_inv (ec_slot ec) rrs
        (insert (n, True) (insert (n, False) P) \<union> entry_slots ec (set names)) h3"
      using Cons.IH [OF h2(2)] by blast
    from Some h1(1) h2(1) h3 show ?thesis by (simp add: entry_slots_simps)
  qed
qed

definition targets_of :: "rr list \<Rightarrow> 'v group \<Rightarrow> string set" where
  "targets_of rrs grp = (\<Union>s \<in> set (grp_services grp). set (stream_targets rrs s))"

lemma finite_targets_of [simp]: "finite (targets_of rrs grp)"
  by (simp add: targets_of_def)

definition with_entries :: "endpoint_collector \<Rightarrow> rr list \<Rightarrow> slice group \<Rightarrow> slice group" where
  "with_entries ec rrs grp =
     grp\<lparr>grp_endpoints := entries ec (sorted_list_of_set (targets_of rrs grp))\<rparr>"

lemma build_loop_inv:
  assumes "build_inv (ec_slot (col_endpoints rrc)) rrs P h" and "addrs_distinct rrs"
    and "sc_models (col_services rrc) rrs"
  shows "\<exists>h'. build_loop g ords rrc h grps = (h', map (with_entries (col_endpoints rrc) rrs) grps) \<and>
    build_inv (ec_slot (col_endpoints rrc)) rrs
      (P \<union> entry_slots (col_endpoints rrc) (\<Union>grp \<in> set grps. targets_of rrs grp)) h'"
  using assms(1)
proof (induction grps arbitrary: P h)
  case Nil
  then show ?case by (simp add: entry_slots_simps)
next
  case (Cons grp grps)
  let ?ec = "col_endpoints rrc" and ?ts = "sorted_list_of_set (targets_of rrs grp)"
  have ts: "sc_target_names ords (col_services rrc) (grp_services grp) = ?ts"
    by (simp add: sc_target_names_eq [OF assms(3)] targets_of_def)
  obtain h1 where h1: "ec_endpoints_for g ords h ?ec ?ts = (h1, entries ?ec ?ts)"
    "build_inv (ec_slot ?ec) rrs (P \<union> entry_slots ?ec (targets_of rrs grp)) h1"
    using ec_endpoints_for_inv [OF Cons.prems assms(2), of g ords ?ts] by auto
  obtain h2 where h2: "build_loop g ords rrc h1 grps = (h2, map (with_entries ?ec rrs) grps)"
    "build_inv (ec_slot ?ec) rrs (P \<union> entry_slots ?ec (targets_of rrs grp) \<union>
      entry_slots ?ec (\<Union>grp \<in> set grps. targets_of rrs grp)) h2"
    using Cons.IH [OF h1(2)] by blast
  from h1(1) h2 show ?case
    by (simp add: ts with_entries_def entry_slots_simps Un_assoc)
qed

text \<open>What the entries show once the slots are sorted.\<close>

lemma freeze_entries:
  assumes models: "ec_models h0 ec rrs" and inv: "build_inv (ec_slot ec) rrs P h"
    and P: "entry_slots ec (set names) \<subseteq> P"
  shows "map (freeze_endpoint h) (entries ec names) = map (endpoint_of rrs) (filter (known_host rrs) names)"
  using P
proof (induction names)
  case (Cons n names)
  note look = models [unfolded ec_models_alt, THEN conjunct2, THEN conjunct2, THEN conjunct2,
    rule_format, of n]
  show ?case
  proof (cases "gomap_lookup ec n")
    case None
    with look have "\<not> known_host rrs n" by (simp split: if_splits)
    with None Cons show ?thesis by (simp add: entry_slots_simps)
  next
    case (Some e)
    with look have e: "known_host rrs n" "ep_name e = n" by (simp_all split: if_splits)
    have "ec_slot ec (n, False) = ep_ip4 e" "ec_slot ec (n, True) = ep_ip6 e"
      using Some by (simp_all add: ec_slot_def)
    moreover have "(n, False) \<in> P" "(n, True) \<in> P"
      using Cons.prems Some by (simp_all add: entry_slots_simps)
    ultimately have "freeze_endpoint h e = endpoint_of rrs n"
      using inv e(2) by (auto simp: build_inv_def freeze_endpoint_def endpoint_of_def)
    with Some e Cons show ?thesis by (simp add: entry_slots_simps)
  qed
qed simp

subsection \<open>Refinement\<close>

lemma finite_defs_services [simp]: "finite (defs_services ds n)"
  by (simp add: defs_services_def)

lemma freeze_with_entries:
  assumes "ec_models h0 ec rrs" and "build_inv (ec_slot ec) rrs P h"
    and "entry_slots ec (targets_of rrs grp) \<subseteq> P"
    and "grp_services grp = sorted_list_of_set (defs_services (stream_defs domain rrs) (grp_name grp))"
  shows "freeze_group h (with_entries ec rrs grp) = group_of domain rrs (grp_name grp)"
  using freeze_entries [OF assms(1,2), of "sorted_list_of_set (targets_of rrs grp)"] assms(3,4)
  by (simp add: freeze_group_def with_entries_def group_of_def Let_def targets_of_def)

lemma rrc_build_spec:
  assumes models: "rrc_models rrc rrs" and dist: "addrs_distinct rrs"
    and run: "rrc_build g ords rrc = (rrc', gps)"
  shows "freeze_groups (col_heap rrc') gps = groups_of (discovery_domain rrc) rrs"
proof -
  let ?domain = "discovery_domain rrc" and ?ec = "col_endpoints rrc"
  let ?empty = "\<lambda>n. \<lparr>grp_name = n, grp_services =
    sorted_list_of_set (defs_services (stream_defs ?domain rrs) n), grp_endpoints = []\<rparr> :: slice group"
  define grps where "grps = map ?empty (group_names ?domain rrs)"
  from models have gc: "gc_models (col_groups rrc) (stream_defs ?domain rrs)"
    and sc: "sc_models (col_services rrc) rrs" and ec: "ec_models (col_heap rrc) ?ec rrs"
    by (simp_all add: rrc_models_def)
  have new: "gc_new_groups ords (col_groups rrc) =
      \<lparr>gps_by_name = gps_by_name (groups_of ?domain rrs), gps_all = grps\<rparr>"
    by (simp add: gc_new_groups_eq [OF gc] grps_def)
  have "build_inv (ec_slot ?ec) rrs {} (col_heap rrc)"
    using ec unfolding ec_models_def build_inv_def by auto
  from build_loop_inv [OF this dist sc, of g ords grps] obtain h where
    loop: "build_loop g ords rrc (col_heap rrc) grps = (h, map (with_entries ?ec rrs) grps)"
    and inv: "build_inv (ec_slot ?ec) rrs (entry_slots ?ec (\<Union>grp \<in> set grps. targets_of rrs grp)) h"
    by auto
  have "freeze_group h (with_entries ?ec rrs grp) = group_of ?domain rrs (grp_name grp)"
    if "grp \<in> set grps" for grp
    using that by (intro freeze_with_entries [OF ec inv]) (auto simp: entry_slots_def grps_def)
  then have "map (freeze_group h) (map (with_entries ?ec rrs) grps) =
      map (group_of ?domain rrs) (map grp_name grps)"
    by simp
  also have "map grp_name grps = group_names ?domain rrs"
    by (simp add: grps_def comp_def)
  finally have all: "map (freeze_group h) (map (with_entries ?ec rrs) grps) =
      map (group_of ?domain rrs) (group_names ?domain rrs)" .
  have "rrc' = rrc_reset (rrc\<lparr>col_heap := h\<rparr>)"
    and "gps = \<lparr>gps_by_name = gps_by_name (groups_of ?domain rrs),
      gps_all = map (with_entries ?ec rrs) grps\<rparr>"
    using run by (simp_all add: rrc_build_def Let_def new loop)
  then show ?thesis
    using all by (simp add: freeze_groups_def rrc_reset_def groups_of_def Let_def)
qed

text \<open>Afterwards the collector is empty, whatever was in it.\<close>

lemma ec_slot_clear: "ec_slot (gomap_clear ec) = (\<lambda>_. NilSlice)"
  by (simp add: ec_slot_def fun_eq_iff)

lemma rrc_models_reset: "rrc_models (rrc_reset rrc) []"
  by (simp add: rrc_models_def rrc_reset_def gc_models_def sc_models_def ec_models_def
    gc_clear_def sc_clear_def ec_clear_def stream_defs_def stream_targets_def stream_addrs_def
    gomap_wf_def ec_slot_clear slot_family_nil known_host_def)

lemma rrc_build_reset:
  assumes "rrc_build g ords rrc = (rrc', gps)"
  shows "\<exists>h. rrc' = rrc_reset (rrc\<lparr>col_heap := h\<rparr>)"
  using assms by (auto simp: rrc_build_def Let_def split: prod.splits)

lemma groups_of_wf: "groups_wf (groups_of domain rrs)"
  by (simp add: groups_wf_def groups_of_def Let_def group_of_def comp_def group_names_def)

section \<open>Errors\<close>

text \<open>The texts of the discovery domain, in stream order.\<close>

fun rr_texts :: "string \<Rightarrow> rr \<Rightarrow> string list" where
  "rr_texts domain (TXT hdr texts) = (if hdr_name hdr = domain then texts else [])"
| "rr_texts domain _ = []"

definition stream_texts :: "string \<Rightarrow> rr list \<Rightarrow> string list" where
  "stream_texts domain rrs = concat (map (rr_texts domain) rrs)"

definition first_error :: "string list \<Rightarrow> definition_error option" where
  "first_error texts =
     (case find (\<lambda>t. snd (parse_group_definition t) \<noteq> None) texts of
        None \<Rightarrow> None | Some t \<Rightarrow> snd (parse_group_definition t))"

lemma first_error_simps [simp]:
  "first_error [] = None"
  "first_error (t # ts) =
     (case snd (parse_group_definition t) of None \<Rightarrow> first_error ts | Some e \<Rightarrow> Some e)"
  by (auto simp: first_error_def split: option.split)

lemma first_error_append:
  "first_error (ts @ us) = (case first_error ts of None \<Rightarrow> first_error us | Some e \<Rightarrow> Some e)"
  by (induction ts) (auto split: option.split)

lemma first_error_None: "first_error ts = None \<longleftrightarrow> (\<forall>t \<in> set ts. snd (parse_group_definition t) = None)"
  by (induction ts) (auto split: option.split)

lemma gc_add_txt_error: "snd (gc_add_txt gc ts) = first_error ts"
  by (induction gc ts rule: gc_add_txt.induct) (auto split: option.split prod.split)

lemma add_rr_error: "snd (add_rr g rrc rr) = first_error (rr_texts (discovery_domain rrc) rr)"
  using gc_add_txt_error
  by (cases rr) (auto simp: split: prod.split, metis snd_conv)

lemma add_rr_domain: "discovery_domain (fst (add_rr g rrc rr)) = discovery_domain rrc"
  by (cases rr) (auto split: prod.split)

lemma add_rrs_error: "snd (add_rrs g rrc rrs) = first_error (stream_texts (discovery_domain rrc) rrs)"
proof (induction rrs arbitrary: rrc)
  case (Cons rr rrs)
  obtain rrc' err where add: "add_rr g rrc rr = (rrc', err)" by fastforce
  then have "err = first_error (rr_texts (discovery_domain rrc) rr)"
    and "discovery_domain rrc' = discovery_domain rrc"
    using add_rr_error [of g rrc rr] add_rr_domain [of g rrc rr] by simp_all
  with add Cons.IH [of rrc'] show ?case
    by (cases err) (simp_all add: stream_texts_def first_error_append split: option.split)
qed (simp add: stream_texts_def)

section \<open>The collectors always hold a stream's definitions\<close>

lemma gc_models_add_txt_ex: "\<exists>ds'. gc_models gc ds \<longrightarrow> gc_models (fst (gc_add_txt gc ts)) ds'"
proof (induction gc ts arbitrary: ds rule: gc_add_txt.induct)
  case (2 gc t ts)
  obtain gdef err where p: "parse_group_definition t = (gdef, err)" by fastforce
  show ?case
  proof (cases err)
    case None
    then show ?thesis using 2 [OF p [symmetric] refl None, of "ds @ [gdef]"] gc_models_add [of gc ds gdef] p
      by auto
  qed (use p in auto)
qed auto

lemma add_rrs_gc_models:
  "\<exists>ds. gc_models (col_groups rrc) ds \<Longrightarrow> \<exists>ds. gc_models (col_groups (fst (add_rrs g rrc rrs))) ds"
proof (induction rrs arbitrary: rrc)
  case (Cons rr rrs)
  obtain rrc' err where add: "add_rr g rrc rr = (rrc', err)" by fastforce
  have "\<exists>ds. gc_models (col_groups rrc') ds"
    using Cons.prems add gc_models_add_txt_ex [of "col_groups rrc"]
    by (cases rr) (auto split: if_splits prod.splits, metis fst_conv)
  with Cons.IH add show ?case by (cases err) auto
qed simp

lemma build_loop_names:
  "map grp_name (snd (build_loop g ords rrc h grps)) = map grp_name grps"
  by (induction g ords rrc h grps rule: build_loop.induct) (auto split: prod.split)

lemma gc_new_groups_wf:
  assumes "gc_models gc ds"
  shows "groups_wf (gc_new_groups ords gc)" and "sorted (map grp_name (gps_all (gc_new_groups ords gc)))"
  using gc_sorted_eq [OF assms, of ords]
  by (simp_all add: gc_new_groups_def Let_def groups_wf_def by_name_fold comp_def)

lemma groups_wf_names:
  assumes "groups_wf gps" and "map grp_name all' = map grp_name (gps_all gps)"
  shows "groups_wf \<lparr>gps_by_name = gps_by_name gps, gps_all = all'\<rparr>"
  using assms map_eq_imp_length_eq [OF assms(2)] by (simp add: groups_wf_def)

lemma rrc_build_wf:
  assumes "gc_models (col_groups rrc) ds" and "rrc_build g ords rrc = (rrc', gps)"
  shows "groups_wf (freeze_groups h gps)" and "sorted (map grp_name (gps_all (freeze_groups h gps)))"
proof -
  let ?new = "gc_new_groups ords (col_groups rrc) :: slice groups"
  obtain h' all' where loop: "build_loop g ords rrc (col_heap rrc) (gps_all ?new) = (h', all')"
    by fastforce
  with assms(2) have gps: "gps = ?new\<lparr>gps_all := all'\<rparr>" by (simp add: rrc_build_def Let_def)
  have names: "map grp_name (map (freeze_group h) all') = map grp_name (gps_all ?new)"
    using build_loop_names [of g ords rrc "col_heap rrc" "gps_all ?new"] loop
    by (simp add: freeze_group_def comp_def)
  show "groups_wf (freeze_groups h gps)"
    using gc_new_groups_wf(1) [OF assms(1), of ords] names map_eq_imp_length_eq [OF names]
    by (simp add: groups_wf_def freeze_groups_def gps)
  show "sorted (map grp_name (gps_all (freeze_groups h gps)))"
    using gc_new_groups_wf(2) [OF assms(1), of ords] names
    by (simp add: freeze_groups_def gps del: map_map)
qed

end
