(* ===== verification/Collector_Properties.thy ===== *)
theory Collector_Properties
  imports Collector_Spec
begin

text \<open>
  The properties of the collectors: what \<open>Build\<close> returns, for which streams, and that groups
  once built are never changed by later use of the collector.
\<close>

section \<open>Groups that were built stay as they are\<close>

text \<open>
  \<open>n\<close> is the number of arrays allocated when the groups were built. The collector owns only
  arrays from \<open>n\<close> on, and the groups show only arrays below \<open>n\<close>.
\<close>

definition owns_from :: "nat \<Rightarrow> addr store \<Rightarrow> endpoint_collector \<Rightarrow> bool" where
  "owns_from n h ec \<longleftrightarrow> slot_family h (ec_slot ec) \<and> n \<le> length h \<and>
     (\<forall>k b. slice_array (ec_slot ec k) = Some b \<longrightarrow> n \<le> b)"

definition same_below :: "nat \<Rightarrow> 'v store \<Rightarrow> 'v store \<Rightarrow> bool" where
  "same_below n h h' \<longleftrightarrow> length h \<le> length h' \<and> (\<forall>b < n. h' ! b = h ! b)"

lemma same_below_refl: "same_below n h h"
  by (simp add: same_below_def)

lemma same_below_trans: "same_below n h h1 \<Longrightarrow> same_below n h1 h2 \<Longrightarrow> same_below n h h2"
  by (auto simp: same_below_def)

lemma owns_from_step:
  assumes owns: "owns_from n h ec"
    and slot: "\<exists>s. ec_slot ec' = (ec_slot ec)(k := s) \<and> slice_step h (ec_slot ec k) h' s \<and> P s"
  shows "owns_from n h' ec'" and "same_below n h h'"
proof -
  obtain s where s: "ec_slot ec' = (ec_slot ec)(k := s)" "slice_step h (ec_slot ec k) h' s"
    using slot by blast
  have fam: "slot_family h (ec_slot ec)" and n: "n \<le> length h"
    and own: "\<And>j b. slice_array (ec_slot ec j) = Some b \<Longrightarrow> n \<le> b"
    using owns unfolding owns_from_def by blast+
  have "slot_family h' (ec_slot ec')"
    using slot_family_step(1) [OF fam s(2)] s(1) by simp
  moreover have "n \<le> b" if "slice_array (ec_slot ec' j) = Some b" for j b
    using that own [of j b] own [of k b] s n by (cases "j = k") (auto simp: slice_step_def)
  ultimately show "owns_from n h' ec'"
    using n s(2) by (auto simp: owns_from_def slice_step_def)
  have "h' ! b = h ! b" if "b < n" for b
  proof -
    have "slice_array (ec_slot ec k) \<noteq> Some b" using own [of k b] that by auto
    with s(2) n that show ?thesis by (simp add: slice_step_def)
  qed
  then show "same_below n h h'"
    using s(2) by (simp add: same_below_def slice_step_def)
qed

lemma add_rr_frame:
  assumes owns: "owns_from n (col_heap rrc) (col_endpoints rrc)" and run: "add_rr g rrc rr = (rrc', err)"
  shows "owns_from n (col_heap rrc') (col_endpoints rrc') \<and> same_below n (col_heap rrc) (col_heap rrc')"
proof -
  have valid: "valid_slice (col_heap rrc) (ec_slot (col_endpoints rrc) k)" for k
    using owns by (simp add: owns_from_def slot_family_valid)
  show ?thesis
  proof (cases rr)
    case (A hdr a)
    obtain h ec where add: "ec_add_ip4 g (col_heap rrc) (col_endpoints rrc) (hdr_name hdr) a = (h, ec)"
      by fastforce
    with owns_from_step [OF owns ec_add_ip4_slot [OF valid add]] A run show ?thesis by auto
  next
    case (AAAA hdr a)
    obtain h ec where add: "ec_add_ip6 g (col_heap rrc) (col_endpoints rrc) (hdr_name hdr) a = (h, ec)"
      by fastforce
    with owns_from_step [OF owns ec_add_ip6_slot [OF valid add]] AAAA run show ?thesis by auto
  qed (use owns run in \<open>auto simp: same_below_refl split: if_splits prod.splits\<close>)
qed

lemma add_rrs_frame:
  "owns_from n (col_heap rrc) (col_endpoints rrc) \<Longrightarrow>
     owns_from n (col_heap (fst (add_rrs g rrc rrs))) (col_endpoints (fst (add_rrs g rrc rrs))) \<and>
     same_below n (col_heap rrc) (col_heap (fst (add_rrs g rrc rrs)))"
proof (induction rrs arbitrary: rrc)
  case (Cons rr rrs)
  obtain rrc' err where add: "add_rr g rrc rr = (rrc', err)" by fastforce
  from add_rr_frame [OF Cons.prems this] Cons.IH [of rrc'] add show ?case
    by (cases err) (auto intro: same_below_trans)
qed (simp add: same_below_refl)

lemma owns_from_reset:
  "owns_from (length (col_heap rrc)) (col_heap (rrc_reset rrc)) (col_endpoints (rrc_reset rrc))"
  by (simp add: owns_from_def rrc_reset_def ec_clear_def ec_slot_clear slot_family_nil)

text \<open>The slices of the groups lie below the number of arrays.\<close>

definition slices_below :: "nat \<Rightarrow> slice endpoint list \<Rightarrow> bool" where
  "slices_below n es \<longleftrightarrow> (\<forall>e \<in> set es. \<forall>s \<in> {ep_ip4 e, ep_ip6 e}. \<forall>b. slice_array s = Some b \<longrightarrow> b < n)"

lemma slices_below_freeze:
  assumes "same_below n h h'" and "n \<le> length h" and "slices_below n es"
  shows "map (freeze_endpoint h') es = map (freeze_endpoint h) es"
proof -
  have "deref h' s = deref h s" if "\<forall>b. slice_array s = Some b \<longrightarrow> b < n" for s
    using that assms(1,2) by (cases s) (auto simp: deref_def same_below_def)
  with assms(3) show ?thesis by (auto simp: slices_below_def freeze_endpoint_def)
qed

text \<open>Every operation allocates the array of the slice it returns, or keeps it.\<close>

definition slice_below :: "'v store \<Rightarrow> slice \<Rightarrow> bool" where
  "slice_below h s \<longleftrightarrow> (\<forall>b. slice_array s = Some b \<longrightarrow> b < length h)"

definition grows :: "'v store \<Rightarrow> slice \<Rightarrow> 'v store \<Rightarrow> slice \<Rightarrow> bool" where
  "grows h s h' s' \<longleftrightarrow> length h \<le> length h' \<and> (slice_below h s \<longrightarrow> slice_below h' s')"

lemma grows_refl: "grows h s h s"
  by (simp add: grows_def)

lemma grows_trans: "grows h s h1 s1 \<Longrightarrow> grows h1 s1 h2 s2 \<Longrightarrow> grows h s h2 s2"
  by (auto simp: grows_def)

lemma length_slice_write [simp]: "length (slice_write h s xs) = length h"
  by (cases s) simp_all

lemma slice_ops_grow:
  "slice_append g z h s vs = (h', s') \<Longrightarrow> grows h s h' s'"
  "slice_grow g z h s n = (h', s') \<Longrightarrow> grows h s h' s'"
  "slice_delete z h s i j = (h', s') \<Longrightarrow> grows h s h' s'"
  by (auto simp: slice_append_def slice_grow_def slice_delete_def slice_alloc_def grows_def
    slice_below_def Let_def split: if_splits slice.splits)

lemma fold_append_grows:
  "fold (\<lambda>v (h, s). slice_append g z h s [v]) vs (h, s) = (h', s') \<Longrightarrow> grows h s h' s'"
proof (induction vs arbitrary: h s)
  case (Cons v vs)
  obtain h1 s1 where app: "slice_append g z h s [v] = (h1, s1)" by fastforce
  with Cons show ?case using slice_ops_grow(1) [OF app] by (auto intro: grows_trans)
qed (simp add: grows_refl)

lemma values_dedupe_grows:
  assumes "values_dedupe g z ord h s = (h', s')"
  shows "grows h s h' s'"
proof -
  let ?d = "deduper_add None (deref h s)"
  obtain h1 s1 where del: "slice_delete z h s (deduper_len ?d) (slice_len s) = (h1, s1)" by fastforce
  obtain h2 s2 where grow: "slice_grow g z h1 s1 (deduper_len ?d) = (h2, s2)" by fastforce
  show ?thesis
    using assms del grow slice_ops_grow(3) [OF del] slice_ops_grow(2) [OF grow]
    by (auto simp: values_dedupe_def deduper_append_to_slice_def Let_def grows_refl
      split: if_splits dest!: fold_append_grows intro: grows_trans)
qed

lemma ec_normalize_grows:
  "ec_normalize g ords h s = (h', s') \<Longrightarrow> grows h s h' s'"
  by (auto simp: ec_normalize_def values_sort_func_def slice_sort_def grows_def slice_below_def
    split: prod.splits dest!: values_dedupe_grows)

definition ec_below :: "addr store \<Rightarrow> endpoint_collector \<Rightarrow> bool" where
  "ec_below h ec \<longleftrightarrow> (\<forall>n e. gomap_lookup ec n = Some e \<longrightarrow>
     slice_below h (ep_ip4 e) \<and> slice_below h (ep_ip6 e))"

lemma below_mono: "slice_below h s \<Longrightarrow> length h \<le> length h' \<Longrightarrow> slice_below h' s"
  by (auto simp: slice_below_def)

lemma ec_below_mono: "ec_below h ec \<Longrightarrow> length h \<le> length h' \<Longrightarrow> ec_below h' ec"
  by (auto simp: ec_below_def intro: below_mono)

lemma slices_below_simps:
  "slices_below n []"
  "slices_below (length h) (e # es) \<longleftrightarrow>
     slice_below h (ep_ip4 e) \<and> slice_below h (ep_ip6 e) \<and> slices_below (length h) es"
  by (auto simp: slices_below_def slice_below_def)

lemma slices_below_mono: "slices_below n es \<Longrightarrow> n \<le> m \<Longrightarrow> slices_below m es"
  by (force simp: slices_below_def)

lemma ec_endpoints_for_below:
  "ec_endpoints_for g ords h ec names = (h', es) \<Longrightarrow> ec_below h ec \<Longrightarrow>
     length h \<le> length h' \<and> slices_below (length h') es"
proof (induction names arbitrary: h es)
  case Nil
  then show ?case by (simp add: slices_below_simps)
next
  case (Cons n names)
  show ?case
  proof (cases "gomap_lookup ec n")
    case None
    with Cons show ?thesis by simp
  next
    case (Some e)
    obtain h1 s1 where n1: "ec_normalize g ords h (ep_ip4 e) = (h1, s1)" by fastforce
    obtain h2 s2 where n2: "ec_normalize g ords h1 (ep_ip6 e) = (h2, s2)" by fastforce
    obtain es' where rest: "ec_endpoints_for g ords h2 ec names = (h', es')"
      and es: "es = e\<lparr>ep_ip4 := s1, ep_ip6 := s2\<rparr> # es'"
      using Cons.prems(1) Some n1 n2 by (auto split: prod.splits)
    note g = ec_normalize_grows [OF n1] ec_normalize_grows [OF n2]
    have len: "length h \<le> length h1" "length h1 \<le> length h2" using g by (simp_all add: grows_def)
    have "slice_below h1 s1" "slice_below h2 s2"
      using g Cons.prems(2) Some len by (auto simp: grows_def ec_below_def intro: below_mono)
    moreover have "length h2 \<le> length h' \<and> slices_below (length h') es'"
      using len by (intro Cons.IH [OF rest] ec_below_mono [OF Cons.prems(2)]) simp
    ultimately show ?thesis using len es by (auto simp: slices_below_simps intro: below_mono)
  qed
qed

lemma build_loop_below:
  "build_loop g ords rrc h grps = (h', grps') \<Longrightarrow> ec_below h (col_endpoints rrc) \<Longrightarrow>
     length h \<le> length h' \<and> (\<forall>grp \<in> set grps'. slices_below (length h') (grp_endpoints grp))"
proof (induction grps arbitrary: h grps')
  case (Cons grp grps)
  obtain h1 es where es: "ec_endpoints_for g ords h (col_endpoints rrc)
      (sc_target_names ords (col_services rrc) (grp_services grp)) = (h1, es)"
    by fastforce
  obtain gs where rest: "build_loop g ords rrc h1 grps = (h', gs)"
    and grps': "grps' = grp\<lparr>grp_endpoints := es\<rparr> # gs"
    using Cons.prems(1) es by (auto split: prod.splits)
  note e = ec_endpoints_for_below [OF es Cons.prems(2)]
  have "length h1 \<le> length h' \<and> (\<forall>grp \<in> set gs. slices_below (length h') (grp_endpoints grp))"
    using Cons.IH [OF rest] ec_below_mono [OF Cons.prems(2)] e by simp
  with e grps' show ?case by (auto intro: slices_below_mono)
qed simp

lemma build_frame:
  assumes below: "ec_below (col_heap rrc) (col_endpoints rrc)"
    and build: "rrc_build g ords rrc = (rrc', gps)"
  shows "freeze_groups (col_heap (fst (add_rrs g' rrc' later))) gps = freeze_groups (col_heap rrc') gps"
proof -
  let ?h2 = "col_heap (fst (add_rrs g' rrc' later))"
  obtain h all where loop: "build_loop g ords rrc (col_heap rrc)
      (gps_all (gc_new_groups ords (col_groups rrc))) = (h, all)"
    and rrc': "rrc' = rrc_reset (rrc\<lparr>col_heap := h\<rparr>)" and all: "gps_all gps = all"
    using build by (auto simp: rrc_build_def Let_def split: prod.splits)
  have heap: "col_heap rrc' = h" using rrc' by (simp add: rrc_reset_def)
  have "owns_from (length h) (col_heap rrc') (col_endpoints rrc')"
    using owns_from_reset [of "rrc\<lparr>col_heap := h\<rparr>"] heap by (simp add: rrc')
  from add_rrs_frame [OF this, of g' later] have same: "same_below (length h) h ?h2" by (simp add: heap)
  have "freeze_group ?h2 grp = freeze_group h grp" if "grp \<in> set all" for grp
    using slices_below_freeze [OF same order_refl] build_loop_below [OF loop below] that
    unfolding freeze_group_def by metis
  then show ?thesis by (simp add: freeze_groups_def all heap)
qed

lemma owns_from_below:
  assumes "owns_from n h ec"
  shows "ec_below h ec"
proof -
  have fam: "slot_family h (ec_slot ec)" using assms by (simp add: owns_from_def)
  have valid: "slice_below h s" if "valid_slice h s" for s
    using that by (cases s) (simp_all add: slice_below_def)
  show ?thesis
    unfolding ec_below_def
  proof (intro allI impI)
    fix n e assume "gomap_lookup ec n = Some e"
    then have "ep_ip4 e = ec_slot ec (n, False)" "ep_ip6 e = ec_slot ec (n, True)"
      by (simp_all add: ec_slot_def)
    with slot_family_valid [OF fam] valid show "slice_below h (ep_ip4 e) \<and> slice_below h (ep_ip6 e)"
      by metis
  qed
qed

section \<open>What a stream determines\<close>

lemma stream_sets:
  assumes "set rrs = set rrs'"
  shows "set (stream_defs domain rrs) = set (stream_defs domain rrs')"
    and "set (stream_targets rrs s) = set (stream_targets rrs' s)"
    and "set (stream_addrs rrs k) = set (stream_addrs rrs' k)"
  using assms by (simp_all add: stream_defs_def stream_targets_def stream_addrs_def)

lemma known_host_set: "set rrs = set rrs' \<Longrightarrow> known_host rrs = known_host rrs'"
  using stream_sets(3) [of rrs rrs'] by (auto simp: known_host_def fun_eq_iff simp flip: set_empty)

lemma groups_of_set:
  assumes "set rrs = set rrs'"
  shows "groups_of domain rrs = groups_of domain rrs'"
proof -
  note sets = stream_sets [OF assms]
  have services: "defs_services (stream_defs domain rrs) = defs_services (stream_defs domain rrs')"
    using sets(1) by (simp add: defs_services_def fun_eq_iff)
  have eps: "endpoint_of rrs = endpoint_of rrs'"
    using sets(3) by (simp add: endpoint_of_def fun_eq_iff)
  have "group_of domain rrs = group_of domain rrs'"
    by (rule ext) (simp only: group_of_def services eps sets(2) known_host_set [OF assms])
  moreover have "group_names domain rrs = group_names domain rrs'"
    using sets(1) by (simp add: group_names_def)
  ultimately show ?thesis by (simp add: groups_of_def)
qed

lemma stream_texts_set: "set rrs = set rrs' \<Longrightarrow> set (stream_texts domain rrs) = set (stream_texts domain rrs')"
  by (simp add: stream_texts_def)

lemma first_error_set: "set ts = set us \<Longrightarrow> first_error ts = None \<longleftrightarrow> first_error us = None"
  by (simp add: first_error_None)

lemma build_from_spec:
  assumes "first_error (stream_texts domain rrs) = None" and "addrs_distinct rrs"
  shows "build_from g ords domain rrs = groups_of domain rrs"
proof -
  obtain rrc where add: "add_rrs g (new_rr_collector domain) rrs = (rrc, None)"
    using add_rrs_error [of g "new_rr_collector domain" rrs] assms(1)
    by (cases "add_rrs g (new_rr_collector domain) rrs") (simp add: new_rr_collector_def)
  obtain rrc' gps where build: "rrc_build g ords rrc = (rrc', gps)" by fastforce
  have "rrc_models rrc rrs" and "discovery_domain rrc = domain"
    using rrc_models_add_rrs [OF rrc_models_new add] by (simp_all add: new_rr_collector_def)
  with rrc_build_spec [OF _ assms(2) build] add build show ?thesis by (simp add: build_from_def)
qed

section \<open>Properties\<close>

text \<open>
  Property C5: for a stream of records whose discovery texts all parse and in which no host
  repeats an address, collecting the records and calling \<open>Build\<close> yields exactly the groups the
  stream describes: one group per defined name, its services the union over the group's
  definitions, its endpoints the known hosts its services point to, each with its sorted
  addresses - whatever the order in which the runtime ranges over maps and the capacities it
  chooses.
\<close>

theorem build_refines_groups_of:
  assumes "first_error (stream_texts domain rrs) = None" and "addrs_distinct rrs"
  shows "build_from g ords domain rrs = groups_of domain rrs"
  using assms by (rule build_from_spec)

definition sample_header :: "string \<Rightarrow> header" where
  "sample_header n = \<lparr>hdr_name = n, hdr_ttl = 300, hdr_class = class_INET\<rparr>"

definition sample_zone :: "rr list" where
  "sample_zone =
     [TXT (sample_header ''d.'') [''red s1. s2.'', ''blue s1.''],
      SRV (sample_header ''s1.'') ''b.'', SRV (sample_header ''s2.'') ''a.'',
      A (sample_header ''a.'') (IPv4 7), A (sample_header ''a.'') (IPv4 3),
      AAAA (sample_header ''b.'') (IPv6 9 [])]"

definition sample_orders :: map_orders where
  "sample_orders = \<lparr>ord_groups = rev, ord_services = rev, ord_targets = rev, ord_addrs = rev\<rparr>"

lemma host_addrs_Nil:
  "hdr_name (rr_header r) \<noteq> fst k \<Longrightarrow> host_addrs k r = []"
  by (cases k; cases r) auto

lemma addrs_distinct_check:
  assumes "list_all (\<lambda>n. distinct (stream_addrs rrs (n, False)) \<and> distinct (stream_addrs rrs (n, True)))
    (map (\<lambda>r. hdr_name (rr_header r)) rrs)"
  shows "addrs_distinct rrs"
  unfolding addrs_distinct_def
proof
  fix k :: "string \<times> bool"
  show "distinct (stream_addrs rrs k)"
  proof (cases "fst k \<in> set (map (\<lambda>r. hdr_name (rr_header r)) rrs)")
    case True
    with assms show ?thesis by (cases k; cases "snd k") (auto simp: list_all_iff)
  next
    case False
    then have "\<forall>r \<in> set rrs. host_addrs k r = []" by (intro ballI host_addrs_Nil) (auto simp: image_iff)
    then have "stream_addrs rrs k = []" by (simp add: stream_addrs_def)
    then show ?thesis by simp
  qed
qed

lemma sample_zone_ok: "first_error (stream_texts ''d.'' sample_zone) = None" "addrs_distinct sample_zone"
  subgoal by code_simp
  subgoal by (rule addrs_distinct_check) code_simp
  done

theorem build_refines_groups_of_witness:
  "build_from (\<lambda>_ n. n) sample_orders ''d.'' sample_zone = groups_of ''d.'' sample_zone"
  by (rule build_refines_groups_of) (rule sample_zone_ok)+

text \<open>
  Property C16: where no host repeats an address and all discovery texts parse, the built groups
  depend on the set of records only. Two such streams of the same records yield the same groups:
  reordering the records (within or across zone files), repeating TXT or SRV records, and other
  choices of the runtime change nothing. (What repeated A and AAAA records
  do is in \<open>repeated_addresses_served\<close>.)
\<close>

theorem build_order_independent:
  assumes "set rrs = set rrs'" and "addrs_distinct rrs" and "addrs_distinct rrs'"
    and "first_error (stream_texts domain rrs) = None"
  shows "build_from g ords domain rrs = build_from g' ords' domain rrs'"
proof -
  have "first_error (stream_texts domain rrs') = None"
    using first_error_set [OF stream_texts_set [OF assms(1)]] assms(4) by blast
  with assms show ?thesis by (simp add: build_from_spec groups_of_set [OF assms(1)])
qed

theorem build_order_independent_witness:
  "build_from (\<lambda>_ n. n) sample_orders ''d.'' sample_zone =
     build_from (\<lambda>_ n. 2 * n) sample_orders ''d.'' (rev sample_zone)"
proof (rule build_order_independent)
  show "addrs_distinct (rev sample_zone)" by (rule addrs_distinct_check) code_simp
qed (simp_all add: sample_zone_ok)

text \<open>
  Adding records fails exactly when some discovery text does not parse, and then
  with the error of the first such text in the stream; everything else is accepted.
\<close>

lemma add_rrs_first_error:
  "snd (add_rrs g rrc rrs) = first_error (stream_texts (discovery_domain rrc) rrs)"
  by (rule add_rrs_error)

text \<open>
  Whatever was collected - repeated addresses and streams cut off by an error
  included - the index of the built groups names every group by its position, the groups
  come in ascending order of their names, and looking up a name returns the group of that
  name without an out-of-range access.
\<close>

lemma build_index_wf:
  "groups_wf (build_from g ords domain rrs) \<and>
   sorted (map grp_name (gps_all (build_from g ords domain rrs))) \<and>
   groups_get (build_from g ords domain rrs) name =
     Inr (find (\<lambda>grp. grp_name grp = name) (gps_all (build_from g ords domain rrs)))"
proof -
  let ?rrc = "fst (add_rrs g (new_rr_collector domain) rrs)"
  have "\<exists>ds. gc_models (col_groups (new_rr_collector domain)) ds"
    using rrc_models_new unfolding rrc_models_def by blast
  then obtain ds where ds: "gc_models (col_groups ?rrc) ds"
    using add_rrs_gc_models by blast
  obtain rrc' gps where build: "rrc_build g ords ?rrc = (rrc', gps)" by fastforce
  then have "build_from g ords domain rrs = freeze_groups (col_heap rrc') gps"
    by (simp add: build_from_def)
  with rrc_build_wf [OF ds build] show ?thesis by (simp add: groups_get_wf)
qed

text \<open>
  Property C32: \<open>Build\<close> leaves the collector empty, and what is collected afterwards, errors
  included, never changes groups that were built before, although the collector keeps its
  storage: the groups a locator publishes are immutable.
\<close>

theorem build_then_reuse:
  "let rrc = fst (add_rrs g (new_rr_collector domain) rrs);
       (rrc', gps) = rrc_build g ords rrc
   in rrc_models rrc' [] \<and>
      freeze_groups (col_heap (fst (add_rrs g' rrc' later))) gps = freeze_groups (col_heap rrc') gps"
proof -
  let ?rrc = "fst (add_rrs g (new_rr_collector domain) rrs)"
  obtain rrc' gps where build: "rrc_build g ords ?rrc = (rrc', gps)" by fastforce
  have "owns_from 0 (col_heap (new_rr_collector domain)) (col_endpoints (new_rr_collector domain))"
    by (simp add: owns_from_def new_rr_collector_def ec_slot_None slot_family_nil)
  from add_rrs_frame [OF this] have "ec_below (col_heap ?rrc) (col_endpoints ?rrc)"
    by (blast intro: owns_from_below)
  from build_frame [OF this build] rrc_build_reset [OF build] build show ?thesis
    by (auto simp: rrc_models_reset)
qed

lemma merge_singleton_name:
  "ds \<noteq> [] \<Longrightarrow> \<forall>d \<in> set ds. gdef_name d = n \<Longrightarrow>
     merge_group_definitions ds = \<lparr>gdef_name = n, gdef_services = concat (map gdef_services ds)\<rparr>"
  by (cases ds) (simp_all add: group_definition.equality merge_services merge_name)

lemma foldl_gc_models: "gc_models gc ds \<Longrightarrow> gc_models (foldl gc_add gc new) (ds @ new)"
proof (induction new arbitrary: gc ds)
  case (Cons d new)
  from Cons.IH [OF gc_models_add [OF Cons.prems, of d]] show ?case by simp
qed simp

text \<open>
  The two ways the code merges definitions agree. Adding definitions one at a time
  to a new or cleared group collector leaves, under every name, what \<open>MergeGroupDefinitions\<close>
  makes of all the definitions of that name in their order, and no entry for other names.
\<close>

lemma collector_merges_definitions:
  "gomap_lookup (foldl gc_add (gc_clear gc) ds) n =
    (case filter (\<lambda>d. gdef_name d = n) ds of
       [] \<Rightarrow> None
     | d # es \<Rightarrow> Some (merge_group_definitions (d # es)))"
proof -
  have "gc_models (gc_clear gc) []" by (cases gc) (simp_all add: gc_models_def gc_clear_def gomap_clear_def)
  from foldl_gc_models [OF this, of ds] have lookup:
    "gomap_lookup (foldl gc_add (gc_clear gc) ds) n =
       (let es = filter (\<lambda>d. gdef_name d = n) ds
        in if es = [] then None
           else Some \<lparr>gdef_name = n, gdef_services = concat (map gdef_services es)\<rparr>)"
    by (simp add: gc_models_def)
  then show ?thesis
  proof (cases "filter (\<lambda>d. gdef_name d = n) ds")
    case (Cons d es)
    then have "set (d # es) = {d' \<in> set ds. gdef_name d' = n}" by (metis set_filter)
    then have "\<forall>d' \<in> set (d # es). gdef_name d' = n" by simp
    from merge_singleton_name [OF _ this] lookup Cons show ?thesis by (simp add: Let_def)
  qed simp
qed

end
