(* ===== verification/Locator.thy ===== *)
theory Locator
  imports Group_Records Group_Definition
begin

text \<open>
  The locator (\<open>service/locator.go\<close>): for every group a consistent hash ring over its
  endpoints, replaced as a whole when new groups arrive, and lookups of an object in the rings
  of all groups or of named ones.

  The hash rings are those of the medley package. They are a parameter: a record of the
  operations that the locator calls. \<open>'b\<close> is the ring builder, \<open>'q\<close> the sequence that
  \<open>Objectify\<close> makes of the endpoints, \<open>'r\<close> a ring; a pointer is an option, \<^const>\<open>None\<close> the nil
  pointer. Logging is left out.
\<close>

record ('b, 'q, 'r) medley =
  md_vnodes :: "'b \<Rightarrow> int \<Rightarrow> 'b"
  md_objectify :: "(addr list endpoint \<Rightarrow> string) \<Rightarrow> addr list endpoint list \<Rightarrow> 'q"
  md_build :: "'b \<Rightarrow> nat \<Rightarrow> 'q \<Rightarrow> 'r option"
  md_nearest :: "'r option \<Rightarrow> string \<Rightarrow> addr list endpoint option"
  md_nearest_string :: "'r option \<Rightarrow> string \<Rightarrow> addr list endpoint option"

record ('b, 'r) locator =
  loc_builder :: 'b
  loc_groups :: "addr list groups option"
  loc_rings_by_name :: "(string, 'r option) gomap"
  loc_all_rings :: "'r option list"

section \<open>Construction\<close>

type_synonym ('b, 'r, 'e) locator_option = "('b, 'r) locator \<Rightarrow> 'e + ('b, 'r) locator"

definition with_vnodes :: "('b, 'q, 'r) medley \<Rightarrow> int \<Rightarrow> ('b, 'r, 'e) locator_option" where
  "with_vnodes md vnodes l = Inr (l\<lparr>loc_builder := md_vnodes md (loc_builder l) vnodes\<rparr>)"

text \<open>The zero value of a locator; \<open>b\<close> is the zero value of the ring builder.\<close>

definition zero_locator :: "'b \<Rightarrow> ('b, 'r) locator" where
  "zero_locator b =
     \<lparr>loc_builder = b, loc_groups = None, loc_rings_by_name = None, loc_all_rings = []\<rparr>"

lemma zero_locator_groups [simp]: "loc_groups (zero_locator b) = None"
  by (simp add: zero_locator_def)

definition new_locator ::
  "'b \<Rightarrow> ('b, 'r, 'e) locator_option list \<Rightarrow> 'e + ('b, 'r) locator" where
  "new_locator b opts = apply_options opts (zero_locator b)"

section \<open>Lookups\<close>

definition ring_named :: "('b, 'r) locator \<Rightarrow> string \<Rightarrow> 'r option" where
  "ring_named l group_name =
     (case gomap_lookup (loc_rings_by_name l) group_name of None \<Rightarrow> None | Some ring \<Rightarrow> ring)"

definition rings :: "('b, 'r) locator \<Rightarrow> string list \<Rightarrow> 'r option list" where
  "rings l groups =
     (if 0 < length groups
      then filter (\<lambda>ring. ring \<noteq> None) (map (ring_named l) groups)
      else loc_all_rings l)"

definition find_bytes ::
  "('b, 'q, 'r) medley \<Rightarrow> ('b, 'r) locator \<Rightarrow> string \<Rightarrow> string list \<Rightarrow> located" where
  "find_bytes md l object groups =
     foldl (\<lambda>results ring. results @ [md_nearest md ring object]) [] (rings l groups)"

definition find_string ::
  "('b, 'q, 'r) medley \<Rightarrow> ('b, 'r) locator \<Rightarrow> string \<Rightarrow> string list \<Rightarrow> located" where
  "find_string md l object groups =
     foldl (\<lambda>results ring. results @ [md_nearest_string md ring object]) [] (rings l groups)"

definition locator_groups :: "('b, 'r) locator \<Rightarrow> addr list groups option" where
  "locator_groups l = loc_groups l"

section \<open>Updates\<close>

definition build_ring ::
  "('b, 'q, 'r) medley \<Rightarrow> 'b \<Rightarrow> addr list group \<Rightarrow> 'r option" where
  "build_ring md b grp =
     md_build md b (group_len grp) (md_objectify md original_name (group_endpoints grp))"

text \<open>The loop that builds the rings, before the lock is taken.\<close>

definition build_rings ::
  "('b, 'q, 'r) medley \<Rightarrow> 'b \<Rightarrow> addr list group list
    \<Rightarrow> (string \<times> 'r option) list \<times> 'r option list" where
  "build_rings md b gs =
     foldl (\<lambda>(rings_by_name, rings) grp.
        (let ring = build_ring md b grp
         in (AList.update (grp_name grp) ring rings_by_name, rings @ [ring]))) ([], []) gs"

definition update_locator ::
  "('b, 'q, 'r) medley \<Rightarrow> ('b, 'r) locator \<Rightarrow> addr list groups option \<Rightarrow> panic + ('b, 'r) locator" where
  "update_locator md l gps_ptr =
     (case gps_ptr of
        None \<Rightarrow> Inl NilDereference
      | Some gps \<Rightarrow>
          (let (rings_by_name, rings) = build_rings md (loc_builder l) (groups_all gps)
           in Inr (l\<lparr>loc_groups := Some gps, loc_rings_by_name := Some rings_by_name,
                loc_all_rings := rings\<rparr>)))"

record 'e ingest_event =
  ev_err :: "'e option"
  ev_groups :: "addr list groups option"

text \<open>The method of an ingest listener.\<close>

type_synonym ('l, 'e) listener_method = "'l \<Rightarrow> 'e ingest_event \<Rightarrow> panic + 'l"

definition on_ingest :: "('b, 'q, 'r) medley \<Rightarrow> (('b, 'r) locator, 'e) listener_method" where
  "on_ingest md l event =
     (if ev_err event \<noteq> None then Inr l else update_locator md l (ev_groups event))"

section \<open>What a locator holds\<close>

text \<open>
  The locator is a function of its builder and of the groups published last: \<open>published\<close>.
\<close>

definition published :: "('b, 'q, 'r) medley \<Rightarrow> 'b \<Rightarrow> addr list groups option \<Rightarrow> ('b, 'r) locator" where
  "published md b gps_ptr =
     (case gps_ptr of
        None \<Rightarrow> zero_locator b
      | Some gps \<Rightarrow>
          \<lparr>loc_builder = b, loc_groups = Some gps,
           loc_rings_by_name = Some (fst (build_rings md b (gps_all gps))),
           loc_all_rings = map (build_ring md b) (gps_all gps)\<rparr>)"

lemma build_rings_snd: "snd (build_rings md b gs) = map (build_ring md b) gs"
proof -
  have "snd (foldl (\<lambda>(rbn, rings) grp. (let ring = build_ring md b grp
      in (AList.update (grp_name grp) ring rbn, rings @ [ring]))) st gs) =
      snd st @ map (build_ring md b) gs" for st
    by (induction gs arbitrary: st) (auto simp: Let_def split: prod.split)
  then show ?thesis by (simp add: build_rings_def)
qed

text \<open>With two groups of the same name the later ring would win; in a finished \<open>Groups\<close> names differ.\<close>

lemma build_rings_lookup:
  "map_of (fst (build_rings md b gs)) n = map_option (build_ring md b) (find (\<lambda>g. grp_name g = n) (rev gs))"
proof -
  have "map_of (fst (foldl (\<lambda>(rbn, rings) grp. (let ring = build_ring md b grp
      in (AList.update (grp_name grp) ring rbn, rings @ [ring]))) st gs)) n =
      (case find (\<lambda>g. grp_name g = n) (rev gs) of
         None \<Rightarrow> map_of (fst st) n | Some g \<Rightarrow> Some (build_ring md b g))" for st
    by (induction gs arbitrary: st)
      (auto simp: Let_def update_conv' find_append split: prod.split option.split)
  then show ?thesis by (auto simp: build_rings_def split: option.split)
qed

lemma update_published:
  "update_locator md (published md b old) (Some gps) = Inr (published md b (Some gps))"
proof -
  have "loc_builder (published md b old) = b"
    by (cases old) (simp_all add: published_def zero_locator_def)
  moreover obtain rbn rs where "build_rings md b (gps_all gps) = (rbn, rs)" by fastforce
  moreover from this have "rs = map (build_ring md b) (gps_all gps)"
    using build_rings_snd [of md b "gps_all gps"] by simp
  ultimately show ?thesis
    by (cases old) (simp_all add: update_locator_def published_def zero_locator_def)
qed

section \<open>The contract of a listener\<close>

text \<open>
  What the ingester relies on: an error event leaves the listener as it is, an event with
  groups replaces what it shows.
\<close>

fun run_events :: "('s \<Rightarrow> 'e ingest_event \<Rightarrow> panic + 's) \<Rightarrow> 's \<Rightarrow> 'e ingest_event list \<Rightarrow> panic + 's" where
  "run_events on_event s [] = Inr s"
| "run_events on_event s (e # es) =
     (case on_event s e of Inl p \<Rightarrow> Inl p | Inr s' \<Rightarrow> run_events on_event s' es)"

definition event_ok :: "'e ingest_event \<Rightarrow> bool" where
  "event_ok e \<longleftrightarrow> ev_err e \<noteq> None \<or> ev_groups e \<noteq> None"

definition last_groups :: "addr list groups option \<Rightarrow> 'e ingest_event list \<Rightarrow> addr list groups option" where
  "last_groups old es = foldl (\<lambda>cur e. if ev_err e = None then ev_groups e else cur) old es"

locale ingest_listener =
  fixes on_event :: "'s \<Rightarrow> 'e ingest_event \<Rightarrow> panic + 's"
    and view :: "'s \<Rightarrow> addr list groups option"
    and inv :: "'s \<Rightarrow> bool"
  assumes on_error: "ev_err e \<noteq> None \<Longrightarrow> on_event s e = Inr s"
    and on_groups: "inv s \<Longrightarrow> ev_err e = None \<Longrightarrow> ev_groups e = Some gps \<Longrightarrow>
      \<exists>s'. on_event s e = Inr s' \<and> inv s' \<and> view s' = Some gps"
begin

lemma run_events_view:
  assumes "inv s" and "\<forall>e \<in> set es. event_ok e"
  shows "\<exists>s'. run_events on_event s es = Inr s' \<and> inv s' \<and> view s' = last_groups (view s) es"
  using assms
proof (induction es arbitrary: s)
  case (Cons e es)
  show ?case
  proof (cases "ev_err e = None")
    case True
    then obtain gps where gps: "ev_groups e = Some gps" using Cons.prems(2) by (auto simp: event_ok_def)
    obtain s1 where s1: "on_event s e = Inr s1" "inv s1" "view s1 = Some gps"
      using on_groups [OF Cons.prems(1) True gps] by blast
    from Cons.IH [OF s1(2)] Cons.prems(2) s1 True gps show ?thesis by (simp add: last_groups_def)
  next
    case False
    from Cons.IH [OF Cons.prems(1)] Cons.prems(2) on_error [OF False] False show ?thesis
      by (auto simp: last_groups_def)
  qed
qed (simp add: last_groups_def)

end

definition is_published :: "('b, 'q, 'r) medley \<Rightarrow> 'b \<Rightarrow> ('b, 'r) locator \<Rightarrow> bool" where
  "is_published md b l \<longleftrightarrow> l = published md b (loc_groups l)"

lemma loc_groups_published [simp]: "loc_groups (published md b gps_ptr) = gps_ptr"
  by (cases gps_ptr) (simp_all add: published_def zero_locator_def)

lemma is_published_published [simp]: "is_published md b (published md b gps_ptr)"
  by (simp add: is_published_def)

interpretation locl: ingest_listener "on_ingest md" loc_groups "is_published md b" for md b
proof unfold_locales
  show "\<exists>s'. on_ingest md s e = Inr s' \<and> is_published md b s' \<and> loc_groups s' = Some gps"
    if "is_published md b s" "ev_err e = None" "ev_groups e = Some gps"
    for s and e :: "'e ingest_event" and gps
    using that update_published [of md b "loc_groups s" gps]
    by (auto simp: on_ingest_def is_published_def)
qed (simp add: on_ingest_def)

section \<open>What lookups return\<close>

text \<open>\<open>Build\<close> of the ring builder never returns the nil pointer.\<close>

definition builds_rings :: "('b, 'q, 'r) medley \<Rightarrow> bool" where
  "builds_rings md \<longleftrightarrow> (\<forall>b n q. md_build md b n q \<noteq> None)"

definition selected_groups :: "addr list groups \<Rightarrow> string list \<Rightarrow> addr list group list" where
  "selected_groups gps names =
     (if names = [] then gps_all gps
      else List.map_filter (\<lambda>n. List.find (\<lambda>g. grp_name g = n) (gps_all gps)) names)"

definition located_in :: "('b, 'q, 'r) medley \<Rightarrow> 'b \<Rightarrow> addr list groups option \<Rightarrow> string
    \<Rightarrow> string list \<Rightarrow> located" where
  "located_in md b gps_ptr object names =
     (case gps_ptr of None \<Rightarrow> []
      | Some gps \<Rightarrow> map (\<lambda>g. md_nearest_string md (build_ring md b g) object) (selected_groups gps names))"

lemma find_string_map:
  "find_string md l object names = map (\<lambda>ring. md_nearest_string md ring object) (rings l names)"
  by (simp add: find_string_def foldl_collect)

lemma find_bytes_map:
  "find_bytes md l object names = map (\<lambda>ring. md_nearest md ring object) (rings l names)"
  by (simp add: find_bytes_def foldl_collect)

lemma ring_named_published:
  assumes "groups_wf gps"
  shows "ring_named (published md b (Some gps)) n =
    (case List.find (\<lambda>g. grp_name g = n) (gps_all gps) of None \<Rightarrow> None | Some g \<Rightarrow> build_ring md b g)"
  using assms
  by (simp add: ring_named_def published_def build_rings_lookup find_rev_distinct groups_wf_def
    split: option.split)

lemma rings_published:
  assumes "groups_wf gps" and "builds_rings md"
  shows "rings (published md b (Some gps)) names = map (build_ring md b) (selected_groups gps names)"
proof (cases "names = []")
  case True
  then show ?thesis by (simp add: rings_def published_def selected_groups_def)
next
  case False
  have some: "build_ring md b g \<noteq> None" for g
    using assms(2) by (simp add: builds_rings_def build_ring_def)
  have "filter (\<lambda>ring. ring \<noteq> None) (map (ring_named (published md b (Some gps))) ns) =
      map (build_ring md b) (List.map_filter (\<lambda>n. List.find (\<lambda>g. grp_name g = n) (gps_all gps)) ns)" for ns
    by (induction ns)
      (auto simp: ring_named_published [OF assms(1)] List.map_filter_simps some [simplified]
        split: option.split)
  with False show ?thesis by (simp add: rings_def selected_groups_def)
qed

lemma find_string_published:
  assumes "\<forall>gps. gps_ptr = Some gps \<longrightarrow> groups_wf gps" and "builds_rings md"
  shows "find_string md (published md b gps_ptr) object names = located_in md b gps_ptr object names"
proof (cases gps_ptr)
  case None
  have "filter (\<lambda>ring. ring \<noteq> None) (map (\<lambda>_. None) xs) = []" for xs :: "string list"
    by (induction xs) simp_all
  with None show ?thesis
    by (simp add: find_string_map rings_def published_def zero_locator_def located_in_def ring_named_def)
next
  case (Some gps)
  with assms show ?thesis
    by (simp add: find_string_map rings_published located_in_def)
qed

section \<open>Properties\<close>

text \<open>A concrete ring for the witnesses: it holds its endpoints and always picks the first.\<close>

definition sample_medley :: "(int, addr list endpoint list, addr list endpoint list) medley" where
  "sample_medley =
     \<lparr>md_vnodes = (\<lambda>_ n. n), md_objectify = (\<lambda>_ es. es), md_build = (\<lambda>_ _ es. Some es),
      md_nearest = (\<lambda>ring _. case ring of Some (e # _) \<Rightarrow> Some e | _ \<Rightarrow> None),
      md_nearest_string = (\<lambda>ring _. case ring of Some (e # _) \<Rightarrow> Some e | _ \<Rightarrow> None)\<rparr>"

definition sample_endpoint :: "addr list endpoint" where
  "sample_endpoint = \<lparr>ep_name = ''t.'', ep_ip4 = [IPv4 1], ep_ip6 = []\<rparr>"

definition sample_groups :: "addr list groups" where
  "sample_groups =
     \<lparr>gps_by_name = Some [(''g'', 0)],
      gps_all = [\<lparr>grp_name = ''g'', grp_services = [''s.''], grp_endpoints = [sample_endpoint]\<rparr>]\<rparr>"

lemma sample_ok: "groups_wf sample_groups" "builds_rings sample_medley"
  by (simp_all add: groups_wf_def sample_groups_def builds_rings_def sample_medley_def)

lemma update_any:
  "update_locator md l (Some gps) = Inr (published md (loc_builder l) (Some gps))"
proof -
  obtain by_name all where b: "build_rings md (loc_builder l) (gps_all gps) = (by_name, all)" by fastforce
  with build_rings_snd [of md "loc_builder l" "gps_all gps"] show ?thesis
    by (simp add: update_locator_def published_def)
qed

text \<open>
  Property C12: after an update the locator serves exactly the new groups, whatever it held
  before: a lookup without group names asks the ring of every group, in order; with names it
  asks the ring of each named group in the order of the names, a name without a group being
  skipped and a repeated name asked again; each ring is the one built over all endpoints of
  its group.
\<close>

theorem update_then_find:
  assumes "groups_wf gps" and "builds_rings md"
  shows "\<exists>l'. update_locator md l (Some gps) = Inr l' \<and> locator_groups l' = Some gps \<and>
    find_string md l' object names = located_in md (loc_builder l) (Some gps) object names"
  using find_string_published [of "Some gps" md "loc_builder l" object names] assms
  by (simp add: update_any locator_groups_def)

theorem update_then_find_witness:
  "\<exists>l'. update_locator sample_medley (zero_locator 0) (Some sample_groups) = Inr l' \<and>
     locator_groups l' = Some sample_groups \<and>
     find_string sample_medley l' ''mac'' [''g'', ''nosuch'', ''g''] =
       located_in sample_medley (loc_builder (zero_locator 0 :: (int, addr list endpoint list) locator))
         (Some sample_groups) ''mac'' [''g'', ''nosuch'', ''g'']"
  by (rule update_then_find) (rule sample_ok)+

text \<open>
  A locator that has received any sequence of ingest events holds the groups of
  the last event without an error, and before the first one no groups; error events, also
  between good ones, change nothing, and no event makes it panic.
\<close>

lemma events_keep_last_groups:
  assumes "\<forall>e \<in> set es. event_ok e"
  shows "run_events (on_ingest md) (zero_locator b) es = Inr (published md b (last_groups None es))"
proof -
  have start: "is_published md b (zero_locator b)"
    by (simp add: is_published_def published_def zero_locator_def)
  from locl.run_events_view [OF start assms] obtain l where
    "run_events (on_ingest md) (zero_locator b) es = Inr l" "is_published md b l"
    "loc_groups l = last_groups None es"
    by auto
  then show ?thesis by (simp only: is_published_def)
qed

end
