(* ===== verification/TTL.thy ===== *)
theory TTL
  imports
    Complex_Main
    "HOL-Library.Log_Nat"
    "HOL-Library.Word"
begin

text \<open>
  Durations, TTLs and TTL jitter (\<open>ttl.go\<close>).

  \<open>DurationToSeconds\<close> and \<open>NewTTLJitterer\<close> compute in floating point. A finite float is
  the rational it denotes, and every operation is the exact one followed by rounding to
  nearest, ties to even, to 53 (float64) or 24 (float32) significant bits. The values the
  code computes lie between \<open>2\<^sup>-\<^sup>3\<^sup>0\<close> and \<open>2\<^sup>3\<^sup>4\<close>, so neither overflow nor subnormal numbers
  arise. Go leaves the result of converting an unrepresentable float to \<open>uint32\<close> to the
  implementation: that result is the parameter \<open>impl\<close>.
\<close>

section \<open>Rounding to nearest even\<close>

definition round_half_even :: "rat \<Rightarrow> int" where
  "round_half_even x =
     (let f = \<lfloor>x\<rfloor>; d = x - of_int f in
      if d < 1 / 2 then f else if 1 / 2 < d then f + 1 else if even f then f else f + 1)"

lemma round_half_even_bounds: "\<lfloor>x\<rfloor> \<le> round_half_even x" "round_half_even x \<le> \<lfloor>x\<rfloor> + 1"
  by (simp_all add: round_half_even_def Let_def)

lemma round_half_even_of_int [simp]: "round_half_even (of_int k) = k"
  by (simp add: round_half_even_def)

lemma round_half_even_mono: "x \<le> y \<Longrightarrow> round_half_even x \<le> round_half_even y"
proof (cases "\<lfloor>x\<rfloor> = \<lfloor>y\<rfloor>")
  case True
  assume "x \<le> y"
  with True show ?thesis by (auto simp: round_half_even_def Let_def)
next
  case False
  assume "x \<le> y"
  with False have "\<lfloor>x\<rfloor> + 1 \<le> \<lfloor>y\<rfloor>" using floor_mono [of x y] by linarith
  then show ?thesis
    using round_half_even_bounds [of x] round_half_even_bounds [of y] by linarith
qed

lemma round_half_even_powi: "0 \<le> n \<Longrightarrow> round_half_even (2 powi n) = 2 ^ nat n"
  using round_half_even_of_int [of "2 ^ nat n"] by (simp add: power_int_nonneg_exp)

text \<open>The binary exponent of a positive rational: \<open>2\<^sup>e \<le> x < 2\<^sup>e\<^sup>+\<^sup>1\<close>.\<close>

definition bin_exp :: "rat \<Rightarrow> int" where
  "bin_exp x = (if 1 \<le> x then bitlen \<lfloor>x\<rfloor> - 1 else - bitlen (\<lceil>1 / x\<rceil> - 1))"

lemma bitlen_powi:
  assumes "0 < (k :: int)"
  shows "(2 :: rat) powi (bitlen k - 1) \<le> of_int k" and "of_int k + 1 \<le> (2 :: rat) powi (bitlen k)"
proof -
  have pos: "1 \<le> bitlen k" using assms by (simp add: bitlen_alt_def powr_def)
  have *: "2 ^ nat (bitlen k - 1) \<le> k" "k < 2 ^ nat (bitlen k)"
    using bitlen_bounds [OF assms] by blast+
  have "(2 :: rat) ^ nat (bitlen k - 1) \<le> of_int k"
    using *(1) by (metis of_int_le_iff of_int_numeral of_int_power)
  then show "(2 :: rat) powi (bitlen k - 1) \<le> of_int k"
    using pos by (simp add: power_int_def)
  have "of_int (k + 1) \<le> (of_int (2 ^ nat (bitlen k)) :: rat)"
    using *(2) by (simp only: of_int_le_iff)
  then show "of_int k + 1 \<le> (2 :: rat) powi (bitlen k)"
    using pos by (simp add: power_int_def)
qed

lemma bin_exp_bounds:
  assumes "0 < x"
  shows "2 powi bin_exp x \<le> x" and "x < 2 powi (bin_exp x + 1)"
proof -
  have "2 powi bin_exp x \<le> x \<and> x < 2 powi (bin_exp x + 1)"
  proof (cases "1 \<le> x")
    case True
    then have "0 < \<lfloor>x\<rfloor>" by simp
    from bitlen_powi [OF this] True show ?thesis
      by (simp add: bin_exp_def) linarith
  next
    case False
    with assms have "1 < 1 / x" by simp
    then have k: "0 < \<lceil>1 / x\<rceil> - 1" by linarith
    let ?b = "bitlen (\<lceil>1 / x\<rceil> - 1)"
    have "1 / x \<le> 2 powi ?b" and "2 powi (?b - 1) < 1 / x"
      using bitlen_powi [OF k] by (simp_all, linarith+)
    then have "inverse (2 powi ?b) \<le> x" and "x < inverse (2 powi (?b - 1))"
      using assms by (simp_all add: field_simps)
    with False show ?thesis
      by (simp add: bin_exp_def flip: power_int_minus)
  qed
  then show "2 powi bin_exp x \<le> x" and "x < 2 powi (bin_exp x + 1)" by simp_all
qed

lemma powi2_less_imp_less: "(2 :: rat) powi m < 2 powi n \<Longrightarrow> m < n"
  using power_int_increasing [of n m "2 :: rat"] by linarith

lemma powi2_pos: "(0 :: rat) < 2 powi n"
  by simp

lemma bin_exp_le: "0 < x \<Longrightarrow> x < 2 powi n \<Longrightarrow> bin_exp x < n"
  using bin_exp_bounds(1) powi2_less_imp_less by (meson le_less_trans)

lemma bin_exp_mono: "0 < x \<Longrightarrow> x \<le> y \<Longrightarrow> bin_exp x \<le> bin_exp y"
  using bin_exp_le [of x "bin_exp y + 1"] bin_exp_bounds(2) [of y] by simp

text \<open>Rounding to \<open>p\<close> significant bits.\<close>

definition float_round :: "int \<Rightarrow> rat \<Rightarrow> rat" where
  "float_round p x =
     (if x \<le> 0 then 0
      else let u = 2 powi (bin_exp x - (p - 1)) in of_int (round_half_even (x / u)) * u)"

lemma float_round_binade:
  assumes "0 < x" and "1 \<le> p"
  shows "2 powi bin_exp x \<le> float_round p x" and "float_round p x \<le> 2 powi (bin_exp x + 1)"
proof -
  define e where "e = bin_exp x"
  define u :: rat where "u = 2 powi (e - (p - 1))"
  have u: "0 < u" by (simp add: u_def)
  have scale: "2 powi (p - 1) * u = 2 powi e" "2 powi p * u = 2 powi (e + 1)"
    by (simp_all add: u_def flip: power_int_add)
  have x: "2 powi e \<le> x" "x < 2 powi (e + 1)"
    using bin_exp_bounds [OF assms(1)] by (simp_all add: e_def)
  have "2 powi (p - 1) \<le> x / u" "x / u \<le> 2 powi p"
    using x u by (simp_all add: pos_le_divide_eq pos_divide_le_eq scale)
  then have "2 ^ nat (p - 1) \<le> round_half_even (x / u)"
    and "round_half_even (x / u) \<le> 2 ^ nat p"
    using assms(2) round_half_even_mono [of "2 powi (p - 1)" "x / u"]
      round_half_even_mono [of "x / u" "2 powi p"] by (simp_all add: round_half_even_powi)
  then have "of_int (2 ^ nat (p - 1)) \<le> (of_int (round_half_even (x / u)) :: rat)"
    and "of_int (round_half_even (x / u)) \<le> (of_int (2 ^ nat p) :: rat)"
    by (simp_all only: of_int_le_iff)
  then have "(2 :: rat) powi (p - 1) \<le> of_int (round_half_even (x / u))"
    and "of_int (round_half_even (x / u)) \<le> (2 :: rat) powi p"
    using assms(2) by (simp_all add: power_int_nonneg_exp)
  then have "2 powi e \<le> of_int (round_half_even (x / u)) * u"
    and "of_int (round_half_even (x / u)) * u \<le> 2 powi (e + 1)"
    using u by (metis scale mult_right_mono less_imp_le)+
  moreover have "float_round p x = of_int (round_half_even (x / u)) * u"
    using assms(1) by (simp add: float_round_def u_def e_def Let_def)
  ultimately show "2 powi bin_exp x \<le> float_round p x"
    and "float_round p x \<le> 2 powi (bin_exp x + 1)" by (simp_all add: e_def)
qed

lemma float_round_nonneg: "1 \<le> p \<Longrightarrow> 0 \<le> float_round p x"
proof (cases "0 < x")
  case True
  assume "1 \<le> p"
  from float_round_binade(1) [OF True this] powi2_pos [of "bin_exp x"] show ?thesis
    by linarith
qed (simp add: float_round_def)

lemma float_round_mono:
  assumes "x \<le> y" and p: "1 \<le> p"
  shows "float_round p x \<le> float_round p y"
proof (cases "0 < x")
  case False
  then show ?thesis using float_round_nonneg [OF p, of y] by (simp add: float_round_def)
next
  case True
  then have y: "0 < y" using assms(1) by simp
  show ?thesis
  proof (cases "bin_exp x = bin_exp y")
    case True
    let ?u = "2 powi (bin_exp y - (p - 1)) :: rat"
    have "x / ?u \<le> y / ?u" using assms(1) by (simp add: divide_right_mono)
    then have "of_int (round_half_even (x / ?u)) * ?u \<le> of_int (round_half_even (y / ?u)) * ?u"
      by (intro mult_right_mono) (simp_all add: round_half_even_mono)
    with True \<open>0 < x\<close> y show ?thesis by (simp add: float_round_def Let_def)
  next
    case False
    then have "bin_exp x + 1 \<le> bin_exp y"
      using bin_exp_mono [OF \<open>0 < x\<close> assms(1)] by simp
    then have "(2 :: rat) powi (bin_exp x + 1) \<le> 2 powi bin_exp y"
      by (simp add: power_int_increasing)
    then show ?thesis
      using float_round_binade(2) [OF \<open>0 < x\<close> p] float_round_binade(1) [OF y p] by linarith
  qed
qed

text \<open>Numbers with at most \<open>p\<close> significant bits are kept.\<close>

lemma float_round_exact_less:
  assumes k: "0 \<le> k" "k < 2 ^ nat p" and p: "1 \<le> p"
  shows "float_round p (of_int k * 2 powi q) = of_int k * 2 powi q"
proof (cases "k = 0")
  case True
  then show ?thesis by (simp add: float_round_def)
next
  case False
  let ?x = "of_int k * 2 powi q :: rat"
  let ?e = "bin_exp ?x"
  let ?n = "q - (?e - (p - 1))"
  have pos: "0 < ?x" using k(1) False by simp
  have "(of_int k :: rat) < of_int (2 ^ nat p)" using k(2) by (simp only: of_int_less_iff)
  then have "?x < 2 powi p * 2 powi q"
    using p by (simp add: power_int_nonneg_exp)
  then have "?e < p + q"
    using bin_exp_le [OF pos, of "p + q"] by (simp add: power_int_add)
  then have "0 \<le> ?n" by simp
  then have "?x = of_int (k * 2 ^ nat ?n) * 2 powi (?e - (p - 1))"
    by (simp flip: power_int_nonneg_exp power_int_add)
  then have quot: "?x / 2 powi (?e - (p - 1)) = of_int (k * 2 ^ nat ?n)"
    by (simp add: nonzero_divide_eq_eq)
  show ?thesis
    using pos \<open>?x = of_int (k * 2 ^ nat ?n) * 2 powi (?e - (p - 1))\<close>
    unfolding float_round_def Let_def quot round_half_even_of_int by (auto dest: sym)
qed

lemma float_round_exact:
  assumes k: "0 \<le> k" "k \<le> 2 ^ nat p" and p: "1 \<le> p"
  shows "float_round p (of_int k * 2 powi q) = of_int k * 2 powi q"
proof (cases "k < 2 ^ nat p")
  case True
  with k(1) p show ?thesis by (intro float_round_exact_less)
next
  case False
  with k(2) have "k = 2 ^ nat p" by simp
  then have eq: "of_int k * 2 powi q = of_int 1 * (2 :: rat) powi (p + q)"
    using p by (simp add: power_int_add power_int_nonneg_exp)
  have "(1 :: int) < 2 ^ nat p" using p by simp
  then show ?thesis unfolding eq by (intro float_round_exact_less p) simp_all
qed

lemma float_round_of_int:
  "0 \<le> k \<Longrightarrow> k \<le> 2 ^ nat p \<Longrightarrow> 1 \<le> p \<Longrightarrow> float_round p (of_int k) = of_int k"
  using float_round_exact [of k p 0] by simp

section \<open>Durations\<close>

text \<open>A \<open>time.Duration\<close> is a signed 64-bit number of nanoseconds, here an \<^typ>\<open>int\<close>.\<close>

text \<open>\<open>Duration.Seconds\<close>: whole seconds plus the fraction, each step rounded to float64.\<close>

definition duration_seconds :: "int \<Rightarrow> rat" where
  "duration_seconds d =
     (let sec = d div 1000000000; nsec = d mod 1000000000
      in float_round 53 (of_int sec + float_round 53 (of_int nsec / 1000000000)))"

text \<open>\<open>math.Round\<close> of a non-negative number: halves go up.\<close>

definition math_round :: "rat \<Rightarrow> int" where
  "math_round x = \<lfloor>x + 1 / 2\<rfloor>"

text \<open>The conversion \<open>uint32(x)\<close> of a non-negative float truncates when the result fits.\<close>

definition to_uint32 :: "(rat \<Rightarrow> 32 word) \<Rightarrow> rat \<Rightarrow> 32 word" where
  "to_uint32 impl x = (if 0 \<le> x \<and> \<lfloor>x\<rfloor> < 2 ^ 32 then word_of_int \<lfloor>x\<rfloor> else impl x)"

definition duration_to_seconds :: "(rat \<Rightarrow> 32 word) \<Rightarrow> int \<Rightarrow> 32 word" where
  "duration_to_seconds impl v =
     (if v \<le> 0 then 0
      else (let seconds = to_uint32 impl (of_int (math_round (duration_seconds v)))
            in max seconds 1))"

definition seconds_to_duration :: "32 word \<Rightarrow> int" where
  "seconds_to_duration v = sint (of_int (uint v * 1000000000) :: 64 word)"

lemma seconds_to_duration_eq: "seconds_to_duration v = uint v * 1000000000"
proof -
  have "uint v < 2 ^ 32" using uint_bounded [of v] by simp
  then have "uint v * 1000000000 < 2 ^ 63" by simp
  then show ?thesis
    using signed_take_bit_int_eq_self [of 63 "uint v * 1000000000"] uint_ge_0 [of v]
    by (simp add: seconds_to_duration_def signed_of_int del: of_int_mult)
qed

definition rounded_seconds :: "int \<Rightarrow> int" where
  "rounded_seconds d = math_round (duration_seconds d)"

lemma math_round_of_int [simp]: "math_round (of_int k) = k"
  unfolding math_round_def by (rule floor_unique) simp_all

lemma math_round_mono: "x \<le> y \<Longrightarrow> math_round x \<le> math_round y"
  by (simp add: math_round_def floor_mono)

lemma nsec_fraction:
  "0 \<le> float_round 53 (of_int (d mod 1000000000) / 1000000000)"
  "float_round 53 (of_int (d mod 1000000000) / 1000000000) \<le> 1"
proof -
  have "of_int (d mod 1000000000) \<le> (of_int 1000000000 :: rat)"
    by (simp only: of_int_le_iff)
  then have "(of_int (d mod 1000000000) / 1000000000 :: rat) \<le> of_int 1" by simp
  from float_round_mono [OF this, of 53]
  show "float_round 53 (of_int (d mod 1000000000) / 1000000000) \<le> 1"
    using float_round_of_int [of 1 53] by simp
qed (simp add: float_round_nonneg)

lemma duration_seconds_bounds:
  assumes "0 \<le> d" and "d < 2 ^ 63"
  shows "of_int (d div 1000000000) \<le> duration_seconds d"
    and "duration_seconds d \<le> of_int (d div 1000000000 + 1)"
proof -
  let ?s = "d div 1000000000" and ?f = "float_round 53 (of_int (d mod 1000000000) / 1000000000)"
  have s: "0 \<le> ?s" "?s + 1 \<le> 2 ^ nat 53" using assms by simp_all
  have "float_round 53 (of_int ?s) \<le> float_round 53 (of_int ?s + ?f)"
    and "float_round 53 (of_int ?s + ?f) \<le> float_round 53 (of_int (?s + 1))"
    using nsec_fraction [of d] by (intro float_round_mono; simp)+
  then show "of_int ?s \<le> duration_seconds d" and "duration_seconds d \<le> of_int (?s + 1)"
    using s float_round_of_int [of ?s 53] float_round_of_int [of "?s + 1" 53]
    by (simp_all add: duration_seconds_def Let_def del: of_int_add)
qed

lemma rounded_seconds_bounds:
  assumes "0 \<le> d" and "d < 2 ^ 63"
  shows "d div 1000000000 \<le> rounded_seconds d"
    and "rounded_seconds d \<le> d div 1000000000 + 1"
  using duration_seconds_bounds [OF assms, THEN math_round_mono]
  by (simp_all add: rounded_seconds_def del: of_int_add)

lemma rounded_seconds_whole:
  assumes "0 \<le> k" and "k \<le> 2 ^ 53"
  shows "rounded_seconds (k * 1000000000) = k"
proof -
  have "float_round 53 0 = 0" by (simp add: float_round_def)
  then have "duration_seconds (k * 1000000000) = of_int k"
    using assms float_round_of_int [of k 53] by (simp add: duration_seconds_def)
  then show ?thesis by (simp add: rounded_seconds_def)
qed

lemma duration_seconds_mono:
  assumes "0 \<le> d" and "d \<le> d'" and "d' < 2 ^ 63"
  shows "duration_seconds d \<le> duration_seconds d'"
proof (cases "d div 1000000000 = d' div 1000000000")
  case True
  then have "d mod 1000000000 \<le> d' mod 1000000000"
    using assms(2) by (metis add_le_cancel_left mult_div_mod_eq)
  then have "(of_int (d mod 1000000000) / 1000000000 :: rat) \<le> of_int (d' mod 1000000000) / 1000000000"
    by (simp add: divide_right_mono)
  from float_round_mono [OF this, of 53] True show ?thesis
    by (simp add: duration_seconds_def Let_def float_round_mono)
next
  case False
  then have "d div 1000000000 + 1 \<le> d' div 1000000000"
    using assms(2) zdiv_mono1 [of d d' 1000000000] by simp
  then have "(of_int (d div 1000000000 + 1) :: rat) \<le> of_int (d' div 1000000000)"
    by (simp only: of_int_le_iff)
  then show ?thesis
    using duration_seconds_bounds [of d] duration_seconds_bounds [of d'] assms by linarith
qed

lemma rounded_seconds_mono:
  "0 \<le> d \<Longrightarrow> d \<le> d' \<Longrightarrow> d' < 2 ^ 63 \<Longrightarrow> rounded_seconds d \<le> rounded_seconds d'"
  by (simp add: rounded_seconds_def math_round_mono duration_seconds_mono)

text \<open>
  Up to 8388606 whole seconds (97 days) the float arithmetic does not disturb the rounding:
  the result is the nearest second, halves up.
\<close>

lemma float_round_le_exact:
  assumes "x \<le> of_int k * 2 powi q" and "0 \<le> k" and "k \<le> 2 ^ nat p" and "1 \<le> p"
  shows "float_round p x \<le> of_int k * 2 powi q"
  using float_round_mono [OF assms(1,4)] float_round_exact [OF assms(2-4)] by simp

lemma float_round_ge_exact:
  assumes "of_int k * 2 powi q \<le> x" and "0 \<le> k" and "k \<le> 2 ^ nat p" and "1 \<le> p"
  shows "of_int k * 2 powi q \<le> float_round p x"
  using float_round_mono [OF assms(1,4)] float_round_exact [OF assms(2-4)] by simp

lemma rounded_seconds_nearest:
  assumes d: "0 \<le> d" and small: "d div 1000000000 \<le> 8388606"
  shows "rounded_seconds d = (d + 500000000) div 1000000000"
proof -
  let ?s = "d div 1000000000" and ?n = "d mod 1000000000"
  let ?f = "float_round 53 (of_int ?n / 1000000000)"
  have s: "0 \<le> ?s" using d by simp
  have d63: "d < 2 ^ 63" using small by simp
  have dn: "d = ?s * 1000000000 + ?n" by simp
  note bounds = duration_seconds_bounds [OF d d63] rounded_seconds_bounds [OF d d63]
  have "d + 500000000 = (?n + 500000000) + ?s * 1000000000" by simp
  then have half_up: "(d + 500000000) div 1000000000 = ?s + (?n + 500000000) div 1000000000"
    by (metis div_mult_self1 add.commute zero_neq_numeral)
  have n: "0 \<le> ?n" "?n < 1000000000" by simp_all
  show ?thesis
  proof (cases "?n < 500000000")
    case True
    then have "?n \<le> 499999999" by simp
    then have "(of_int ?n :: rat) \<le> of_int 499999999" by (simp only: of_int_le_iff)
    then have "of_int ?n / 1000000000 \<le> of_int 536870911 * (2 :: rat) powi (- 30)"
      by (simp add: power_int_minus)
    then have "?f \<le> of_int 536870911 * 2 powi (- 30)"
      by (rule float_round_le_exact) simp_all
    then have "of_int ?s + ?f \<le> of_int (?s * 1073741824 + 536870911) * 2 powi (- 30)"
      by (simp add: power_int_minus field_simps)
    then have "float_round 53 (of_int ?s + ?f) \<le> of_int (?s * 1073741824 + 536870911) * 2 powi (- 30)"
      by (rule float_round_le_exact) (use s small in simp_all)
    also have "\<dots> < of_int ?s + 1 / 2"
      by (simp add: power_int_minus field_simps)
    finally have "math_round (duration_seconds d) < ?s + 1"
      unfolding math_round_def floor_less_iff by (simp add: duration_seconds_def Let_def)
    then have "rounded_seconds d = ?s"
      using bounds by (simp add: rounded_seconds_def)
    moreover have "(?n + 500000000) div 1000000000 = 0"
      using True n by (intro div_pos_pos_trivial) simp_all
    ultimately show ?thesis using half_up by simp
  next
    case False
    then have "500000000 \<le> ?n" by simp
    then have "(of_int 500000000 :: rat) \<le> of_int ?n" by (simp only: of_int_le_iff)
    then have "of_int 1 * (2 :: rat) powi (- 1) \<le> of_int ?n / 1000000000"
      by (simp add: power_int_minus)
    then have "of_int 1 * 2 powi (- 1) \<le> ?f"
      by (rule float_round_ge_exact) simp_all
    then have "of_int (?s * 2 + 1) * 2 powi (- 1) \<le> of_int ?s + ?f"
      by (simp add: power_int_minus field_simps)
    then have "of_int (?s * 2 + 1) * 2 powi (- 1) \<le> float_round 53 (of_int ?s + ?f)"
      by (rule float_round_ge_exact) (use s small in simp_all)
    then have "of_int ?s + 1 / 2 \<le> duration_seconds d"
      by (simp add: duration_seconds_def Let_def power_int_minus field_simps)
    then have "?s + 1 \<le> math_round (duration_seconds d)"
      by (simp add: math_round_def le_floor_iff)
    then have "rounded_seconds d = ?s + 1"
      using bounds by (simp add: rounded_seconds_def)
    moreover have "(?n + 500000000) div 1000000000 = 1"
      using False n by (intro int_div_pos_eq [where r = "?n - 500000000"]) simp_all
    ultimately show ?thesis using half_up by simp
  qed
qed

lemma to_uint32_floor:
  assumes "0 \<le> x" and "\<lfloor>x\<rfloor> \<le> 4294967295"
  shows "to_uint32 impl x = word_of_int \<lfloor>x\<rfloor>"
proof -
  have "(4294967295 :: int) < 2 ^ 32" by simp
  with assms(2) have "\<lfloor>x\<rfloor> < 2 ^ 32" by (rule le_less_trans)
  with assms(1) show ?thesis unfolding to_uint32_def by (simp only: if_P simp_thms)
qed

lemma to_uint32_of_int:
  "0 \<le> k \<Longrightarrow> k < 2 ^ 32 \<Longrightarrow> to_uint32 impl (of_int k) = word_of_int k"
  by (simp add: to_uint32_def)

lemma duration_to_seconds_eq:
  assumes "0 < d" and "d < 2 ^ 63" and "rounded_seconds d < 2 ^ 32"
  shows "duration_to_seconds impl d = word_of_int (max 1 (rounded_seconds d))"
proof -
  have "0 \<le> rounded_seconds d"
    using rounded_seconds_bounds(1) [of d] assms pos_imp_zdiv_nonneg_iff [of 1000000000 d] by linarith
  then show ?thesis
    using assms to_uint32_of_int [of "rounded_seconds d"]
    by (auto simp: duration_to_seconds_def rounded_seconds_def max_def word_le_def
      uint_word_of_int_eq take_bit_int_eq_self)
qed

section \<open>Jitter\<close>

datatype f32 = NaN32 | PosInf32 | NegInf32 | Finite32 rat

datatype ttl_error = InvalidJitterPercent f32

record ttl_jitterer =
  jitter_base :: "32 word"
  jitter_choose :: "32 word"

text \<open>Comparisons with NaN are false.\<close>

fun f32_neg :: "f32 \<Rightarrow> bool" where
  "f32_neg NegInf32 = True"
| "f32_neg (Finite32 q) = (q < 0)"
| "f32_neg _ = False"

fun f32_ge_one :: "f32 \<Rightarrow> bool" where
  "f32_ge_one PosInf32 = True"
| "f32_ge_one (Finite32 q) = (1 \<le> q)"
| "f32_ge_one _ = False"

fun f32_zero :: "f32 \<Rightarrow> bool" where
  "f32_zero (Finite32 q) = (q = 0)"
| "f32_zero _ = False"

text \<open>
  An arithmetic operation on float32. The infinities never reach one: \<open>NewTTLJitterer\<close>
  rejects them first, so that the only non-finite operand is NaN.
\<close>

fun f32_op :: "(rat \<Rightarrow> rat \<Rightarrow> rat) \<Rightarrow> f32 \<Rightarrow> f32 \<Rightarrow> f32" where
  "f32_op f (Finite32 a) (Finite32 b) = Finite32 (float_round 24 (f a b))"
| "f32_op f _ _ = NaN32"

definition f32_of_uint32 :: "32 word \<Rightarrow> f32" where
  "f32_of_uint32 v = Finite32 (float_round 24 (of_int (uint v)))"

fun f32_to_uint32 :: "(f32 \<Rightarrow> 32 word) \<Rightarrow> f32 \<Rightarrow> 32 word" where
  "f32_to_uint32 impl (Finite32 q) = to_uint32 (\<lambda>q. impl (Finite32 q)) q"
| "f32_to_uint32 impl x = impl x"

definition new_ttl_jitterer ::
  "(f32 \<Rightarrow> 32 word) \<Rightarrow> 32 word \<Rightarrow> f32 \<Rightarrow> ttl_jitterer \<times> ttl_error option" where
  "new_ttl_jitterer impl value percent =
     (let j = \<lparr>jitter_base = 0, jitter_choose = 0\<rparr> in
      if f32_neg percent \<or> f32_ge_one percent then (j, Some (InvalidJitterPercent percent))
      else if f32_zero percent \<or> value = 0 then (j\<lparr>jitter_base := value\<rparr>, None)
      else
        (let base = f32_to_uint32 impl
               (f32_op (*) (f32_op (-) (Finite32 1) percent) (f32_of_uint32 value));
             mx = f32_to_uint32 impl
               (f32_op (*) (f32_op (+) (Finite32 1) percent) (f32_of_uint32 value))
         in (j\<lparr>jitter_base := base, jitter_choose := (mx - base) + 1\<rparr>, None)))"

definition jitter_range :: "ttl_jitterer \<Rightarrow> 32 word \<times> 32 word" where
  "jitter_range j =
     (if jitter_choose j = 0 then (jitter_base j, jitter_base j)
      else (jitter_base j, jitter_base j + jitter_choose j - 1))"

text \<open>\<open>rand.Uint32N(n)\<close> for \<open>n > 0\<close> is any number below \<open>n\<close>: \<open>r\<close> is the random word.\<close>

definition uint32n :: "32 word \<Rightarrow> 32 word \<Rightarrow> 32 word" where
  "uint32n r n = r mod n"

definition jitter_ttl :: "ttl_jitterer \<Rightarrow> 32 word \<Rightarrow> 32 word" where
  "jitter_ttl j r =
     (if jitter_choose j = 0 then jitter_base j
      else jitter_base j + uint32n r (jitter_choose j))"

text \<open>A jitterer whose range does not wrap around.\<close>

definition jitter_wf :: "ttl_jitterer \<Rightarrow> bool" where
  "jitter_wf j \<longleftrightarrow> unat (jitter_base j) + unat (jitter_choose j) \<le> 2 ^ 32"

subsection \<open>The contract of a TTL source\<close>

text \<open>
  The DNS handlers draw one TTL for each response and rely on it lying in the advertised
  range, for every random choice.
\<close>

locale ttl_source =
  fixes wf :: "'j \<Rightarrow> bool"
    and bounds :: "'j \<Rightarrow> 32 word \<times> 32 word"
    and draw :: "'j \<Rightarrow> 32 word \<Rightarrow> 32 word"
  assumes draw_ge: "wf j \<Longrightarrow> fst (bounds j) \<le> draw j r"
    and draw_le: "wf j \<Longrightarrow> draw j r \<le> snd (bounds j)"
    and draw_onto: "wf j \<Longrightarrow> fst (bounds j) \<le> t \<Longrightarrow> t \<le> snd (bounds j) \<Longrightarrow> \<exists>r. draw j r = t"
begin

lemma range_draw: "wf j \<Longrightarrow> range (draw j) = {fst (bounds j)..snd (bounds j)}"
  using draw_ge draw_le draw_onto by (auto simp: image_iff) metis

end

lemma jitter_ttl_nat:
  assumes "jitter_wf j" and "jitter_choose j \<noteq> 0"
  shows "unat (jitter_ttl j r) = unat (jitter_base j) + unat r mod unat (jitter_choose j)"
proof -
  have "unat r mod unat (jitter_choose j) < unat (jitter_choose j)"
    using assms(2) by (simp add: unat_gt_0)
  then have "unat (jitter_base j) + unat (r mod jitter_choose j) < 2 ^ 32"
    using assms(1) by (simp add: jitter_wf_def unat_mod_distrib)
  then show ?thesis
    using assms(2) unat_add_lem [of "jitter_base j" "r mod jitter_choose j"]
    by (simp add: jitter_ttl_def uint32n_def unat_mod_distrib)
qed

lemma jitter_hi_nat:
  assumes "jitter_wf j" and "jitter_choose j \<noteq> 0"
  shows "unat (snd (jitter_range j)) = unat (jitter_base j) + unat (jitter_choose j) - 1"
proof -
  have pos: "1 \<le> unat (jitter_choose j)" using assms(2) by (simp add: unat_gt_0 Suc_leI)
  have "unat (jitter_choose j - 1) = unat (jitter_choose j) - 1"
    using assms(2) by (simp add: unat_minus_one)
  moreover from this pos have "unat (jitter_base j) + unat (jitter_choose j - 1) < 2 ^ 32"
    using assms(1) by (simp add: jitter_wf_def)
  ultimately show ?thesis
    using assms(2) pos unat_add_lem [of "jitter_base j" "jitter_choose j - 1"]
    by (simp add: jitter_range_def add_diff_eq)
qed

interpretation jt: ttl_source jitter_wf jitter_range jitter_ttl
proof unfold_locales
  fix j r t assume wf: "jitter_wf j"
  show "fst (jitter_range j) \<le> jitter_ttl j r"
    using jitter_ttl_nat [OF wf, of r]
    by (cases "jitter_choose j = 0") (auto simp: word_le_nat_alt jitter_range_def jitter_ttl_def)
  show "jitter_ttl j r \<le> snd (jitter_range j)"
  proof (cases "jitter_choose j = 0")
    case False
    then have "unat r mod unat (jitter_choose j) < unat (jitter_choose j)"
      by (simp add: unat_gt_0)
    with False show ?thesis
      using jitter_ttl_nat [OF wf, of r] jitter_hi_nat [OF wf] by (simp add: word_le_nat_alt)
  qed (simp add: jitter_range_def jitter_ttl_def)
  assume t: "fst (jitter_range j) \<le> t" "t \<le> snd (jitter_range j)"
  show "\<exists>r. jitter_ttl j r = t"
  proof (cases "jitter_choose j = 0")
    case True
    with t show ?thesis by (auto simp: jitter_range_def jitter_ttl_def)
  next
    case False
    have lo: "unat (jitter_base j) \<le> unat t"
      using t(1) False by (simp add: jitter_range_def word_le_nat_alt)
    then have diff: "unat (t - jitter_base j) = unat t - unat (jitter_base j)"
      by (simp add: unat_sub word_le_nat_alt)
    have "unat t \<le> unat (jitter_base j) + unat (jitter_choose j) - 1"
      using t(2) jitter_hi_nat [OF wf False] by (simp add: word_le_nat_alt)
    then have "unat (t - jitter_base j) < unat (jitter_choose j)"
      using diff lo False by (simp add: unat_gt_0) (metis False Suc_pred add.commute
        add_diff_inverse_nat less_diff_conv2 less_Suc_eq_le add_gr_0 unat_gt_0)
    then have "unat (jitter_ttl j (t - jitter_base j)) = unat t"
      using jitter_ttl_nat [OF wf False, of "t - jitter_base j"] diff lo by simp
    then show ?thesis by (auto simp: word_unat_eq_iff)
  qed
qed

subsection \<open>What NewTTLJitterer constructs\<close>

definition jitter_bound :: "(rat \<Rightarrow> rat \<Rightarrow> rat) \<Rightarrow> rat \<Rightarrow> int \<Rightarrow> rat" where
  "jitter_bound f p value =
     float_round 24 (float_round 24 (f 1 p) * float_round 24 (of_int value))"

lemma float_round_32_value:
  assumes "k \<le> 2147483520"
  shows "float_round 24 (of_int k) \<le> 2147483520"
proof -
  have "(of_int k :: rat) \<le> of_int 2147483520" using assms by (simp only: of_int_le_iff)
  then show ?thesis using float_round_le_exact [of "of_int k" 16777215 7 24] by simp
qed

lemma float_round_percent:
  assumes "0 < p" and "p < 1"
  shows "0 \<le> float_round 24 (1 - p)" "float_round 24 (1 - p) \<le> 1"
    "1 \<le> float_round 24 (1 + p)" "float_round 24 (1 + p) \<le> 2"
  using assms float_round_le_exact [of "1 - p" 1 0 24] float_round_ge_exact [of 1 0 "1 + p" 24]
    float_round_le_exact [of "1 + p" 1 1 24]
  by (simp_all add: float_round_nonneg)

lemma jitter_bound_range:
  assumes p: "0 < p" "p < 1" and v: "v \<le> 2147483520"
  shows "0 \<le> jitter_bound (-) p v" and "jitter_bound (-) p v \<le> jitter_bound (+) p v"
    and "jitter_bound (+) p v \<le> 4294967040"
proof -
  let ?v = "float_round 24 (of_int v)"
  note fp = float_round_percent [OF p]
  have v0: "0 \<le> ?v" by (simp add: float_round_nonneg)
  show "0 \<le> jitter_bound (-) p v" by (simp add: jitter_bound_def float_round_nonneg)
  have "float_round 24 (1 - p) * ?v \<le> float_round 24 (1 + p) * ?v"
    using fp v0 by (intro mult_right_mono) linarith+
  then show "jitter_bound (-) p v \<le> jitter_bound (+) p v"
    by (simp add: jitter_bound_def float_round_mono)
  have "float_round 24 (1 + p) * ?v \<le> 2 * 2147483520"
    using fp v0 float_round_32_value [OF v] by (intro mult_mono) linarith+
  then show "jitter_bound (+) p v \<le> 4294967040"
    using float_round_le_exact [of "float_round 24 (1 + p) * ?v" 16777215 8 24]
    by (simp add: jitter_bound_def)
qed

text \<open>TTLs up to \<open>2\<^sup>2\<^sup>4\<close> are exact as float32, so the jittered range encloses them.\<close>

lemma jitter_bound_encloses:
  assumes p: "0 < p" "p < 1" and v: "0 \<le> v" "v \<le> 2 ^ 24"
  shows "jitter_bound (-) p v \<le> of_int v" and "of_int v \<le> jitter_bound (+) p v"
proof -
  let ?v = "of_int v :: rat"
  note fp = float_round_percent [OF p]
  have ex: "float_round 24 ?v = ?v"
    using v by (intro float_round_of_int) simp_all
  have "float_round 24 (1 - p) * ?v \<le> 1 * ?v" and "1 * ?v \<le> float_round 24 (1 + p) * ?v"
    using fp v by (intro mult_right_mono; simp)+
  then have "float_round 24 (float_round 24 (1 - p) * ?v) \<le> float_round 24 ?v"
    and "float_round 24 ?v \<le> float_round 24 (float_round 24 (1 + p) * ?v)"
    by (simp_all add: float_round_mono)
  then show "jitter_bound (-) p v \<le> ?v" and "?v \<le> jitter_bound (+) p v"
    by (simp_all add: jitter_bound_def ex)
qed

lemma jitter_floor_nat:
  assumes p: "0 < p" "p < 1" and v: "v \<le> 2147483520"
  shows "0 \<le> \<lfloor>jitter_bound (-) p v\<rfloor>" and "\<lfloor>jitter_bound (-) p v\<rfloor> \<le> \<lfloor>jitter_bound (+) p v\<rfloor>"
    and "\<lfloor>jitter_bound (+) p v\<rfloor> \<le> 4294967040"
proof -
  note b = jitter_bound_range [OF p v]
  show "0 \<le> \<lfloor>jitter_bound (-) p v\<rfloor>" using b(1) by simp
  show "\<lfloor>jitter_bound (-) p v\<rfloor> \<le> \<lfloor>jitter_bound (+) p v\<rfloor>" using b(2) by (rule floor_mono)
  show "\<lfloor>jitter_bound (+) p v\<rfloor> \<le> 4294967040"
    using floor_mono [OF b(3)] by simp
qed

lemma new_ttl_jitterer_eq:
  assumes p: "0 < p" "p < 1" and v: "uint v \<le> 2147483520" and nz: "v \<noteq> 0"
  shows "new_ttl_jitterer impl v (Finite32 p) =
    (\<lparr>jitter_base = word_of_int \<lfloor>jitter_bound (-) p (uint v)\<rfloor>,
      jitter_choose = word_of_int (\<lfloor>jitter_bound (+) p (uint v)\<rfloor> - \<lfloor>jitter_bound (-) p (uint v)\<rfloor> + 1)\<rparr>, None)"
proof -
  note b = jitter_bound_range [OF p v]
  have "to_uint32 impl' (jitter_bound (-) p (uint v)) = word_of_int \<lfloor>jitter_bound (-) p (uint v)\<rfloor>"
    and "to_uint32 impl' (jitter_bound (+) p (uint v)) = word_of_int \<lfloor>jitter_bound (+) p (uint v)\<rfloor>"
    for impl'
    using b jitter_floor_nat [OF p v] by (intro to_uint32_floor; linarith)+
  moreover have "word_of_int (h - l + 1) = (word_of_int h - word_of_int l + 1 :: 32 word)" for h l
    by simp
  ultimately show ?thesis
    using p nz
    by (simp only: new_ttl_jitterer_def Let_def f32_of_uint32_def f32_op.simps
      f32_to_uint32.simps f32_neg.simps f32_ge_one.simps f32_zero.simps ttl_jitterer.simps
      jitter_bound_def [symmetric]) simp
qed

lemma new_ttl_jitterer_wf:
  assumes "0 < p" and "p < 1" and "uint v \<le> 2147483520" and "v \<noteq> 0"
    and run: "new_ttl_jitterer impl v (Finite32 p) = (j, err)"
  shows "err = None" and "jitter_wf j" and "jitter_choose j \<noteq> 0"
    and "uint (fst (jitter_range j)) = \<lfloor>jitter_bound (-) p (uint v)\<rfloor>"
    and "uint (snd (jitter_range j)) = \<lfloor>jitter_bound (+) p (uint v)\<rfloor>"
proof -
  let ?lo = "\<lfloor>jitter_bound (-) p (uint v)\<rfloor>" and ?hi = "\<lfloor>jitter_bound (+) p (uint v)\<rfloor>"
  note f = jitter_floor_nat [OF assms(1-3)]
  have w: "uint (word_of_int k :: 32 word) = k" if "0 \<le> k" "k \<le> 4294967040 + 1" for k
    using that by (simp add: uint_word_of_int_eq take_bit_int_eq_self)
  have j: "j = \<lparr>jitter_base = word_of_int ?lo, jitter_choose = word_of_int (?hi - ?lo + 1)\<rparr>"
    and "err = None"
    using run new_ttl_jitterer_eq [OF assms(1-4), of impl] by auto
  then show "err = None" by simp
  have base: "uint (jitter_base j) = ?lo" and choose: "uint (jitter_choose j) = ?hi - ?lo + 1"
    using f w [of ?lo] w [of "?hi - ?lo + 1"]
    by (simp_all only: j ttl_jitterer.simps)
  show nz: "jitter_choose j \<noteq> 0"
    using choose f by (auto simp flip: uint_0_iff)
  show wf: "jitter_wf j"
  proof -
    have "unat (jitter_base j) + unat (jitter_choose j) \<le> 4294967296"
      using base choose f by (simp only: unat_eq_nat_uint)
    then show ?thesis by (simp add: jitter_wf_def)
  qed
  show "uint (fst (jitter_range j)) = ?lo" using base nz by (simp add: jitter_range_def)
  have "int (unat (snd (jitter_range j))) = int (unat (jitter_base j) + unat (jitter_choose j) - 1)"
    using jitter_hi_nat [OF wf nz] by simp
  then show "uint (snd (jitter_range j)) = ?hi"
    using base choose f uint_ge_0 [of "snd (jitter_range j)"] by (simp only: unat_eq_nat_uint)
qed

section \<open>Properties\<close>

text \<open>
  Converting a TTL to a duration and back gives the TTL, for every \<open>uint32\<close>
  value, whatever the implementation does with unrepresentable floats.
\<close>

lemma seconds_duration_roundtrip: "duration_to_seconds impl (seconds_to_duration v) = v"
proof (cases "v = 0")
  case True
  then show ?thesis by (simp add: seconds_to_duration_eq duration_to_seconds_def)
next
  case False
  then have pos: "0 < uint v" by (simp add: word_neq_0_conv word_less_def)
  have lt: "uint v < 2 ^ 32" using uint_bounded [of v] by simp
  have sec: "rounded_seconds (uint v * 1000000000) = uint v"
    using pos lt by (intro rounded_seconds_whole) simp_all
  show ?thesis
    using duration_to_seconds_eq [of "uint v * 1000000000" impl] pos lt sec
    by (simp add: seconds_to_duration_eq)
qed

text \<open>
  Property C38: up to 97 days, \<open>DurationToSeconds\<close> returns the nearest whole second, halves
  up, and never less than one: the float64 arithmetic does not show.
\<close>

theorem duration_to_seconds_nearest:
  assumes "0 < d" and "d div 1000000000 \<le> 8388606"
  shows "uint (duration_to_seconds impl d) = max 1 ((d + 500000000) div 1000000000)"
proof -
  have near: "rounded_seconds d = (d + 500000000) div 1000000000"
    using assms by (intro rounded_seconds_nearest) simp_all
  have d63: "d < 2 ^ 63" using assms(2) by simp
  have "rounded_seconds d \<le> 8388607"
    using rounded_seconds_bounds(2) [of d] assms d63 by simp
  then show ?thesis
    using duration_to_seconds_eq [OF assms(1) d63, of impl] near
    by (simp add: uint_word_of_int_eq take_bit_int_eq_self max_def)
qed

theorem duration_to_seconds_nearest_witness:
  "uint (duration_to_seconds (\<lambda>_. 7) 1500000000) = 2"
  using duration_to_seconds_nearest [of 1500000000 "\<lambda>_. 7"] by simp

text \<open>
  \<open>DurationToSeconds\<close> is monotone over all durations whose rounded seconds fit
  in a \<open>uint32\<close>.
\<close>

theorem duration_to_seconds_mono:
  assumes "d \<le> d'" and "d' < 2 ^ 63" and "rounded_seconds d' < 2 ^ 32"
  shows "duration_to_seconds impl d \<le> duration_to_seconds impl d'"
proof (cases "d \<le> 0")
  case True
  then show ?thesis by (simp add: duration_to_seconds_def)
next
  case False
  then have pos: "0 < d" "0 < d'" using assms(1) by simp_all
  have le: "rounded_seconds d \<le> rounded_seconds d'"
    using assms pos by (intro rounded_seconds_mono) simp_all
  then have "duration_to_seconds impl d = word_of_int (max 1 (rounded_seconds d))"
    and "duration_to_seconds impl d' = word_of_int (max 1 (rounded_seconds d'))"
    using assms pos by (intro duration_to_seconds_eq; simp)+
  then show ?thesis
    using le assms(3) by (auto simp: word_le_def uint_word_of_int_eq take_bit_int_eq_self max_def)
qed

theorem duration_to_seconds_mono_witness:
  "duration_to_seconds (\<lambda>_. 0) 1 \<le> duration_to_seconds (\<lambda>_. 0) 2000000000"
proof -
  have "rounded_seconds 2000000000 = 2"
    using rounded_seconds_nearest [of 2000000000] by simp
  then show ?thesis by (intro duration_to_seconds_mono) simp_all
qed

text \<open>
  \<open>NewTTLJitterer\<close> accepts exactly the fractions in \<open>[0, 1)\<close> and NaN. (Its
  comment promises an error outside that range; NaN passes both comparisons.)
\<close>

lemma new_ttl_jitterer_error_iff:
  "snd (new_ttl_jitterer impl value percent) = None \<longleftrightarrow>
     percent = NaN32 \<or> (\<exists>q. percent = Finite32 q \<and> 0 \<le> q \<and> q < 1)"
  by (cases percent) (auto simp: new_ttl_jitterer_def Let_def)

text \<open>
  Property C37: a jitterer for a fraction strictly between 0 and 1 and a non-zero TTL up to
  \<open>2\<^sup>3\<^sup>1 - 128\<close> draws exactly the TTLs of the interval that \<open>Range\<close> reports, and the ends
  of the interval are the truncated float32 products, with no wrap-around.
\<close>

theorem jitter_draws_range:
  assumes "0 < p" and "p < 1" and "uint v \<le> 2147483520" and "v \<noteq> 0"
    and "new_ttl_jitterer impl v (Finite32 p) = (j, err)"
  shows "err = None \<and>
    range (jitter_ttl j) = {fst (jitter_range j)..snd (jitter_range j)} \<and>
    fst (jitter_range j) \<le> snd (jitter_range j) \<and>
    uint (fst (jitter_range j)) = \<lfloor>jitter_bound (-) p (uint v)\<rfloor> \<and>
    uint (snd (jitter_range j)) = \<lfloor>jitter_bound (+) p (uint v)\<rfloor>"
  using new_ttl_jitterer_wf [OF assms] jt.range_draw [of j] jitter_floor_nat [OF assms(1-3)]
  by (simp add: word_le_def)

text \<open>
  For TTLs up to \<open>2\<^sup>2\<^sup>4\<close> seconds the jittered range encloses the configured TTL.
\<close>

lemma jitter_encloses_value:
  assumes "0 < p" and "p < 1" and "uint v \<le> 2 ^ 24" and "v \<noteq> 0"
    and "new_ttl_jitterer impl v (Finite32 p) = (j, err)"
  shows "fst (jitter_range j) \<le> v \<and> v \<le> snd (jitter_range j)"
proof -
  have v: "uint v \<le> 2147483520" using assms(3) by simp
  note wf = new_ttl_jitterer_wf(4,5) [OF assms(1,2) v assms(4,5)]
  show ?thesis
    using wf jitter_bound_encloses [OF assms(1,2) uint_ge_0 assms(3)]
    unfolding word_le_def by (simp add: floor_le_iff le_floor_iff)
qed

theorem jitter_draws_range_witness:
  "range (jitter_ttl (fst (new_ttl_jitterer (\<lambda>_. 0) 3600 (Finite32 (1 / 8))))) = {3150..4050}"
proof -
  let ?j = "fst (new_ttl_jitterer (\<lambda>_. 0) 3600 (Finite32 (1 / 8)))"
  have "jitter_range ?j = (3150, 4050)" by code_simp
  then show ?thesis
    using jitter_draws_range [of "1 / 8" 3600 "\<lambda>_. 0" ?j
      "snd (new_ttl_jitterer (\<lambda>_. 0) 3600 (Finite32 (1 / 8)))"] by simp
qed

text \<open>
  The documented example. For a TTL of 3600 and the float32 nearest to 0.1, the
  range is 3240 to 3960.
\<close>

theorem jitter_documented_example:
  "jitter_range (fst (new_ttl_jitterer impl 3600 (Finite32 (13421773 / 2 ^ 27)))) = (3240, 3960)"
  by code_simp

text \<open>
  Durations beyond the \<open>uint32\<close> range: the result is whatever the implementation's
  float-to-integer conversion gives, not a truncation.
\<close>

lemma duration_to_seconds_overflow:
  assumes "0 < d" and "2 ^ 32 \<le> rounded_seconds d"
  shows "duration_to_seconds impl d = max (impl (of_int (rounded_seconds d))) 1"
proof -
  have "to_uint32 impl (of_int (rounded_seconds d)) = impl (of_int (rounded_seconds d))"
    using assms(2) by (simp add: to_uint32_def)
  then show ?thesis using assms(1) by (simp add: duration_to_seconds_def rounded_seconds_def)
qed

end
