(* ===== verification/Configuration.thy ===== *)
theory Configuration
  imports Hashy_Prelude TTL
begin

text \<open>
  The configuration objects (\<open>config/config.go\<close>, the projections of \<open>config/provide.go\<close>) and
  what the command line does to them (\<open>cmd/hashy/commandLine.go\<close>). A Go map is a \<open>gomap\<close>; a
  \<open>time.Duration\<close> is a number of nanoseconds. The logging configuration is the parameter \<open>'l\<close>,
  the type of the logging package's configuration.
\<close>

record zone_config =
  zc_domain :: string
  zc_ttl :: int
  zc_ttl_jitter :: f32

record udp_config =
  udp_address :: string
  udp_network :: string
  udp_size :: int
  udp_read_timeout :: int
  udp_idle_timeout :: int
  udp_reuse_port :: bool
  udp_reuse_addr :: bool

type_synonym udp_servers = "(string, udp_config) gomap"

record tcp_config =
  tcp_address :: string
  tcp_network :: string
  tcp_max_queries :: int
  tcp_read_timeout :: int
  tcp_idle_timeout :: int
  tcp_reuse_port :: bool
  tcp_reuse_addr :: bool

type_synonym tcp_servers = "(string, tcp_config) gomap"

record dns_config =
  dc_zone :: zone_config
  dc_udp :: udp_servers
  dc_tcp :: tcp_servers

record groups_config =
  gc_discovery_domain :: string
  gc_vnodes :: int
  gc_check_interval :: int
  gc_zone_files :: "string list"
  gc_origin :: string
  gc_default_ttl :: int

record 'l main_config =
  mc_dns :: dns_config
  mc_groups :: groups_config
  mc_logging :: 'l

text \<open>The projections that \<open>config.Provide\<close> registers.\<close>

definition provide_dns :: "'l main_config \<Rightarrow> dns_config" where
  "provide_dns m = mc_dns m"

definition provide_groups :: "'l main_config \<Rightarrow> groups_config" where
  "provide_groups m = mc_groups m"

definition provide_logging :: "'l main_config \<Rightarrow> 'l" where
  "provide_logging m = mc_logging m"

definition provide_zone :: "dns_config \<Rightarrow> zone_config" where
  "provide_zone d = dc_zone d"

definition provide_udp :: "dns_config \<Rightarrow> udp_servers" where
  "provide_udp d = dc_udp d"

definition provide_tcp :: "dns_config \<Rightarrow> tcp_servers" where
  "provide_tcp d = dc_tcp d"

section \<open>The command line\<close>

record command_line =
  cl_verbose :: bool
  cl_debug :: "bool option"
  cl_conf_file :: string
  cl_zone_files :: "string list"
  cl_check_interval :: int

definition decorate_groups :: "command_line \<Rightarrow> groups_config \<Rightarrow> groups_config" where
  "decorate_groups cl gcfg =
     (let gcfg = gcfg\<lparr>gc_zone_files := gc_zone_files gcfg @ cl_zone_files cl\<rparr>
      in if cl_check_interval cl > 0 then gcfg\<lparr>gc_check_interval := cl_check_interval cl\<rparr>
         else gcfg)"

text \<open>The level names are those of the zap package.\<close>

definition decorate_level :: "string \<Rightarrow> string \<Rightarrow> command_line \<Rightarrow> string \<Rightarrow> string" where
  "decorate_level debug_level info_level cl level =
     (case cl_debug cl of
        Some True \<Rightarrow> debug_level
      | Some False \<Rightarrow> info_level
      | None \<Rightarrow> level)"

text \<open>
  Reading the configuration. The viper package is a parameter: \<open>'v\<close> is its object, changed by each
  call, \<open>'e\<close> are its errors; \<open>vp_not_found\<close> recognises \<open>ConfigFileNotFoundError\<close>.
\<close>

record ('v, 'e) viper_api =
  vp_new :: 'v
  vp_set_config_file :: "string \<Rightarrow> 'v \<Rightarrow> 'v"
  vp_set_config_type :: "string \<Rightarrow> 'v \<Rightarrow> 'v"
  vp_set_config_name :: "string \<Rightarrow> 'v \<Rightarrow> 'v"
  vp_add_config_path :: "string \<Rightarrow> 'v \<Rightarrow> 'v"
  vp_read_in_config :: "'v \<Rightarrow> 'e option \<times> 'v"
  vp_read_config :: "string \<Rightarrow> 'v \<Rightarrow> 'e option \<times> 'v"
  vp_not_found :: "'e \<Rightarrow> bool"

text \<open>\<open>default_config\<close> is the embedded \<open>defaultConfig.yaml\<close>. The error is returned beside the object.\<close>

definition new_viper :: "('v, 'e) viper_api \<Rightarrow> string \<Rightarrow> command_line \<Rightarrow> 'v \<times> 'e option" where
  "new_viper vp default_config cl =
     (let v = vp_new vp;
          v = (if 0 < length (cl_conf_file cl) then vp_set_config_file vp (cl_conf_file cl) v
               else
                 (let v = vp_set_config_type vp ''yaml'' v;
                      v = vp_set_config_name vp ''hashy'' v;
                      v = vp_add_config_path vp ''.'' v;
                      v = vp_add_config_path vp ''$HOME/.hashy'' v
                  in vp_add_config_path vp ''/etc/hashy'' v))
      in case vp_read_in_config vp v of
           (None, v) \<Rightarrow> (v, None)
         | (Some err, v) \<Rightarrow>
             if 0 < length (cl_conf_file cl) then (v, Some err)
             else if vp_not_found vp err then
               (let v = vp_set_config_type vp ''yaml'' v;
                    (err, v) = vp_read_config vp default_config v
                in (v, err))
             else (v, Some err))"

text \<open>The object that searches for a configuration file; the current directory comes first.\<close>

definition searching_viper :: "('v, 'e) viper_api \<Rightarrow> 'v" where
  "searching_viper vp =
     foldl (\<lambda>v path. vp_add_config_path vp path v)
       (vp_set_config_name vp ''hashy'' (vp_set_config_type vp ''yaml'' (vp_new vp)))
       [''.'', ''$HOME/.hashy'', ''/etc/hashy'']"

text \<open>
  A file that is named is the only one that is read, and its errors are final; without one the
  embedded default is read if and only if the search finds no file, so a file that is found and
  broken is an error too.
\<close>

lemma new_viper_named:
  "cl_conf_file cl \<noteq> [] \<Longrightarrow>
   new_viper vp default_config cl =
     (case vp_read_in_config vp (vp_set_config_file vp (cl_conf_file cl) (vp_new vp)) of (err, v) \<Rightarrow> (v, err))"
  by (simp add: new_viper_def Let_def split: prod.split option.split)

lemma new_viper_search:
  "cl_conf_file cl = [] \<Longrightarrow>
   new_viper vp default_config cl =
     (case vp_read_in_config vp (searching_viper vp) of
        (None, v) \<Rightarrow> (v, None)
      | (Some err, v) \<Rightarrow>
          if vp_not_found vp err
          then (case vp_read_config vp default_config (vp_set_config_type vp ''yaml'' v) of (err, v) \<Rightarrow> (v, err))
          else (v, Some err))"
  by (simp add: new_viper_def searching_viper_def Let_def split: prod.split option.split)

end
