(* ===== verification/File_Ingester.thy ===== *)
theory File_Ingester
  imports Collector_Properties Locator Configuration
begin

text \<open>
  The file ingester (\<open>service/fileIngester.go\<close>): it expands globs, parses every zone file,
  collects the records and, when something changed, hands the built groups to its listeners.

  The outside world is a parameter, the record \<open>ingest_env\<close>: the file system and the
  environment variables of the operating system, the cancellation of the context, and the zone
  parser and name functions of the DNS package. One call of \<open>Ingest\<close> sees one \<open>ingest_env\<close>.
\<close>

section \<open>The checksum\<close>

text \<open>Adler-32 (\<open>hash/adler32\<close>): two sums modulo 65521.\<close>

type_synonym digest = "nat \<times> nat"

definition adler_new :: digest where
  "adler_new = (1, 0)"

definition adler_write :: "digest \<Rightarrow> string \<Rightarrow> digest" where
  "adler_write d bytes =
     foldl (\<lambda>(a, b) c. (let a = (a + of_char c) mod 65521 in (a, (b + a) mod 65521))) d bytes"

definition adler_value :: "digest \<Rightarrow> 32 word" where
  "adler_value d = word_of_nat (snd d * 65536 + fst d)"

definition adler32 :: "string \<Rightarrow> 32 word" where
  "adler32 bytes = adler_value (adler_write adler_new bytes)"

lemma adler_write_append: "adler_write d (xs @ ys) = adler_write (adler_write d xs) ys"
  by (simp add: adler_write_def)

lemma adler_write_Nil [simp]: "adler_write d [] = d"
  by (simp add: adler_write_def)

section \<open>The outside world\<close>

text \<open>
  What the zone parser does with one file: the pairs it yields, and the bytes it has read from
  the file once it has yielded a number of them (a checksum is computed over what is read).
\<close>

record 'e parsed_zone =
  pz_items :: "(rr option \<times> 'e option) list"
  pz_read :: "nat \<Rightarrow> string"

record 'e ingest_env =
  env_expand :: "string \<Rightarrow> string"
  env_fqdn :: "string \<Rightarrow> string"
  env_glob :: "string \<Rightarrow> 'e + string list"
  env_ctx_err :: "nat \<Rightarrow> 'e option"
  env_open :: "string \<Rightarrow> 'e + string"
  env_parse :: "string \<Rightarrow> string \<Rightarrow> string \<Rightarrow> 32 word \<Rightarrow> 'e parsed_zone"

datatype 'e ingest_error =
    GlobError 'e
  | ContextError 'e
  | OpenError 'e
  | ParseError 'e
  | BadDefinition definition_error

section \<open>State and construction\<close>

text \<open>\<open>'l\<close> is the state of a listener; the checksummer is always Adler-32.\<close>

record 'l file_ingester =
  fi_globs :: "string list"
  fi_origin :: string
  fi_ttl :: "32 word"
  fi_domain :: string
  fi_first :: bool
  fi_checksum :: "32 word"
  fi_listeners :: "'l list"

definition default_discovery_domain :: string where
  "default_discovery_domain = ''_hashy.discover''"

definition default_file_ingester_origin :: string where
  "default_file_ingester_origin = []"

text \<open>Five minutes.\<close>

definition default_file_ingester_ttl :: int where
  "default_file_ingester_ttl = 300000000000"

type_synonym ('l, 'x) ingester_option = "'l file_ingester \<Rightarrow> 'x + 'l file_ingester"

definition with_globs :: "'e ingest_env \<Rightarrow> string list \<Rightarrow> ('l, 'x) ingester_option" where
  "with_globs env more_globs fi =
     Inr (fi\<lparr>fi_globs := foldl (\<lambda>gs m. gs @ [env_expand env m]) (fi_globs fi) more_globs\<rparr>)"

definition with_origin :: "string \<Rightarrow> ('l, 'x) ingester_option" where
  "with_origin origin fi = Inr (fi\<lparr>fi_origin := origin\<rparr>)"

definition with_ttl :: "(rat \<Rightarrow> 32 word) \<Rightarrow> int \<Rightarrow> ('l, 'x) ingester_option" where
  "with_ttl impl ttl fi = Inr (fi\<lparr>fi_ttl := duration_to_seconds impl ttl\<rparr>)"

definition with_discovery_domain :: "'e ingest_env \<Rightarrow> string \<Rightarrow> ('l, 'x) ingester_option" where
  "with_discovery_domain env domain fi =
     (if 0 < length domain then Inr (fi\<lparr>fi_domain := env_fqdn env domain\<rparr>)
      else Inr (fi\<lparr>fi_domain := []\<rparr>))"

definition with_ingest_listeners :: "'l list \<Rightarrow> ('l, 'x) ingester_option" where
  "with_ingest_listeners more_listeners fi = Inr (fi\<lparr>fi_listeners := fi_listeners fi @ more_listeners\<rparr>)"

definition with_groups_config ::
  "(rat \<Rightarrow> 32 word) \<Rightarrow> 'e ingest_env \<Rightarrow> groups_config \<Rightarrow> ('l, 'x) ingester_option" where
  "with_groups_config impl env gcfg fi =
     apply_options
       [with_discovery_domain env (gc_discovery_domain gcfg), with_globs env (gc_zone_files gcfg),
        with_origin (gc_origin gcfg), with_ttl impl (gc_default_ttl gcfg)] fi"

definition zero_file_ingester :: "'l file_ingester" where
  "zero_file_ingester =
     \<lparr>fi_globs = [], fi_origin = [], fi_ttl = 0, fi_domain = [], fi_first = False,
      fi_checksum = 0, fi_listeners = []\<rparr>"

definition ingester_defaults ::
  "(rat \<Rightarrow> 32 word) \<Rightarrow> 'e ingest_env \<Rightarrow> 'l file_ingester \<Rightarrow> 'l file_ingester" where
  "ingester_defaults impl env fi =
     (let fi = (if length (fi_origin fi) = 0 then fi\<lparr>fi_origin := default_file_ingester_origin\<rparr> else fi);
          fi = (if fi_ttl fi = 0
                then fi\<lparr>fi_ttl := duration_to_seconds impl default_file_ingester_ttl\<rparr> else fi)
      in if length (fi_domain fi) = 0
         then (case with_discovery_domain env default_discovery_domain fi of
                 Inr fi' \<Rightarrow> fi' | Inl (_ :: unit) \<Rightarrow> fi)
         else fi)"

definition new_file_ingester ::
  "(rat \<Rightarrow> 32 word) \<Rightarrow> 'e ingest_env \<Rightarrow> ('l, 'x) ingester_option list \<Rightarrow> 'x + 'l file_ingester" where
  "new_file_ingester impl env opts =
     (case apply_options opts zero_file_ingester of
        Inl err \<Rightarrow> Inl err
      | Inr fi \<Rightarrow> Inr (ingester_defaults impl env fi))"

section \<open>Reading the files\<close>

text \<open>The paths of all globs, each glob's sorted; a glob that fails ends the sequence.\<close>

fun zone_files :: "'e ingest_env \<Rightarrow> string list \<Rightarrow> (string \<times> 'e option) list" where
  "zone_files env [] = []"
| "zone_files env (glob # globs) =
     (case env_glob env glob of
        Inl err \<Rightarrow> [([], Some err)]
      | Inr matches \<Rightarrow> map (\<lambda>path. (path, None)) (sort_strings matches) @ zone_files env globs)"

text \<open>
  The loop of \<open>ingestFile\<close>; \<open>n\<close> counts the pairs taken from the parser. A nil record ends the
  file, with the error that came with it.
\<close>

fun ingest_items ::
  "growth \<Rightarrow> rr_collector \<Rightarrow> nat \<Rightarrow> (rr option \<times> 'e option) list
    \<Rightarrow> rr_collector \<times> nat \<times> 'e ingest_error option" where
  "ingest_items g rrc n [] = (rrc, n, None)"
| "ingest_items g rrc n ((None, err) # items) = (rrc, Suc n, map_option ParseError err)"
| "ingest_items g rrc n ((Some rr, err) # items) =
     (case add_rr g rrc rr of
        (rrc, Some e) \<Rightarrow> (rrc, Suc n, Some (BadDefinition e))
      | (rrc, None) \<Rightarrow> ingest_items g rrc (Suc n) items)"

definition ingest_file ::
  "growth \<Rightarrow> 'e ingest_env \<Rightarrow> 'l file_ingester \<Rightarrow> digest \<Rightarrow> rr_collector \<Rightarrow> string
    \<Rightarrow> digest \<times> rr_collector \<times> 'e ingest_error option" where
  "ingest_file g env fi checksummer rrc path =
     (case env_open env path of
        Inl err \<Rightarrow> (checksummer, rrc, Some (OpenError err))
      | Inr content \<Rightarrow>
          (let zone = env_parse env content (fi_origin fi) path (fi_ttl fi);
               (rrc, n, err) = ingest_items g rrc 0 (pz_items zone)
           in (adler_write checksummer (pz_read zone n), rrc, err)))"

text \<open>The loop over the paths; \<open>n\<close> counts the files, the context is asked before each.\<close>

fun ingest_paths ::
  "growth \<Rightarrow> 'e ingest_env \<Rightarrow> 'l file_ingester \<Rightarrow> nat \<Rightarrow> digest \<Rightarrow> rr_collector
    \<Rightarrow> (string \<times> 'e option) list \<Rightarrow> digest \<times> rr_collector \<times> 'e ingest_error option" where
  "ingest_paths g env fi n checksummer rrc [] = (checksummer, rrc, None)"
| "ingest_paths g env fi n checksummer rrc ((path, Some err) # paths) =
     (checksummer, rrc, Some (GlobError err))"
| "ingest_paths g env fi n checksummer rrc ((path, None) # paths) =
     (case env_ctx_err env n of
        Some err \<Rightarrow> (checksummer, rrc, Some (ContextError err))
      | None \<Rightarrow>
          (case ingest_file g env fi checksummer rrc path of
             (checksummer, rrc, Some err) \<Rightarrow> (checksummer, rrc, Some err)
           | (checksummer, rrc, None) \<Rightarrow> ingest_paths g env fi (Suc n) checksummer rrc paths))"

section \<open>Ingesting\<close>

fun dispatch_ingest_event ::
  "('l, 'x) listener_method \<Rightarrow> 'x ingest_event \<Rightarrow> 'l list \<Rightarrow> panic + 'l list" where
  "dispatch_ingest_event on_event event [] = Inr []"
| "dispatch_ingest_event on_event event (l # ls) =
     (case on_event l event of
        Inl p \<Rightarrow> Inl p
      | Inr l' \<Rightarrow> map_sum id ((#) l') (dispatch_ingest_event on_event event ls))"

definition dispatch_to ::
  "('l, 'x) listener_method \<Rightarrow> 'x ingest_event \<Rightarrow> 'l file_ingester
    \<Rightarrow> panic + 'l file_ingester" where
  "dispatch_to on_event event fi =
     map_sum id (\<lambda>ls. fi\<lparr>fi_listeners := ls\<rparr>) (dispatch_ingest_event on_event event (fi_listeners fi))"

text \<open>
  The end of \<open>Ingest\<close>. \<open>old\<close> is the checksum loaded at its start, which another call may have
  replaced since; \<open>Build\<close> is only called when something is to be dispatched.
\<close>

definition ingest_finish ::
  "growth \<Rightarrow> map_orders \<Rightarrow> ('l, 'e ingest_error) listener_method \<Rightarrow> 32 word
    \<Rightarrow> digest \<times> rr_collector \<times> 'e ingest_error option \<Rightarrow> 'l file_ingester
    \<Rightarrow> panic + 'l file_ingester" where
  "ingest_finish g ords on_event old result fi =
     (let (checksummer, rrc, err) = result in
      if err = None then
        (let new = adler_value checksummer;
             (rrc', gps) = rrc_build g ords rrc;
             event = \<lparr>ev_err = None, ev_groups = Some (freeze_groups (col_heap rrc') gps)\<rparr>
         in if \<not> fi_first fi then dispatch_to on_event event (fi\<lparr>fi_first := True, fi_checksum := new\<rparr>)
            else if fi_checksum fi \<noteq> new \<and> fi_checksum fi = old
                 then dispatch_to on_event event (fi\<lparr>fi_checksum := new\<rparr>)
            else Inr fi)
      else dispatch_to on_event \<lparr>ev_err = err, ev_groups = None\<rparr> fi)"

definition ingest_read ::
  "growth \<Rightarrow> 'e ingest_env \<Rightarrow> 'l file_ingester \<Rightarrow> digest \<times> rr_collector \<times> 'e ingest_error option" where
  "ingest_read g env fi =
     ingest_paths g env fi 0 adler_new (new_rr_collector (fi_domain fi)) (zone_files env (fi_globs fi))"

definition ingest ::
  "growth \<Rightarrow> map_orders \<Rightarrow> 'e ingest_env \<Rightarrow> ('l, 'e ingest_error) listener_method
    \<Rightarrow> 'l file_ingester \<Rightarrow> panic + 'l file_ingester" where
  "ingest g ords env on_event fi =
     ingest_finish g ords on_event (fi_checksum fi) (ingest_read g env fi) fi"

end
