(* ===== verification/Ingest_Spec.thy ===== *)
theory Ingest_Spec
  imports File_Ingester
begin

text \<open>
  What \<open>Ingest\<close> does, in terms of a scan of the zone files: a scan either fails with the first
  error, or yields the records of all files and the bytes the checksum is computed over.
\<close>

section \<open>The scan\<close>

fun file_records :: "(rr option \<times> 'e option) list \<Rightarrow> rr list \<times> 'e option" where
  "file_records [] = ([], None)"
| "file_records ((None, err) # items) = ([], err)"
| "file_records ((Some rr, err) # items) = (let (rrs, e) = file_records items in (rr # rrs, e))"

definition pulled :: "(rr option \<times> 'e option) list \<Rightarrow> nat" where
  "pulled items = min (length items) (Suc (length (fst (file_records items))))"

fun scan_paths ::
  "'e ingest_env \<Rightarrow> 'l file_ingester \<Rightarrow> nat \<Rightarrow> (string \<times> 'e option) list
    \<Rightarrow> 'e ingest_error + rr list \<times> string" where
  "scan_paths env fi n [] = Inr ([], [])"
| "scan_paths env fi n ((path, Some err) # paths) = Inl (GlobError err)"
| "scan_paths env fi n ((path, None) # paths) =
     (case env_ctx_err env n of
        Some err \<Rightarrow> Inl (ContextError err)
      | None \<Rightarrow>
          (case env_open env path of
             Inl err \<Rightarrow> Inl (OpenError err)
           | Inr content \<Rightarrow>
               (let zone = env_parse env content (fi_origin fi) path (fi_ttl fi);
                    (rrs, perr) = file_records (pz_items zone)
                in case first_error (stream_texts (fi_domain fi) rrs) of
                     Some e \<Rightarrow> Inl (BadDefinition e)
                   | None \<Rightarrow>
                       (case perr of
                          Some e \<Rightarrow> Inl (ParseError e)
                        | None \<Rightarrow>
                            (case scan_paths env fi (Suc n) paths of
                               Inl e \<Rightarrow> Inl e
                             | Inr (rest, bytes) \<Rightarrow>
                                 Inr (rrs @ rest, pz_read zone (pulled (pz_items zone)) @ bytes))))))"

definition scan :: "'e ingest_env \<Rightarrow> 'l file_ingester \<Rightarrow> 'e ingest_error + rr list \<times> string" where
  "scan env fi = scan_paths env fi 0 (zone_files env (fi_globs fi))"

lemma add_rrs_append:
  "add_rrs g rrc (xs @ ys) =
     (case add_rrs g rrc xs of (rrc', Some e) \<Rightarrow> (rrc', Some e) | (rrc', None) \<Rightarrow> add_rrs g rrc' ys)"
  by (induction xs arbitrary: rrc) (auto split: prod.split option.split)

lemma add_rrs_domain: "discovery_domain (fst (add_rrs g rrc rrs)) = discovery_domain rrc"
proof (induction rrs arbitrary: rrc)
  case (Cons rr rrs)
  obtain rrc' err where "add_rr g rrc rr = (rrc', err)" by fastforce
  with Cons.IH [of rrc'] add_rr_domain [of g rrc rr] show ?case by (cases err) simp_all
qed simp

lemma ingest_items_records:
  assumes "file_records items = (rrs, perr)"
  shows "case add_rrs g rrc rrs of
      (rrc', Some e) \<Rightarrow> \<exists>m. ingest_items g rrc n items = (rrc', m, Some (BadDefinition e))
    | (rrc', None) \<Rightarrow> ingest_items g rrc n items = (rrc', n + pulled items, map_option ParseError perr)"
  using assms
proof (induction items arbitrary: rrc n rrs perr rule: file_records.induct)
  case (3 rr err items)
  obtain rrs' e where rest: "file_records items = (rrs', e)" by fastforce
  obtain rrc' err' where add: "add_rr g rrc rr = (rrc', err')" by fastforce
  show ?case
  proof (cases err')
    case None
    from "3.IH" [OF rest, of rrc' "Suc n"] "3.prems" rest add None show ?thesis
      by (auto simp: pulled_def split: prod.splits option.splits)
  qed (use "3.prems" rest add in auto)
qed (auto simp: pulled_def)

lemma ingest_paths_scan:
  assumes "discovery_domain rrc = fi_domain fi"
  shows "case scan_paths env fi n paths of
      Inl e \<Rightarrow> \<exists>d' rrc'. ingest_paths g env fi n d rrc paths = (d', rrc', Some e)
    | Inr (rrs, bytes) \<Rightarrow> \<exists>rrc'. add_rrs g rrc rrs = (rrc', None) \<and>
        ingest_paths g env fi n d rrc paths = (adler_write d bytes, rrc', None)"
  using assms
proof (induction paths arbitrary: n d rrc rule: list.induct)
  case (Cons p paths)
  obtain path glob_err where p: "p = (path, glob_err)" by fastforce
  show ?case
  proof (cases "glob_err = None \<and> env_ctx_err env n = None \<and> (\<exists>content. env_open env path = Inr content)")
    case False
    with p show ?thesis
      by (cases glob_err; cases "env_ctx_err env n"; cases "env_open env path")
        (auto simp: ingest_file_def)
  next
    case True
    then obtain content where read: "glob_err = None" "env_ctx_err env n = None" "env_open env path = Inr content"
      by blast
    define zone where "zone = env_parse env content (fi_origin fi) path (fi_ttl fi)"
    obtain rrs perr where recs: "file_records (pz_items zone) = (rrs, perr)" by fastforce
    obtain rrc1 err where add: "add_rrs g rrc rrs = (rrc1, err)" by fastforce
    have err: "err = first_error (stream_texts (fi_domain fi) rrs)"
      using add_rrs_error [of g rrc rrs] add Cons.prems by simp
    have dom: "discovery_domain rrc1 = fi_domain fi"
      using add_rrs_domain [of g rrc rrs] add Cons.prems by simp
    note items = ingest_items_records [OF recs, of g rrc 0]
    show ?thesis
    proof (cases "err = None \<and> perr = None")
      case False
      with p read recs add err items zone_def show ?thesis
        by (auto simp: ingest_file_def Let_def split: option.splits)
    next
      case True
      let ?d = "adler_write d (pz_read zone (pulled (pz_items zone)))"
      have one: "ingest_file g env fi d rrc path = (?d, rrc1, None)"
        using True read items add zone_def by (simp add: ingest_file_def Let_def)
      have scan: "scan_paths env fi n (p # paths) =
          (case scan_paths env fi (Suc n) paths of Inl e \<Rightarrow> Inl e
           | Inr (rest, bytes) \<Rightarrow> Inr (rrs @ rest, pz_read zone (pulled (pz_items zone)) @ bytes))"
        using True p read recs err by (simp add: Let_def flip: zone_def)
      from Cons.IH [OF dom, of "Suc n" ?d] add True show ?thesis
        unfolding scan using p read one
        by (auto simp: add_rrs_append adler_write_append split: sum.splits prod.splits)
    qed
  qed
qed simp

lemma ingest_read_scan:
  "case scan env fi of
      Inl e \<Rightarrow> \<exists>d' rrc'. ingest_read g env fi = (d', rrc', Some e)
    | Inr (rrs, bytes) \<Rightarrow> \<exists>rrc'. add_rrs g (new_rr_collector (fi_domain fi)) rrs = (rrc', None) \<and>
        ingest_read g env fi = (adler_write adler_new bytes, rrc', None)"
  unfolding scan_def ingest_read_def
  by (rule ingest_paths_scan) (simp add: new_rr_collector_def)

section \<open>Ingest\<close>

definition scanned_event ::
  "growth \<Rightarrow> map_orders \<Rightarrow> 'l file_ingester \<Rightarrow> rr list \<Rightarrow> 'x ingest_event" where
  "scanned_event g ords fi rrs =
     \<lparr>ev_err = None, ev_groups = Some (build_from g ords (fi_domain fi) rrs)\<rparr>"

definition changed :: "'l file_ingester \<Rightarrow> string \<Rightarrow> bool" where
  "changed fi bytes \<longleftrightarrow> \<not> fi_first fi \<or> fi_checksum fi \<noteq> adler32 bytes"

definition ingest_spec ::
  "growth \<Rightarrow> map_orders \<Rightarrow> 'e ingest_env \<Rightarrow> ('l, 'e ingest_error) listener_method
    \<Rightarrow> 'l file_ingester \<Rightarrow> panic + 'l file_ingester" where
  "ingest_spec g ords env on_event fi =
     (case scan env fi of
        Inl e \<Rightarrow> dispatch_to on_event \<lparr>ev_err = Some e, ev_groups = None\<rparr> fi
      | Inr (rrs, bytes) \<Rightarrow>
          if changed fi bytes
          then dispatch_to on_event (scanned_event g ords fi rrs)
            (fi\<lparr>fi_first := True, fi_checksum := adler32 bytes\<rparr>)
          else Inr fi)"

lemma ingest_eq_spec: "ingest g ords env on_event fi = ingest_spec g ords env on_event fi"
proof (cases "scan env fi")
  case (Inl e)
  with ingest_read_scan [where env = env and fi = fi and g = g] show ?thesis
    by (auto simp: ingest_def ingest_spec_def ingest_finish_def)
next
  case (Inr r)
  then obtain rrs bytes rrc where scan: "scan env fi = Inr (rrs, bytes)"
    and add: "add_rrs g (new_rr_collector (fi_domain fi)) rrs = (rrc, None)"
    and read: "ingest_read g env fi = (adler_write adler_new bytes, rrc, None)"
    using ingest_read_scan [where env = env and fi = fi and g = g] by (cases r) auto
  obtain rrc' gps where build: "rrc_build g ords rrc = (rrc', gps)" by fastforce
  have event: "scanned_event g ords fi rrs =
      \<lparr>ev_err = None, ev_groups = Some (freeze_groups (col_heap rrc') gps)\<rparr>"
    using add build by (simp add: scanned_event_def build_from_def)
  have same: "fi\<lparr>fi_first := True, fi_checksum := c\<rparr> = fi\<lparr>fi_checksum := c\<rparr>" if "fi_first fi" for c
    using that by (cases fi) simp
  show ?thesis
  proof (cases "fi_first fi")
    case True
    show ?thesis
      using build read scan True
      by (simp only: ingest_def ingest_spec_def ingest_finish_def changed_def event adler32_def
        same [OF True]) (simp add: event)
  next
    case False
    then show ?thesis
      using build read scan
      by (simp add: ingest_def ingest_spec_def ingest_finish_def changed_def event adler32_def)
  qed
qed

section \<open>Dispatching to listeners that keep the contract\<close>

context ingest_listener
begin

lemma dispatch_views:
  assumes "\<forall>l \<in> set ls. inv l" and "event_ok e"
  shows "\<exists>ls'. dispatch_ingest_event on_event e ls = Inr ls' \<and> (\<forall>l \<in> set ls'. inv l) \<and>
    map view ls' = map (\<lambda>l. if ev_err e = None then ev_groups e else view l) ls"
  using assms(1)
proof (induction ls)
  case (Cons l ls)
  obtain l' where "on_event l e = Inr l'" "inv l'"
    "view l' = (if ev_err e = None then ev_groups e else view l)"
    using Cons.prems assms(2) on_error on_groups [of l e] by (cases "ev_err e") (auto simp: event_ok_def)
  with Cons show ?case by force
qed simp

end

text \<open>The listeners of a file ingester: their error events carry an ingest error.\<close>

locale file_listener = ingest_listener on_event view inv
  for on_event :: "'s \<Rightarrow> 'e ingest_error ingest_event \<Rightarrow> panic + 's"
    and view :: "'s \<Rightarrow> addr list groups option" and inv :: "'s \<Rightarrow> bool"
begin

text \<open>
  An ingest never panics; the listeners show the groups of the scan if it succeeded and
  something changed, and what they showed before otherwise.
\<close>

lemma ingest_views:
  assumes "\<forall>l \<in> set (fi_listeners fi). inv l"
  shows "\<exists>fi'. ingest_spec g ords env on_event fi = Inr fi' \<and> (\<forall>l \<in> set (fi_listeners fi'). inv l) \<and>
    map view (fi_listeners fi') =
      (case scan env fi of
         Inl err \<Rightarrow> map view (fi_listeners fi)
       | Inr (rrs, bytes) \<Rightarrow>
           if changed fi bytes
           then map (\<lambda>_. Some (build_from g ords (fi_domain fi) rrs)) (fi_listeners fi)
           else map view (fi_listeners fi))"
proof (cases "scan env fi")
  case (Inl err)
  with dispatch_views [OF assms, of "\<lparr>ev_err = Some err, ev_groups = None\<rparr>"] show ?thesis
    by (auto simp: ingest_spec_def dispatch_to_def event_ok_def)
next
  case (Inr r)
  obtain rrs bytes where r: "r = (rrs, bytes)" by fastforce
  show ?thesis
  proof (cases "changed fi bytes")
    case True
    with dispatch_views [OF assms, of "scanned_event g ords fi rrs"] Inr r show ?thesis
      by (auto simp: ingest_spec_def dispatch_to_def event_ok_def scanned_event_def)
  qed (use Inr r assms in \<open>simp add: ingest_spec_def\<close>)
qed

end

interpretation locfl: file_listener "on_ingest md" loc_groups "is_published md b" for md b
  by unfold_locales

text \<open>Whatever listeners there are, only they, the flag and the checksum can change.\<close>

lemma dispatch_to_fields:
  "dispatch_to on_event e fi = Inr fi' \<Longrightarrow> \<exists>ls. fi' = fi\<lparr>fi_listeners := ls\<rparr>"
  by (cases "dispatch_ingest_event on_event e (fi_listeners fi)") (auto simp: dispatch_to_def)

lemma scan_fields:
  assumes "fi_globs fi' = fi_globs fi" "fi_origin fi' = fi_origin fi" "fi_ttl fi' = fi_ttl fi"
    "fi_domain fi' = fi_domain fi"
  shows "scan env fi' = scan env fi"
proof -
  have "scan_paths env fi' n paths = scan_paths env fi n paths" for n paths
  proof (induction paths arbitrary: n)
    case (Cons p paths)
    obtain path glob_err where p: "p = (path, glob_err)" by fastforce
    show ?case
      by (cases glob_err) (simp_all only: p scan_paths.simps assms Cons.IH)
  qed simp
  then show ?thesis using assms by (simp add: scan_def)
qed

lemma ingest_spec_fields:
  assumes "ingest_spec g ords env on_event fi = Inr fi'"
  shows "scan env' fi' = scan env' fi" and "fi_domain fi' = fi_domain fi"
proof -
  obtain ls first c where "fi' = fi\<lparr>fi_first := first, fi_checksum := c, fi_listeners := ls\<rparr>"
    using assms
    by (cases fi) (auto simp: ingest_spec_def split: sum.splits if_splits dest!: dispatch_to_fields)
  then show "scan env' fi' = scan env' fi" and "fi_domain fi' = fi_domain fi"
    by (auto intro: scan_fields)
qed

section \<open>Properties\<close>

text \<open>
  Property C6: one call of \<open>Ingest\<close>, on every path. If the scan of the files fails - a glob, the
  context, opening, parsing, or a bad group definition, whichever comes first - the error is
  dispatched and the stored checksum stays. Otherwise the groups built from all records are
  dispatched exactly if this is the first success or the Adler-32 checksum over all files
  differs from the stored one, and the checksum is stored.
\<close>

theorem ingest_refines_spec: "ingest g ords env on_event fi = ingest_spec g ords env on_event fi"
  by (rule ingest_eq_spec)

text \<open>
  Ingesting again without a change in the outside world is a no-op: no listener is
  called and nothing is stored.
\<close>

lemma ingest_idempotent:
  assumes "ingest g ords env on_event fi = Inr fi'" and "scan env fi = Inr (rrs, bytes)"
  shows "ingest g ords env on_event fi' = Inr fi'"
proof -
  have spec: "ingest_spec g ords env on_event fi = Inr fi'" using assms(1) by (simp add: ingest_eq_spec)
  have "\<not> changed fi' bytes"
    using spec assms(2) by (auto simp: ingest_spec_def changed_def split: if_splits dest!: dispatch_to_fields)
  moreover have "scan env fi' = Inr (rrs, bytes)"
    using assms(2) by (simp add: ingest_spec_fields(1) [OF spec])
  ultimately show ?thesis by (simp add: ingest_eq_spec) (simp add: ingest_spec_def)
qed

lemma ingest_locators:
  assumes "\<forall>l \<in> set (fi_listeners fi). is_published md b l"
  shows "\<exists>fi'. ingest g ords env (on_ingest md) fi = Inr fi' \<and>
    fi_listeners fi' =
      (case scan env fi of
         Inl err \<Rightarrow> fi_listeners fi
       | Inr (rrs, bytes) \<Rightarrow>
           if changed fi bytes
           then map (\<lambda>_. published md b (Some (build_from g ords (fi_domain fi) rrs))) (fi_listeners fi)
           else fi_listeners fi)"
proof -
  have unique: "ls = map (published md b \<circ> loc_groups) ls" if "\<forall>l \<in> set ls. is_published md b l" for ls
    using that by (induction ls) (simp_all add: is_published_def)
  obtain fi' where fi': "ingest g ords env (on_ingest md) fi = Inr fi'"
    "\<forall>l \<in> set (fi_listeners fi'). is_published md b l"
    "map loc_groups (fi_listeners fi') =
      (case scan env fi of
         Inl err \<Rightarrow> map loc_groups (fi_listeners fi)
       | Inr (rrs, bytes) \<Rightarrow>
           if changed fi bytes
           then map (\<lambda>_. Some (build_from g ords (fi_domain fi) rrs)) (fi_listeners fi)
           else map loc_groups (fi_listeners fi))"
    using locfl.ingest_views [OF assms] unfolding ingest_eq_spec by blast
  have "fi_listeners fi' = map (published md b) (map loc_groups (fi_listeners fi'))"
    using unique [OF fi'(2)] by (simp only: map_map)
  also have "\<dots> = (case scan env fi of
      Inl err \<Rightarrow> fi_listeners fi
    | Inr (rrs, bytes) \<Rightarrow>
        if changed fi bytes
        then map (\<lambda>_. published md b (Some (build_from g ords (fi_domain fi) rrs))) (fi_listeners fi)
        else fi_listeners fi)"
    unfolding fi'(3) using unique [OF assms] by (auto split: sum.split)
  finally show ?thesis using fi'(1) by blast
qed

text \<open>
  With locators as listeners, an ingest never panics, and afterwards every locator
  serves the groups of the scanned records if the scan succeeded and something changed;
  otherwise it serves the groups it had before.
\<close>

lemma ingest_updates_locators:
  assumes "\<forall>l \<in> set (fi_listeners fi). is_published md b l"
  shows "\<exists>fi'. ingest g ords env (on_ingest md) fi = Inr fi' \<and>
    fi_listeners fi' =
      (case scan env fi of
         Inl err \<Rightarrow> fi_listeners fi
       | Inr (rrs, bytes) \<Rightarrow>
           if changed fi bytes
           then map (\<lambda>_. published md b (Some (build_from g ords (fi_domain fi) rrs))) (fi_listeners fi)
           else fi_listeners fi)"
  using assms by (rule ingest_locators)

lemma max_one_nonzero: "max (w :: 32 word) 1 \<noteq> 0"
  by (metis max.cobounded2 word_le_0_iff zero_neq_one)

lemma duration_to_seconds_0: "duration_to_seconds impl v = 0 \<longleftrightarrow> v \<le> 0"
  using max_one_nonzero by (simp add: duration_to_seconds_def Let_def)

lemma default_ttl_seconds: "duration_to_seconds impl default_file_ingester_ttl = 300"
  using seconds_to_duration_eq [of 300] duration_to_seconds_eq [of default_file_ingester_ttl impl]
    rounded_seconds_whole [of 300]
  by (simp add: default_file_ingester_ttl_def)

text \<open>
  The ingester the program builds from its configuration never fails to
  construct, and has exactly the expanded zone file globs in order, the configured origin, the
  configured default TTL or 300 seconds when it is not positive, the fully qualified discovery
  domain or that of \<open>_hashy.discover\<close> when it is blank, the given listeners, and no checksum.
\<close>

lemma new_file_ingester_configured:
  "new_file_ingester impl env [with_groups_config impl env gcfg, with_ingest_listeners ls] =
    (let domain = (if gc_discovery_domain gcfg = [] then [] else env_fqdn env (gc_discovery_domain gcfg))
     in Inr \<lparr>fi_globs = map (env_expand env) (gc_zone_files gcfg), fi_origin = gc_origin gcfg,
       fi_ttl = (if gc_default_ttl gcfg \<le> 0 then 300 else duration_to_seconds impl (gc_default_ttl gcfg)),
       fi_domain = (if domain = [] then env_fqdn env ''_hashy.discover'' else domain),
       fi_first = False, fi_checksum = 0, fi_listeners = ls\<rparr>)"
  by (simp add: new_file_ingester_def with_groups_config_def with_ingest_listeners_def
    with_discovery_domain_def with_globs_def with_origin_def with_ttl_def foldl_collect
    zero_file_ingester_def ingester_defaults_def default_file_ingester_origin_def
    default_discovery_domain_def default_ttl_seconds duration_to_seconds_0 Let_def)

text \<open>A file system with two zone files behind one glob; each \<open>Ingest\<close> reads both.\<close>

definition sample_file :: "string \<Rightarrow> rr list" where
  "sample_file path = (if path = ''a.zone'' then take 3 sample_zone else drop 3 sample_zone)"

definition sample_env :: "string ingest_env" where
  "sample_env =
     \<lparr>env_expand = (\<lambda>s. s), env_fqdn = (\<lambda>d. d @ ''.''),
      env_glob = (\<lambda>_. Inr [''b.zone'', ''a.zone'']), env_ctx_err = (\<lambda>_. None),
      env_open = (\<lambda>path. Inr path),
      env_parse = (\<lambda>content _ path _.
        \<lparr>pz_items = map (\<lambda>r. (Some r, None)) (sample_file path) @ [(None, None)],
         pz_read = (\<lambda>_. content)\<rparr>)\<rparr>"

definition sample_ingester :: "(int, addr list endpoint list) locator file_ingester" where
  "sample_ingester = zero_file_ingester\<lparr>fi_globs := [''*.zone''], fi_domain := ''d.'',
     fi_listeners := [zero_locator 0]\<rparr>"

lemma sample_scan: "scan sample_env sample_ingester = Inr (sample_zone, ''a.zoneb.zone'')"
  by code_simp

lemma sample_listeners: "\<forall>l \<in> set (fi_listeners sample_ingester). is_published sample_medley 0 l"
  by (simp add: sample_ingester_def is_published_def published_def)

end
