(* ===== verification/Step_Systems.thy ===== *)
theory Step_Systems
  imports Main
begin

text \<open>
  What the step relations of the development share, proved once. A component's theory interprets
  one of these locales with its own relation and invariant: the lock of the locator, overlapping
  calls of \<open>Ingest\<close>, the checker's goroutines, start-up and the life of the program.
\<close>

section \<open>Invariants\<close>

locale step_system =
  fixes step :: "'s \<Rightarrow> 's \<Rightarrow> bool" and inv :: "'s \<Rightarrow> bool"
  assumes preserved: "step s s' \<Longrightarrow> inv s \<Longrightarrow> inv s'"
begin

lemma steps_inv: "step\<^sup>*\<^sup>* s s' \<Longrightarrow> inv s \<Longrightarrow> inv s'"
  by (induction rule: rtranclp_induct) (auto intro: preserved)

lemma count_inv: "(step ^^ n) s s' \<Longrightarrow> inv s \<Longrightarrow> inv s'"
  by (meson relpowp_imp_rtranclp steps_inv)

lemma run_inv: "(\<And>k. step (run k) (run (Suc k))) \<Longrightarrow> inv (run 0) \<Longrightarrow> inv (run k)"
  by (induction k) (auto intro: preserved)

end

section \<open>Termination\<close>

locale terminating_system = step_system +
  fixes order :: "('s \<times> 's) set"
  assumes order_wf: "wf order"
    and decreases: "step s s' \<Longrightarrow> inv s \<Longrightarrow> (s', s) \<in> order"
begin

lemma finishes:
  assumes "inv s"
  shows "\<exists>t. step\<^sup>*\<^sup>* s t \<and> (\<nexists>t'. step t t')"
  using order_wf assms
proof (induction s rule: wf_induct_rule)
  case (less s)
  show ?case
  proof (cases "\<exists>s'. step s s'")
    case True
    then obtain s' where s': "step s s'" by blast
    from less.IH [OF decreases [OF s' less.prems] preserved [OF s' less.prems]] s' show ?thesis
      by (meson converse_rtranclp_into_rtranclp)
  qed blast
qed

lemma no_infinite_run:
  assumes "inv (run 0)"
  shows "\<exists>k. \<not> step (run k) (run (Suc k))"
proof (rule ccontr)
  assume "\<not> ?thesis"
  then have steps: "step (run k) (run (Suc k))" for k by blast
  have "(run (Suc k), run k) \<in> order" for k
    using steps run_inv [of run, OF steps assms] by (rule decreases)
  with order_wf show False unfolding wf_iff_no_infinite_down_chain by blast
qed

end

text \<open>A run that goes on as long as there is a step.\<close>

definition maximal :: "('s \<Rightarrow> 's \<Rightarrow> bool) \<Rightarrow> (nat \<Rightarrow> 's) \<Rightarrow> bool" where
  "maximal step run \<longleftrightarrow>
     (\<forall>k. step (run k) (run (Suc k)) \<or> run (Suc k) = run k \<and> (\<nexists>s'. step (run k) s'))"

lemma maximal_steps:
  assumes "maximal step run"
  shows "step\<^sup>*\<^sup>* (run 0) (run k)"
proof (induction k)
  case (Suc k)
  from assms have "step (run k) (run (Suc k)) \<or> run (Suc k) = run k" unfolding maximal_def by blast
  with Suc show ?case by (auto intro: rtranclp.rtrancl_into_rtrancl)
qed simp

text \<open>There is one from every state.\<close>

lemma maximal_exists: "\<exists>run. run 0 = s \<and> maximal step run"
proof -
  have "\<exists>t. step u t \<or> t = u \<and> (\<nexists>s'. step u s')" for u by blast
  then have "\<exists>run. \<forall>k. (k = 0 \<longrightarrow> run k = s) \<and>
      (step (run k) (run (Suc k)) \<or> run (Suc k) = run k \<and> (\<nexists>s'. step (run k) s'))"
    by (intro dependent_nat_choice) auto
  then show ?thesis unfolding maximal_def by blast
qed

context terminating_system
begin

lemma maximal_ends:
  assumes "maximal step run" and "inv (run 0)"
  shows "\<exists>k. \<nexists>s'. step (run k) s'"
  using no_infinite_run [of run, OF assms(2)] assms(1) unfolding maximal_def by blast

end

text \<open>A rank that falls also bounds the number of steps.\<close>

locale bounded_system = step_system +
  fixes rank :: "'s \<Rightarrow> nat"
  assumes falls: "step s s' \<Longrightarrow> inv s \<Longrightarrow> rank s' < rank s"
begin

lemma bounded:
  assumes "(step ^^ n) s t" and "inv s"
  shows "rank t + n \<le> rank s"
  using assms(1)
proof (induction n arbitrary: t)
  case (Suc n)
  then obtain u where u: "(step ^^ n) s u" "step u t" by auto
  with Suc.IH [OF u(1)] falls [OF u(2) count_inv [OF u(1) assms(2)]] show ?case by simp
qed simp

end

sublocale bounded_system \<subseteq> ranked: terminating_system step inv "measure rank"
  by unfold_locales (simp_all add: falls)

section \<open>The step that makes a difference\<close>

text \<open>A run that comes to satisfy \<open>Q\<close> has a step that makes it so.\<close>

lemma first_step:
  assumes "step\<^sup>*\<^sup>* s t" and "\<not> Q s" and "Q t"
  shows "\<exists>u v. step\<^sup>*\<^sup>* s u \<and> step u v \<and> step\<^sup>*\<^sup>* v t \<and> \<not> Q u \<and> Q v"
  using assms
proof (induction rule: converse_rtranclp_induct)
  case (step s s')
  show ?case
  proof (cases "Q s'")
    case True
    with step.hyps step.prems show ?thesis by blast
  next
    case False
    with step.IH step.prems(2) step.hyps(1) show ?thesis by (meson converse_rtranclp_into_rtranclp)
  qed
qed simp

section \<open>Simulation\<close>

text \<open>A concrete step stands for one abstract step or for none.\<close>

locale step_simulation =
  fixes step :: "'s \<Rightarrow> 's \<Rightarrow> bool" and inv :: "'s \<Rightarrow> bool"
    and abs_step :: "'a \<Rightarrow> 'a \<Rightarrow> bool" and abs :: "'s \<Rightarrow> 'a"
  assumes simulated: "step s s' \<Longrightarrow> inv s \<Longrightarrow> inv s' \<and> (abs s' = abs s \<or> abs_step (abs s) (abs s'))"

sublocale step_simulation \<subseteq> step_system step inv
  by unfold_locales (use simulated in blast)

context step_simulation
begin

lemma simulates: "step\<^sup>*\<^sup>* s s' \<Longrightarrow> inv s \<Longrightarrow> inv s' \<and> abs_step\<^sup>*\<^sup>* (abs s) (abs s')"
proof (induction rule: rtranclp_induct)
  case (step t t')
  then have "inv t" "abs_step\<^sup>*\<^sup>* (abs s) (abs t)" by simp_all
  with simulated [OF step(2)] show ?case by (auto intro: rtranclp.rtrancl_into_rtrancl)
qed simp

end

end
