(* ===== verification/Ingest_Overlap.thy ===== *)
theory Ingest_Overlap
  imports Ingest_Spec Step_Systems
begin

text \<open>
  Overlapping calls of \<open>Ingest\<close> (\<open>service/fileIngester.go\<close>). The ingester keeps its flag \<open>first\<close>
  and its checksum in atomics, and nothing else orders the calls. Each goroutine runs one call;
  a step is one access to an atomic, one scan of the files, or one call of a listener (which
  takes effect at one point, as \<open>Locator_Concurrency\<close> shows for the locator). A call sees the
  outside world it started with.
\<close>

section \<open>Calls\<close>

datatype 'e ingest_call =
    CallStart "'e ingest_env"
  | CallLoaded "'e ingest_env" "32 word"
  | CallScanned "32 word" "32 word" rr_collector
  | CallStore "32 word" rr_collector
  | CallCompare "32 word" "32 word" rr_collector
  | CallSwap "32 word" "32 word" rr_collector
  | CallDispatch "'e ingest_error ingest_event" nat
  | CallDone
  | CallPanicked panic

record ('l, 'e) ingest_system =
  is_fi :: "'l file_ingester"
  is_calls :: "nat \<Rightarrow> 'e ingest_call"

text \<open>The event with the groups that \<open>Build\<close> makes of the collected records.\<close>

definition built_groups :: "growth \<Rightarrow> map_orders \<Rightarrow> rr_collector \<Rightarrow> addr list groups" where
  "built_groups g ords rrc = (let (rrc', gps) = rrc_build g ords rrc in freeze_groups (col_heap rrc') gps)"

definition built_event :: "growth \<Rightarrow> map_orders \<Rightarrow> rr_collector \<Rightarrow> 'x ingest_event" where
  "built_event g ords rrc = \<lparr>ev_err = None, ev_groups = Some (built_groups g ords rrc)\<rparr>"

definition after_scan ::
  "32 word \<Rightarrow> digest \<times> rr_collector \<times> 'e ingest_error option \<Rightarrow> 'e ingest_call" where
  "after_scan old result =
     (case result of
        (checksummer, rrc, None) \<Rightarrow> CallScanned old (adler_value checksummer) rrc
      | (checksummer, rrc, Some err) \<Rightarrow> CallDispatch \<lparr>ev_err = Some err, ev_groups = None\<rparr> 0)"

text \<open>
  One step of call \<open>i\<close>, at most one atomic operation or listener call each; \<^const>\<open>None\<close> when it has
  returned (or panicked).
\<close>

definition advance_call ::
  "growth \<Rightarrow> map_orders \<Rightarrow> ('l, 'e ingest_error) listener_method \<Rightarrow> nat
    \<Rightarrow> ('l, 'e) ingest_system \<Rightarrow> ('l, 'e) ingest_system option" where
  "advance_call g ords on_event i s =
     (let fi = is_fi s;
          go = \<lambda>fi c. Some (s\<lparr>is_fi := fi, is_calls := (is_calls s)(i := c)\<rparr>)
      in case is_calls s i of
        CallStart env \<Rightarrow> go fi (CallLoaded env (fi_checksum fi))
      | CallLoaded env old \<Rightarrow> go fi (after_scan old (ingest_read g env fi))
      | CallScanned old new rrc \<Rightarrow>
          if \<not> fi_first fi then go (fi\<lparr>fi_first := True\<rparr>) (CallStore new rrc)
          else go fi (CallCompare old new rrc)
      | CallStore new rrc \<Rightarrow> go (fi\<lparr>fi_checksum := new\<rparr>) (CallDispatch (built_event g ords rrc) 0)
      | CallCompare old new rrc \<Rightarrow>
          if fi_checksum fi \<noteq> new then go fi (CallSwap old new rrc) else go fi CallDone
      | CallSwap old new rrc \<Rightarrow>
          if fi_checksum fi = old
          then go (fi\<lparr>fi_checksum := new\<rparr>) (CallDispatch (built_event g ords rrc) 0)
          else go fi CallDone
      | CallDispatch event k \<Rightarrow>
          if k < length (fi_listeners fi) then
            (case on_event (fi_listeners fi ! k) event of
               Inl p \<Rightarrow> go fi (CallPanicked p)
             | Inr l \<Rightarrow> go (fi\<lparr>fi_listeners := (fi_listeners fi)[k := l]\<rparr>) (CallDispatch event (Suc k)))
          else go fi CallDone
      | CallDone \<Rightarrow> None
      | CallPanicked p \<Rightarrow> None)"

inductive istep ::
  "growth \<Rightarrow> map_orders \<Rightarrow> ('l, 'e ingest_error) listener_method
    \<Rightarrow> ('l, 'e) ingest_system \<Rightarrow> ('l, 'e) ingest_system \<Rightarrow> bool"
  for g ords on_event
where
  call: "advance_call g ords on_event i s = Some s' \<Longrightarrow> istep g ords on_event s s'"

fun run_calls ::
  "growth \<Rightarrow> map_orders \<Rightarrow> ('l, 'e ingest_error) listener_method \<Rightarrow> nat list
    \<Rightarrow> ('l, 'e) ingest_system \<Rightarrow> ('l, 'e) ingest_system option" where
  "run_calls g ords on_event [] s = Some s"
| "run_calls g ords on_event (i # is) s =
     (case advance_call g ords on_event i s of
        None \<Rightarrow> None | Some s' \<Rightarrow> run_calls g ords on_event is s')"

lemma run_calls_append:
  "run_calls g ords on_event (xs @ ys) s =
     (case run_calls g ords on_event xs s of None \<Rightarrow> None | Some s' \<Rightarrow> run_calls g ords on_event ys s')"
  by (induction xs arbitrary: s) (auto split: option.split)

lemma run_calls_isteps: "run_calls g ords on_event is s = Some s' \<Longrightarrow> (istep g ords on_event)\<^sup>*\<^sup>* s s'"
  by (induction "is" arbitrary: s)
    (auto split: option.splits intro: converse_rtranclp_into_rtranclp istep.call)

section \<open>A call that is not interrupted\<close>

lemma run_dispatch:
  assumes "is_calls s i = CallDispatch event k" and "k \<le> length (fi_listeners (is_fi s))"
    and "dispatch_ingest_event on_event event (drop k (fi_listeners (is_fi s))) = Inr ls"
  shows "run_calls g ords on_event (replicate (Suc (length (fi_listeners (is_fi s)) - k)) i) s =
    Some (s\<lparr>is_fi := (is_fi s)\<lparr>fi_listeners := take k (fi_listeners (is_fi s)) @ ls\<rparr>,
      is_calls := (is_calls s)(i := CallDone)\<rparr>)"
  using assms
proof (induction "length (fi_listeners (is_fi s)) - k" arbitrary: s k ls)
  case 0
  then show ?case by (simp add: advance_call_def Let_def fun_upd_def)
next
  case (Suc n)
  let ?ls = "fi_listeners (is_fi s)"
  have k: "k < length ?ls" using Suc.hyps(2) by simp
  then obtain l' ls' where on: "on_event (?ls ! k) event = Inr l'" and ls: "ls = l' # ls'"
    and rest: "dispatch_ingest_event on_event event (drop (Suc k) ?ls) = Inr ls'"
    using Suc.prems(3) k
    by (cases "dispatch_ingest_event on_event event (drop (Suc k) ?ls)")
      (auto simp: Cons_nth_drop_Suc [symmetric] split: sum.splits)
  let ?s = "s\<lparr>is_fi := (is_fi s)\<lparr>fi_listeners := ?ls[k := l']\<rparr>,
    is_calls := (is_calls s)(i := CallDispatch event (Suc k))\<rparr>"
  have step: "advance_call g ords on_event i s = Some ?s"
    using Suc.prems(1) k on by (simp add: advance_call_def Let_def)
  have "run_calls g ords on_event (replicate (Suc (length (fi_listeners (is_fi ?s)) - Suc k)) i) ?s =
      Some (?s\<lparr>is_fi := (is_fi ?s)\<lparr>fi_listeners := take (Suc k) (fi_listeners (is_fi ?s)) @ ls'\<rparr>,
        is_calls := (is_calls ?s)(i := CallDone)\<rparr>)"
    using Suc.hyps(2) k rest by (intro Suc.hyps(1)) simp_all
  moreover have "take (Suc k) (?ls[k := l']) = take k ?ls @ [l']"
    using k by (simp add: take_Suc_conv_app_nth)
  moreover have "Suc (length ?ls - k) = Suc (Suc (length ?ls - Suc k))" using k by simp
  ultimately show ?case using step ls by (simp del: replicate.simps(2)) simp
qed

lemma run_dispatch_to:
  assumes "is_calls s i = CallDispatch event 0" and "dispatch_to on_event event (is_fi s) = Inr fi'"
  shows "run_calls g ords on_event (replicate (Suc (length (fi_listeners (is_fi s)))) i) s =
    Some (s\<lparr>is_fi := fi', is_calls := (is_calls s)(i := CallDone)\<rparr>)"
proof -
  obtain ls where ls: "dispatch_ingest_event on_event event (fi_listeners (is_fi s)) = Inr ls"
    "fi' = (is_fi s)\<lparr>fi_listeners := ls\<rparr>"
    using assms(2) by (cases "dispatch_ingest_event on_event event (fi_listeners (is_fi s))")
      (auto simp: dispatch_to_def)
  with run_dispatch [of s i event 0 on_event ls g ords] assms(1) show ?thesis by simp
qed

text \<open>Alone, a call computes \<open>ingest\<close>, in at most six steps and one for each listener.\<close>

lemma call_alone:
  assumes "is_calls s i = CallStart env" and "ingest g ords env on_event (is_fi s) = Inr fi'"
  shows "\<exists>n \<le> length (fi_listeners (is_fi s)) + 6.
    run_calls g ords on_event (replicate n i) s =
      Some (s\<lparr>is_fi := fi', is_calls := (is_calls s)(i := CallDone)\<rparr>)"
proof -
  let ?fi = "is_fi s" and ?run = "run_calls g ords on_event"
  let ?to = "\<lambda>c. s\<lparr>is_calls := (is_calls s)(i := c)\<rparr>"
  obtain d rrc err where read: "ingest_read g env ?fi = (d, rrc, err)" by (cases "ingest_read g env ?fi")
  let ?old = "fi_checksum ?fi" and ?new = "adler_value d"
  have two: "?run [i, i] s = Some (?to (after_scan ?old (d, rrc, err)))"
    using assms(1) read by (simp add: advance_call_def Let_def)
  have finish: "ingest_finish g ords on_event ?old (d, rrc, err) ?fi = Inr fi'"
    using assms(2) read by (simp add: ingest_def)
  have joined: ?thesis
    if "?run xs s = Some s1" "is_calls s1 i = CallDispatch event 0" "dispatch_to on_event event (is_fi s1) = Inr fi'"
      "fi_listeners (is_fi s1) = fi_listeners ?fi" "is_calls s1 = (is_calls s)(i := c)"
      "xs = replicate m i" "m \<le> 5" for xs s1 event c m
  proof -
    have "?run (replicate (m + Suc (length (fi_listeners ?fi))) i) s =
        Some (s1\<lparr>is_fi := fi', is_calls := (is_calls s1)(i := CallDone)\<rparr>)"
      unfolding replicate_add run_calls_append using that(1,4,6) run_dispatch_to [OF that(2,3), of g ords]
      by simp
    moreover have "s1\<lparr>is_fi := fi', is_calls := (is_calls s1)(i := CallDone)\<rparr> =
        s\<lparr>is_fi := fi', is_calls := (is_calls s)(i := CallDone)\<rparr>"
      using that(5) by (cases s1; cases s) simp
    ultimately show ?thesis using that(7) by (intro exI [of _ "m + Suc (length (fi_listeners ?fi))"]) simp
  qed
  show ?thesis
  proof (cases err)
    case (Some e)
    let ?event = "\<lparr>ev_err = Some e, ev_groups = None\<rparr>"
    have "?run [i, i] s = Some (?to (CallDispatch ?event 0))" using two Some by (simp add: after_scan_def)
    from joined [OF this, of ?event "CallDispatch ?event 0" 2] finish Some show ?thesis
      by (simp add: ingest_finish_def numeral_eq_Suc)
  next
    case None
    let ?event = "built_event g ords rrc"
    have event: "ingest_finish g ords on_event ?old (d, rrc, err) ?fi =
        (if \<not> fi_first ?fi then dispatch_to on_event ?event (?fi\<lparr>fi_first := True, fi_checksum := ?new\<rparr>)
         else if ?old \<noteq> ?new then dispatch_to on_event ?event (?fi\<lparr>fi_checksum := ?new\<rparr>) else Inr ?fi)"
      using None by (simp add: ingest_finish_def built_event_def built_groups_def Let_def split: prod.split)
    consider "\<not> fi_first ?fi" | "fi_first ?fi" "?old \<noteq> ?new" | "fi_first ?fi" "?old = ?new" by blast
    then show ?thesis
    proof cases
      case 1
      have "?run [i, i, i, i] s = Some (s\<lparr>is_fi := ?fi\<lparr>fi_first := True, fi_checksum := ?new\<rparr>,
          is_calls := (is_calls s)(i := CallDispatch ?event 0)\<rparr>)"
        using assms(1) read None 1 by (simp add: advance_call_def Let_def after_scan_def)
      from joined [OF this, of ?event "CallDispatch ?event 0" 4] finish event 1 show ?thesis
        by (simp add: numeral_eq_Suc)
    next
      case 2
      have "?run [i, i, i, i, i] s = Some (s\<lparr>is_fi := ?fi\<lparr>fi_checksum := ?new\<rparr>,
          is_calls := (is_calls s)(i := CallDispatch ?event 0)\<rparr>)"
        using assms(1) read None 2 by (simp add: advance_call_def Let_def after_scan_def)
      from joined [OF this, of ?event "CallDispatch ?event 0" 5] finish event 2 show ?thesis
        by (simp add: numeral_eq_Suc)
    next
      case 3
      have "?run (replicate 4 i) s = Some (?to CallDone)"
        using assms(1) read None 3 by (simp add: advance_call_def Let_def after_scan_def numeral_eq_Suc)
      with finish event 3 show ?thesis by (intro exI [of _ 4]) simp
    qed
  qed
qed

section \<open>Any interleaving\<close>

text \<open>The groups and checksums that the scans of the calls can yield.\<close>

definition offered_scans ::
  "growth \<Rightarrow> map_orders \<Rightarrow> 'l file_ingester \<Rightarrow> 'e ingest_env set \<Rightarrow> (addr list groups \<times> 32 word) set" where
  "offered_scans g ords fi envs =
     {(build_from g ords (fi_domain fi) rrs, adler32 bytes) | rrs bytes.
        \<exists>env \<in> envs. scan env fi = Inr (rrs, bytes)}"

definition start_calls :: "'l file_ingester \<Rightarrow> (nat \<Rightarrow> 'e ingest_env option) \<Rightarrow> ('l, 'e) ingest_system" where
  "start_calls fi envs =
     \<lparr>is_fi = fi, is_calls = \<lambda>i. case envs i of None \<Rightarrow> CallDone | Some env \<Rightarrow> CallStart env\<rparr>"

fun storing :: "'e ingest_call \<Rightarrow> bool" where
  "storing (CallStore _ _) = True"
| "storing _ = False"

fun call_ok ::
  "growth \<Rightarrow> map_orders \<Rightarrow> 'e ingest_env set \<Rightarrow> (addr list groups \<times> 32 word) set \<Rightarrow> 'e ingest_call \<Rightarrow> bool" where
  "call_ok g ords E off (CallStart env) \<longleftrightarrow> env \<in> E"
| "call_ok g ords E off (CallLoaded env old) \<longleftrightarrow> env \<in> E"
| "call_ok g ords E off (CallScanned old new rrc) \<longleftrightarrow> (built_groups g ords rrc, new) \<in> off"
| "call_ok g ords E off (CallStore new rrc) \<longleftrightarrow> (built_groups g ords rrc, new) \<in> off"
| "call_ok g ords E off (CallCompare old new rrc) \<longleftrightarrow> (built_groups g ords rrc, new) \<in> off"
| "call_ok g ords E off (CallSwap old new rrc) \<longleftrightarrow> (built_groups g ords rrc, new) \<in> off"
| "call_ok g ords E off (CallDispatch event k) \<longleftrightarrow>
     ev_err event \<noteq> None \<or> (\<exists>gps \<in> fst ` off. ev_groups event = Some gps)"
| "call_ok g ords E off CallDone \<longleftrightarrow> True"
| "call_ok g ords E off (CallPanicked p) \<longleftrightarrow> False"

definition same_config :: "'l file_ingester \<Rightarrow> 'l file_ingester \<Rightarrow> bool" where
  "same_config fi fi' \<longleftrightarrow> fi_globs fi' = fi_globs fi \<and> fi_origin fi' = fi_origin fi \<and> fi_ttl fi' = fi_ttl fi \<and>
     fi_domain fi' = fi_domain fi \<and> length (fi_listeners fi') = length (fi_listeners fi)"

definition shown_ok ::
  "('b, 'q, 'r) medley \<Rightarrow> 'b \<Rightarrow> addr list groups option set \<Rightarrow> ('b, 'r) locator list \<Rightarrow> bool" where
  "shown_ok md b views ls \<longleftrightarrow> (\<forall>l \<in> set ls. is_published md b l \<and> loc_groups l \<in> views)"

definition overlap_ok ::
  "('b, 'q, 'r) medley \<Rightarrow> 'b \<Rightarrow> growth \<Rightarrow> map_orders \<Rightarrow> ('b, 'r) locator file_ingester \<Rightarrow> 'e ingest_env set
    \<Rightarrow> (('b, 'r) locator, 'e) ingest_system \<Rightarrow> bool" where
  "overlap_ok md b g ords fi E s \<longleftrightarrow>
     (let off = offered_scans g ords fi E in
      same_config fi (is_fi s) \<and> fi_checksum (is_fi s) \<in> insert (fi_checksum fi) (snd ` off) \<and>
      shown_ok md b (loc_groups ` set (fi_listeners fi) \<union> Some ` fst ` off) (fi_listeners (is_fi s)) \<and>
      (\<forall>i. call_ok g ords E off (is_calls s i)) \<and>
      (\<forall>i. storing (is_calls s i) \<longrightarrow> fi_first (is_fi s)) \<and>
      (\<forall>i j. storing (is_calls s i) \<longrightarrow> storing (is_calls s j) \<longrightarrow> i = j))"

lemma scan_same_config: "same_config fi fi' \<Longrightarrow> scan env fi' = scan env fi"
  unfolding same_config_def by (intro scan_fields) simp_all

lemma after_scan_ok:
  assumes "same_config fi fi'" and "env \<in> E"
  shows "call_ok g ords E (offered_scans g ords fi E) (after_scan old (ingest_read g env fi'))"
proof (cases "scan env fi'")
  case (Inl e)
  with ingest_read_scan [where env = env and fi = fi' and g = g] obtain d rrc
    where "ingest_read g env fi' = (d, rrc, Some e)" by auto
  then show ?thesis by (simp add: after_scan_def)
next
  case (Inr r)
  then obtain rrs bytes rrc where scan: "scan env fi' = Inr (rrs, bytes)"
    and add: "add_rrs g (new_rr_collector (fi_domain fi')) rrs = (rrc, None)"
    and read: "ingest_read g env fi' = (adler_write adler_new bytes, rrc, None)"
    using ingest_read_scan [where env = env and fi = fi' and g = g] by (cases r) auto
  have dom: "fi_domain fi' = fi_domain fi" using assms(1) by (simp add: same_config_def)
  have "built_groups g ords rrc = build_from g ords (fi_domain fi) rrs"
    using add unfolding dom by (simp add: built_groups_def build_from_def)
  moreover have "scan env fi = Inr (rrs, bytes)" using scan scan_same_config [OF assms(1), of env] by simp
  ultimately show ?thesis
    using assms(2) read by (auto simp: after_scan_def offered_scans_def adler32_def)
qed

lemma storing_after_scan [simp]: "\<not> storing (after_scan old result)"
  by (cases result; cases "snd (snd result)") (auto simp: after_scan_def)

lemma dispatch_shown:
  assumes "shown_ok md b views ls" and "k < length ls"
    and "ev_err event \<noteq> None \<or> (\<exists>gps. Some gps \<in> views \<and> ev_groups event = Some gps)"
  shows "\<exists>l. on_ingest md (ls ! k) event = Inr l \<and> shown_ok md b views (ls[k := l])"
proof -
  have l: "is_published md b (ls ! k)" "loc_groups (ls ! k) \<in> views"
    using assms(1,2) by (simp_all add: shown_ok_def)
  have "\<exists>l'. on_ingest md (ls ! k) event = Inr l' \<and> is_published md b l' \<and> loc_groups l' \<in> views"
  proof (cases "ev_err event = None")
    case True
    then obtain gps where "Some gps \<in> views" "ev_groups event = Some gps" using assms(3) by blast
    with locl.on_groups [OF l(1) True] show ?thesis by fastforce
  qed (use l in \<open>simp add: on_ingest_def\<close>)
  with assms(1) show ?thesis using set_update_subset_insert [of ls k] by (fastforce simp: shown_ok_def)
qed

lemma same_config_simps [simp]:
  "same_config fi fi"
  "same_config fi (fi'\<lparr>fi_first := x\<rparr>) = same_config fi fi'"
  "same_config fi (fi'\<lparr>fi_checksum := c\<rparr>) = same_config fi fi'"
  "length ls = length (fi_listeners fi') \<Longrightarrow> same_config fi (fi'\<lparr>fi_listeners := ls\<rparr>) = same_config fi fi'"
  by (simp_all add: same_config_def)

text \<open>A step that only moves the call on, to a state that is not about to store.\<close>

lemma overlap_ok_call:
  assumes "overlap_ok md b g ords fi E s" and "same_config fi fi'" and "fi_first fi' \<or> \<not> fi_first (is_fi s)"
    and "fi_checksum fi' \<in> insert (fi_checksum fi) (snd ` offered_scans g ords fi E)"
    and "shown_ok md b (loc_groups ` set (fi_listeners fi) \<union> Some ` fst ` offered_scans g ords fi E) (fi_listeners fi')"
    and "call_ok g ords E (offered_scans g ords fi E) c"
    and "storing c \<Longrightarrow> fi_first fi' \<and> \<not> fi_first (is_fi s)"
  shows "overlap_ok md b g ords fi E (s\<lparr>is_fi := fi', is_calls := (is_calls s)(i := c)\<rparr>)"
  using assms by (auto simp: overlap_ok_def Let_def)

lemma overlap_ok_step:
  assumes step: "advance_call g ords (on_ingest md) i s = Some s'" and ok: "overlap_ok md b g ords fi E s"
  shows "overlap_ok md b g ords fi E s'"
proof -
  let ?off = "offered_scans g ords fi E"
  have config: "same_config fi (is_fi s)"
    and sum: "fi_checksum (is_fi s) \<in> insert (fi_checksum fi) (snd ` ?off)"
    and shown: "shown_ok md b (loc_groups ` set (fi_listeners fi) \<union> Some ` fst ` ?off) (fi_listeners (is_fi s))"
    and call: "call_ok g ords E ?off (is_calls s i)"
    using ok by (simp_all add: overlap_ok_def Let_def)
  note to = overlap_ok_call [OF ok, where i = i]
  have stay: "overlap_ok md b g ords fi E (s\<lparr>is_calls := (is_calls s)(i := c)\<rparr>)"
    if "call_ok g ords E ?off c" "\<not> storing c" for c
    using to [of "is_fi s" c] config sum shown that by simp
  have pair: "new \<in> snd ` ?off \<and> gps \<in> fst ` ?off" if "(gps, new) \<in> ?off" for gps new
    using that by force
  show ?thesis
  proof (cases "is_calls s i")
    case (CallDispatch event k)
    show ?thesis
    proof (cases "k < length (fi_listeners (is_fi s))")
      case True
      have "ev_err event \<noteq> None \<or> (\<exists>gps. Some gps \<in> loc_groups ` set (fi_listeners fi) \<union> Some ` fst ` ?off \<and>
          ev_groups event = Some gps)"
        using call unfolding CallDispatch call_ok.simps by blast
      from dispatch_shown [OF shown True this] obtain l where l:
        "on_ingest md (fi_listeners (is_fi s) ! k) event = Inr l"
        "shown_ok md b (loc_groups ` set (fi_listeners fi) \<union> Some ` fst ` ?off)
          ((fi_listeners (is_fi s))[k := l])"
        by blast
      with step CallDispatch True have moved:
        "s' = s\<lparr>is_fi := (is_fi s)\<lparr>fi_listeners := (fi_listeners (is_fi s))[k := l]\<rparr>,
          is_calls := (is_calls s)(i := CallDispatch event (Suc k))\<rparr>"
        by (simp add: advance_call_def Let_def)
      show ?thesis
        unfolding moved using config sum l(2) call CallDispatch by (intro to) simp_all
    next
      case False
      with step CallDispatch have "s' = s\<lparr>is_fi := is_fi s, is_calls := (is_calls s)(i := CallDone)\<rparr>"
        by (simp add: advance_call_def Let_def)
      with to [of "is_fi s" CallDone] config sum shown show ?thesis by simp
    qed
  next
    case (CallLoaded env old)
    with step have "s' = s\<lparr>is_fi := is_fi s, is_calls := (is_calls s)(i := after_scan old (ingest_read g env (is_fi s)))\<rparr>"
      by (simp add: advance_call_def Let_def)
    with to [of "is_fi s" "after_scan old (ingest_read g env (is_fi s))"] config sum shown call CallLoaded
    show ?thesis by (simp add: after_scan_ok)
  qed (use step call config sum shown in \<open>auto simp: advance_call_def Let_def built_event_def
      split: if_splits intro!: to stay dest: pair\<close>)
qed

lemma overlap_ok_start:
  assumes "\<forall>l \<in> set (fi_listeners fi). is_published md b l"
  shows "overlap_ok md b g ords fi {env. \<exists>i. envs i = Some env} (start_calls fi envs)"
proof -
  have "call_ok g ords {env. \<exists>i. envs i = Some env} off (is_calls (start_calls fi envs) i)" for i and off
    by (cases "envs i") (auto simp: start_calls_def)
  moreover have "\<not> storing (is_calls (start_calls fi envs) i)" for i
    by (cases "envs i") (auto simp: start_calls_def)
  ultimately show ?thesis using assms by (auto simp: overlap_ok_def shown_ok_def start_calls_def)
qed

interpretation overlap: step_system "istep g ords (on_ingest md)" "overlap_ok md b g ords fi E"
  for g ords md b fi E
  by unfold_locales (auto intro: overlap_ok_step elim!: istep.cases)

lemma overlap_ok_reachable:
  assumes "\<forall>l \<in> set (fi_listeners fi). is_published md b l"
    and "(istep g ords (on_ingest md))\<^sup>*\<^sup>* (start_calls fi envs) s"
  shows "overlap_ok md b g ords fi {env. \<exists>i. envs i = Some env} s"
  using assms(2) overlap_ok_start [OF assms(1)] by (rule overlap.steps_inv)

section \<open>Properties\<close>

text \<open>
  However calls of \<open>Ingest\<close> overlap, no listener shows a mixture. Every locator
  holds, whole, the groups it started with or those of one error-free scan by one of the
  calls, the stored checksum is the initial one or that of such a scan, at most one call is
  the first, and no call panics.
\<close>

theorem ingest_overlap_safe:
  assumes "\<forall>l \<in> set (fi_listeners fi). is_published md b l"
    and "(istep g ords (on_ingest md))\<^sup>*\<^sup>* (start_calls fi envs) s"
  shows "(\<forall>l \<in> set (fi_listeners (is_fi s)). is_published md b l \<and>
      loc_groups l \<in> loc_groups ` set (fi_listeners fi) \<union>
        Some ` fst ` offered_scans g ords fi {env. \<exists>i. envs i = Some env}) \<and>
    fi_checksum (is_fi s) \<in> insert (fi_checksum fi)
      (snd ` offered_scans g ords fi {env. \<exists>i. envs i = Some env}) \<and>
    (\<forall>i j. storing (is_calls s i) \<longrightarrow> storing (is_calls s j) \<longrightarrow> i = j) \<and>
    (\<forall>i p. is_calls s i \<noteq> CallPanicked p)"
proof -
  have ok: "overlap_ok md b g ords fi {env. \<exists>i. envs i = Some env} s"
    using assms by (rule overlap_ok_reachable)
  have "is_calls s i \<noteq> CallPanicked p" for i p
    using ok unfolding overlap_ok_def Let_def by (metis call_ok.simps(9))
  with ok show ?thesis by (simp add: overlap_ok_def Let_def shown_ok_def)
qed

theorem ingest_overlap_safe_witness:
  "\<exists>s. (istep (\<lambda>_ n. n) sample_orders (on_ingest sample_medley))\<^sup>*\<^sup>*
      (start_calls sample_ingester (\<lambda>_. Some sample_env)) s \<and> is_calls s 0 = CallDone \<and>
    (\<forall>l \<in> set (fi_listeners (is_fi s)). is_published sample_medley 0 l)"
proof -
  let ?s = "start_calls sample_ingester (\<lambda>_. Some sample_env)"
  obtain fi' where fi': "ingest (\<lambda>_ n. n) sample_orders sample_env (on_ingest sample_medley) sample_ingester = Inr fi'"
    using ingest_locators [OF sample_listeners, of "\<lambda>_ n. n" sample_orders sample_env] by blast
  then obtain n where n: "run_calls (\<lambda>_ n. n) sample_orders (on_ingest sample_medley) (replicate n 0) ?s =
      Some (?s\<lparr>is_fi := fi', is_calls := (is_calls ?s)(0 := CallDone)\<rparr>)"
    using call_alone [of ?s 0 sample_env "\<lambda>_ n. n" sample_orders "on_ingest sample_medley" fi']
    by (auto simp: start_calls_def)
  from ingest_overlap_safe [OF sample_listeners run_calls_isteps [OF n]] run_calls_isteps [OF n] show ?thesis
    by (intro exI [of _ "?s\<lparr>is_fi := fi', is_calls := (is_calls ?s)(0 := CallDone)\<rparr>"]) simp
qed

text \<open>A call that finds a change has swapped the checksum before its listeners hear of it.\<close>

lemma call_claims:
  assumes "is_calls s i = CallStart env" and "fi_first (is_fi s)"
    and "scan env (is_fi s) = Inr (rrs, bytes)" and "adler32 bytes \<noteq> fi_checksum (is_fi s)"
  shows "run_calls g ords on_event [i, i, i, i, i] s =
    Some (s\<lparr>is_fi := (is_fi s)\<lparr>fi_checksum := adler32 bytes\<rparr>,
      is_calls := (is_calls s)(i := CallDispatch (scanned_event g ords (is_fi s) rrs) 0)\<rparr>)"
proof -
  obtain rrc where add: "add_rrs g (new_rr_collector (fi_domain (is_fi s))) rrs = (rrc, None)"
    and read: "ingest_read g env (is_fi s) = (adler_write adler_new bytes, rrc, None)"
    using ingest_read_scan [where env = env and fi = "is_fi s" and g = g] assms(3) by auto
  have "built_groups g ords rrc = build_from g ords (fi_domain (is_fi s)) rrs"
    using add by (simp add: built_groups_def build_from_def)
  with assms read show ?thesis
    by (simp add: advance_call_def Let_def after_scan_def adler32_def built_event_def scanned_event_def)
qed

lemma dispatch_published:
  assumes "\<forall>l \<in> set ls. is_published md b l" and "ev_err event = None" and "ev_groups event = Some gps"
  shows "dispatch_ingest_event (on_ingest md) event ls = Inr (map (\<lambda>_. published md b (Some gps)) ls)"
  using assms(1)
proof (induction ls)
  case (Cons l ls)
  then have "on_ingest md l event = Inr (published md b (Some gps))"
    using assms(2,3) update_published [of md b "loc_groups l" gps] by (auto simp: on_ingest_def is_published_def)
  with Cons show ?case by simp
qed simp

lemma ingest_changed_fields:
  assumes "ingest g ords env on_event fi = Inr fi'" and "scan env fi = Inr (rrs, bytes)"
  shows "fi_first fi' \<and> fi_checksum fi' = adler32 bytes"
  using assms by (auto simp: ingest_eq_spec ingest_spec_def changed_def split: if_splits dest!: dispatch_to_fields)

text \<open>
  Property C15: overlapping calls can leave the listeners behind for good. The swap of the
  checksum and the dispatch are separate, so a call that found the files as in \<open>A\<close> can be
  overtaken, between the two, by a call that finds them as in \<open>B\<close>. When both have returned the
  locators serve the groups of \<open>A\<close>, the checksum is that of \<open>B\<close>, and ingesting \<open>B\<close> again is a
  no-op: nothing corrects the locators until the files change once more.
\<close>

theorem overlap_leaves_stale_groups:
  fixes envA envB :: "'e ingest_env"
  assumes "\<forall>l \<in> set (fi_listeners fi). is_published md b l" and "fi_first fi"
    and "scan envA fi = Inr (rrsA, bytesA)" and "scan envB fi = Inr (rrsB, bytesB)"
    and "adler32 bytesA \<noteq> fi_checksum fi" and "adler32 bytesB \<noteq> adler32 bytesA"
  shows "\<exists>s. (istep g ords (on_ingest md))\<^sup>*\<^sup>*
        (start_calls fi (\<lambda>i. if i = 0 then Some envA else if i = 1 then Some envB else None)) s \<and>
    (\<forall>i. is_calls s i = CallDone) \<and> fi_checksum (is_fi s) = adler32 bytesB \<and>
    fi_listeners (is_fi s) =
      map (\<lambda>_. published md b (Some (build_from g ords (fi_domain fi) rrsA))) (fi_listeners fi) \<and>
    ingest g ords envB (on_ingest md) (is_fi s) = Inr (is_fi s)"
proof -
  let ?start = "start_calls fi (\<lambda>i. if i = 0 then Some envA else if i = 1 then Some envB else None)"
  let ?run = "run_calls g ords (on_ingest md)"
  let ?pub = "\<lambda>rrs. map (\<lambda>_. published md b (Some (build_from g ords (fi_domain fi) rrs))) (fi_listeners fi)"
  let ?event = "scanned_event g ords fi rrsA :: 'e ingest_error ingest_event"
  let ?fi1 = "fi\<lparr>fi_checksum := adler32 bytesA\<rparr>"
  let ?s1 = "?start\<lparr>is_fi := ?fi1, is_calls := (is_calls ?start)(0 := CallDispatch ?event 0)\<rparr>"
  have one: "?run [0, 0, 0, 0, 0] ?start = Some ?s1"
    using call_claims [of ?start 0 envA rrsA bytesA g ords "on_ingest md"] assms(2,3,5)
    by (simp add: start_calls_def)
  have scan1: "scan env ?fi1 = scan env fi" for env :: "'e ingest_env" by (rule scan_fields) simp_all
  obtain fi2 where fi2: "ingest g ords envB (on_ingest md) ?fi1 = Inr fi2" "fi_listeners fi2 = ?pub rrsB"
    using ingest_locators [of ?fi1 md b g ords envB] assms(1,4,6) by (auto simp: scan1 changed_def)
  let ?s2 = "?s1\<lparr>is_fi := fi2, is_calls := (is_calls ?s1)(1 := CallDone)\<rparr>"
  obtain n where two: "?run (replicate n 1) ?s1 = Some ?s2"
    using call_alone [of ?s1 1 envB g ords "on_ingest md" fi2] fi2(1) by (auto simp: start_calls_def)
  let ?fi3 = "fi2\<lparr>fi_listeners := ?pub rrsA\<rparr>"
  let ?s3 = "?s2\<lparr>is_fi := ?fi3, is_calls := (is_calls ?s2)(0 := CallDone)\<rparr>"
  have "dispatch_ingest_event (on_ingest md) ?event (fi_listeners fi2) = Inr (?pub rrsA)"
    unfolding fi2(2) by (subst dispatch_published [of _ md b]) (auto simp: scanned_event_def)
  then have "dispatch_to (on_ingest md) ?event fi2 = Inr ?fi3" by (simp add: dispatch_to_def)
  with run_dispatch_to [of ?s2 0 ?event "on_ingest md" ?fi3 g ords]
  have three: "?run (replicate (Suc (length (fi_listeners fi2))) 0) ?s2 = Some ?s3" by simp
  have all: "?run ([0, 0, 0, 0, 0] @ replicate n 1 @ replicate (Suc (length (fi_listeners fi2))) 0) ?start = Some ?s3"
    unfolding run_calls_append one two option.case three ..
  note B = ingest_changed_fields [OF fi2(1)]
  have scan3: "scan envB ?fi3 = Inr (rrsB, bytesB)"
    using ingest_spec_fields(1) [OF fi2(1) [unfolded ingest_eq_spec], of envB] scan1 assms(4)
      scan_fields [of ?fi3 fi2 envB] by simp
  then have "\<not> changed ?fi3 bytesB" using B [of rrsB bytesB] scan1 assms(4) by (simp add: changed_def)
  with scan3 have "ingest g ords envB (on_ingest md) ?fi3 = Inr ?fi3"
    by (simp add: ingest_eq_spec ingest_spec_def)
  moreover have "is_calls ?s3 i = CallDone" for i by (simp add: start_calls_def)
  ultimately show ?thesis
    using run_calls_isteps [OF all] B [of rrsB bytesB] scan1 assms(4) by (intro exI [of _ ?s3]) simp
qed

text \<open>After a first ingest one zone file is added, and then the other one removed.\<close>

definition small_env :: "string \<Rightarrow> string ingest_env" where
  "small_env path = sample_env\<lparr>env_glob := \<lambda>_. Inr [path]\<rparr>"

theorem overlap_leaves_stale_groups_witness:
  "\<exists>s :: ((int, addr list endpoint list) locator, string) ingest_system. fi_checksum (is_fi s) = adler32 ''a.zone'' \<and>
    fi_listeners (is_fi s) = [published sample_medley 0
      (Some (build_from (\<lambda>_ n. n) sample_orders ''d.'' (drop 3 sample_zone)))] \<and>
    ingest (\<lambda>_ n. n) sample_orders (small_env ''a.zone'') (on_ingest sample_medley) (is_fi s) = Inr (is_fi s)"
proof -
  let ?fi = "sample_ingester\<lparr>fi_first := True, fi_checksum := 1\<rparr>"
  have pub: "\<forall>l \<in> set (fi_listeners ?fi). is_published sample_medley 0 l" using sample_listeners by simp
  have scans: "scan (small_env ''b.zone'') ?fi = Inr (drop 3 sample_zone, ''b.zone'')"
    "scan (small_env ''a.zone'') ?fi = Inr (take 3 sample_zone, ''a.zone'')"
    by code_simp+
  have sums: "adler32 ''b.zone'' \<noteq> fi_checksum ?fi" "adler32 ''a.zone'' \<noteq> adler32 ''b.zone''"
    by (simp_all add: adler32_def adler_value_def adler_write_def adler_new_def)
  have "fi_first ?fi" "fi_domain ?fi = ''d.''" "length (fi_listeners ?fi) = 1"
    by (simp_all add: sample_ingester_def zero_file_ingester_def)
  with overlap_leaves_stale_groups [OF pub _ scans sums, of "\<lambda>_ n. n" sample_orders] show ?thesis
    by (auto simp: length_Suc_conv)
qed

end
