(* ===== verification/Locator_Concurrency.thy ===== *)
theory Locator_Concurrency
  imports Locator Step_Systems
begin

text \<open>
  The locator under concurrent use: DNS requests look objects up while the ingester's
  goroutine publishes new groups. Each goroutine runs one call of \<open>Find\<close>/\<open>FindString\<close>,
  \<open>Groups\<close> or \<open>Update\<close>; a step of the relation is one access to the lock or to a field of the
  locator. \<open>sync.RWMutex\<close> admits many readers or one writer.
\<close>

section \<open>Goroutines\<close>

datatype 'r goroutine =
    FindStart string "string list"
  | FindAll string "'r option list" located
  | FindNamed string "string list" "string list" located
  | FindDone string "string list" located
  | GroupsStart
  | GroupsRead "addr list groups option"
  | GroupsDone "addr list groups option"
  | UpdateStart "addr list groups"
  | UpdateBuilt "addr list groups" "(string \<times> 'r option) list" "'r option list"
  | UpdateWrite nat "addr list groups" "(string \<times> 'r option) list" "'r option list"
  | UpdateDone "addr list groups"

record ('b, 'r) system =
  sys_loc :: "('b, 'r) locator"
  sys_writer :: "nat option"
  sys_readers :: "nat set"
  sys_threads :: "nat \<Rightarrow> 'r goroutine"

text \<open>One ring of the filtered loop: the nil ring is skipped.\<close>

definition visit_named ::
  "('b, 'q, 'r) medley \<Rightarrow> ('b, 'r) locator \<Rightarrow> string \<Rightarrow> string \<Rightarrow> located" where
  "visit_named md l object n =
     (case ring_named l n of None \<Rightarrow> [] | Some ring \<Rightarrow> [md_nearest_string md (Some ring) object])"

inductive lstep :: "('b, 'q, 'r) medley \<Rightarrow> ('b, 'r) system \<Rightarrow> ('b, 'r) system \<Rightarrow> bool"
  for md :: "('b, 'q, 'r) medley"
where
  find_lock_all:
    "sys_threads s i = FindStart object [] \<Longrightarrow> sys_writer s = None \<Longrightarrow>
     lstep md s (s\<lparr>sys_readers := insert i (sys_readers s),
       sys_threads := (sys_threads s)(i := FindAll object (loc_all_rings (sys_loc s)) [])\<rparr>)"
| find_lock_named:
    "sys_threads s i = FindStart object names \<Longrightarrow> names \<noteq> [] \<Longrightarrow> sys_writer s = None \<Longrightarrow>
     lstep md s (s\<lparr>sys_readers := insert i (sys_readers s),
       sys_threads := (sys_threads s)(i := FindNamed object names names [])\<rparr>)"
| find_all:
    "sys_threads s i = FindAll object (ring # todo) results \<Longrightarrow>
     lstep md s (s\<lparr>sys_threads := (sys_threads s)(i :=
       FindAll object todo (results @ [md_nearest_string md ring object]))\<rparr>)"
| find_named:
    "sys_threads s i = FindNamed object names (n # todo) results \<Longrightarrow>
     lstep md s (s\<lparr>sys_threads := (sys_threads s)(i :=
       FindNamed object names todo (results @ visit_named md (sys_loc s) object n))\<rparr>)"
| find_unlock_all:
    "sys_threads s i = FindAll object [] results \<Longrightarrow>
     lstep md s (s\<lparr>sys_readers := sys_readers s - {i},
       sys_threads := (sys_threads s)(i := FindDone object [] results)\<rparr>)"
| find_unlock_named:
    "sys_threads s i = FindNamed object names [] results \<Longrightarrow>
     lstep md s (s\<lparr>sys_readers := sys_readers s - {i},
       sys_threads := (sys_threads s)(i := FindDone object names results)\<rparr>)"
| groups_lock:
    "sys_threads s i = GroupsStart \<Longrightarrow> sys_writer s = None \<Longrightarrow>
     lstep md s (s\<lparr>sys_readers := insert i (sys_readers s),
       sys_threads := (sys_threads s)(i := GroupsRead (loc_groups (sys_loc s)))\<rparr>)"
| groups_unlock:
    "sys_threads s i = GroupsRead gps_ptr \<Longrightarrow>
     lstep md s (s\<lparr>sys_readers := sys_readers s - {i},
       sys_threads := (sys_threads s)(i := GroupsDone gps_ptr)\<rparr>)"
| update_build:
    "sys_threads s i = UpdateStart gps \<Longrightarrow>
     build_rings md (loc_builder (sys_loc s)) (groups_all gps) = (by_name, all) \<Longrightarrow>
     lstep md s (s\<lparr>sys_threads := (sys_threads s)(i := UpdateBuilt gps by_name all)\<rparr>)"
| update_lock:
    "sys_threads s i = UpdateBuilt gps by_name all \<Longrightarrow> sys_writer s = None \<Longrightarrow> sys_readers s = {} \<Longrightarrow>
     lstep md s (s\<lparr>sys_writer := Some i,
       sys_threads := (sys_threads s)(i := UpdateWrite 0 gps by_name all)\<rparr>)"
| update_groups:
    "sys_threads s i = UpdateWrite 0 gps by_name all \<Longrightarrow>
     lstep md s (s\<lparr>sys_loc := (sys_loc s)\<lparr>loc_groups := Some gps\<rparr>,
       sys_threads := (sys_threads s)(i := UpdateWrite 1 gps by_name all)\<rparr>)"
| update_by_name:
    "sys_threads s i = UpdateWrite 1 gps by_name all \<Longrightarrow>
     lstep md s (s\<lparr>sys_loc := (sys_loc s)\<lparr>loc_rings_by_name := Some by_name\<rparr>,
       sys_threads := (sys_threads s)(i := UpdateWrite 2 gps by_name all)\<rparr>)"
| update_all:
    "sys_threads s i = UpdateWrite 2 gps by_name all \<Longrightarrow>
     lstep md s (s\<lparr>sys_loc := (sys_loc s)\<lparr>loc_all_rings := all\<rparr>,
       sys_threads := (sys_threads s)(i := UpdateWrite 3 gps by_name all)\<rparr>)"
| update_unlock:
    "sys_threads s i = UpdateWrite 3 gps by_name all \<Longrightarrow>
     lstep md s (s\<lparr>sys_writer := None,
       sys_threads := (sys_threads s)(i := UpdateDone gps)\<rparr>)"

text \<open>The same steps as a function of the goroutine that runs next; \<^const>\<open>None\<close> when it is blocked or done.\<close>

definition advance :: "('b, 'q, 'r) medley \<Rightarrow> nat \<Rightarrow> ('b, 'r) system \<Rightarrow> ('b, 'r) system option" where
  "advance md i s =
     (let go = \<lambda>t s. s\<lparr>sys_threads := (sys_threads s)(i := t)\<rparr>;
          rlock = \<lambda>t. if sys_writer s = None
            then Some (go t (s\<lparr>sys_readers := insert i (sys_readers s)\<rparr>)) else None;
          runlock = \<lambda>t. Some (go t (s\<lparr>sys_readers := sys_readers s - {i}\<rparr>));
          write = \<lambda>l t. Some (go t (s\<lparr>sys_loc := l\<rparr>))
      in case sys_threads s i of
        FindStart object names \<Rightarrow>
          rlock (if names = [] then FindAll object (loc_all_rings (sys_loc s)) []
                 else FindNamed object names names [])
      | FindAll object (ring # todo) results \<Rightarrow>
          Some (go (FindAll object todo (results @ [md_nearest_string md ring object])) s)
      | FindAll object [] results \<Rightarrow> runlock (FindDone object [] results)
      | FindNamed object names (n # todo) results \<Rightarrow>
          Some (go (FindNamed object names todo (results @ visit_named md (sys_loc s) object n)) s)
      | FindNamed object names [] results \<Rightarrow> runlock (FindDone object names results)
      | GroupsStart \<Rightarrow> rlock (GroupsRead (loc_groups (sys_loc s)))
      | GroupsRead gps_ptr \<Rightarrow> runlock (GroupsDone gps_ptr)
      | UpdateStart gps \<Rightarrow>
          (let (by_name, all) = build_rings md (loc_builder (sys_loc s)) (groups_all gps)
           in Some (go (UpdateBuilt gps by_name all) s))
      | UpdateBuilt gps by_name all \<Rightarrow>
          if sys_writer s = None \<and> sys_readers s = {}
          then Some (go (UpdateWrite 0 gps by_name all) (s\<lparr>sys_writer := Some i\<rparr>)) else None
      | UpdateWrite k gps by_name all \<Rightarrow>
          if k = 0 then write ((sys_loc s)\<lparr>loc_groups := Some gps\<rparr>) (UpdateWrite 1 gps by_name all)
          else if k = 1 then write ((sys_loc s)\<lparr>loc_rings_by_name := Some by_name\<rparr>) (UpdateWrite 2 gps by_name all)
          else if k = 2 then write ((sys_loc s)\<lparr>loc_all_rings := all\<rparr>) (UpdateWrite 3 gps by_name all)
          else if k = 3 then Some (go (UpdateDone gps) (s\<lparr>sys_writer := None\<rparr>)) else None
      | _ \<Rightarrow> None)"

lemma advance_lstep: "advance md i s = Some s' \<Longrightarrow> lstep md s s'"
  using lstep.intros [of s i]
  by (auto simp: advance_def Let_def split: goroutine.splits list.splits if_splits prod.splits)

fun run_schedule :: "('b, 'q, 'r) medley \<Rightarrow> nat list \<Rightarrow> ('b, 'r) system \<Rightarrow> ('b, 'r) system option" where
  "run_schedule md [] s = Some s"
| "run_schedule md (i # is) s = (case advance md i s of None \<Rightarrow> None | Some s' \<Rightarrow> run_schedule md is s')"

lemma run_schedule_lsteps: "run_schedule md is s = Some s' \<Longrightarrow> (lstep md)\<^sup>*\<^sup>* s s'"
  by (induction "is" arbitrary: s)
    (auto split: option.splits dest!: advance_lstep intro: converse_rtranclp_into_rtranclp)

text \<open>The system before any goroutine has run.\<close>

fun not_started :: "'r goroutine \<Rightarrow> bool" where
  "not_started (FindStart _ _) = True"
| "not_started GroupsStart = True"
| "not_started (UpdateStart _) = True"
| "not_started _ = False"

definition start_system ::
  "('b, 'q, 'r) medley \<Rightarrow> 'b \<Rightarrow> addr list groups option \<Rightarrow> (nat \<Rightarrow> 'r goroutine) \<Rightarrow> ('b, 'r) system" where
  "start_system md b old threads =
     \<lparr>sys_loc = published md b old, sys_writer = None, sys_readers = {}, sys_threads = threads\<rparr>"

text \<open>The groups the locator had, or that some goroutine publishes.\<close>

definition offered :: "addr list groups option \<Rightarrow> (nat \<Rightarrow> 'r goroutine) \<Rightarrow> addr list groups option set" where
  "offered old threads = insert old {Some gps | gps. UpdateStart gps \<in> range threads}"

section \<open>The invariant\<close>

fun reading :: "'r goroutine \<Rightarrow> bool" where
  "reading (FindAll _ _ _) = True"
| "reading (FindNamed _ _ _ _) = True"
| "reading (GroupsRead _) = True"
| "reading _ = False"

fun writing :: "'r goroutine \<Rightarrow> bool" where
  "writing (UpdateWrite _ _ _ _) = True"
| "writing _ = False"

fun goroutine_ok ::
  "('b, 'q, 'r) medley \<Rightarrow> 'b \<Rightarrow> addr list groups option set \<Rightarrow> ('b, 'r) locator \<Rightarrow> 'r goroutine \<Rightarrow> bool" where
  "goroutine_ok md b U l (FindAll object todo results) \<longleftrightarrow>
     results @ map (\<lambda>ring. md_nearest_string md ring object) todo = find_string md l object []"
| "goroutine_ok md b U l (FindNamed object names todo results) \<longleftrightarrow>
     names \<noteq> [] \<and> results @ concat (map (visit_named md l object) todo) = find_string md l object names"
| "goroutine_ok md b U l (FindDone object names results) \<longleftrightarrow>
     (\<exists>gps_ptr \<in> U. results = find_string md (published md b gps_ptr) object names)"
| "goroutine_ok md b U l (GroupsRead gps_ptr) \<longleftrightarrow> gps_ptr \<in> U"
| "goroutine_ok md b U l (GroupsDone gps_ptr) \<longleftrightarrow> gps_ptr \<in> U"
| "goroutine_ok md b U l (UpdateStart gps) \<longleftrightarrow> Some gps \<in> U"
| "goroutine_ok md b U l (UpdateBuilt gps by_name all) \<longleftrightarrow>
     Some gps \<in> U \<and> build_rings md b (gps_all gps) = (by_name, all)"
| "goroutine_ok md b U l (UpdateWrite k gps by_name all) \<longleftrightarrow>
     Some gps \<in> U \<and> build_rings md b (gps_all gps) = (by_name, all) \<and>
     (1 \<le> k \<longrightarrow> loc_groups l = Some gps) \<and>
     (2 \<le> k \<longrightarrow> loc_rings_by_name l = Some by_name) \<and>
     (3 \<le> k \<longrightarrow> loc_all_rings l = all)"
| "goroutine_ok md b U l _ \<longleftrightarrow> True"

definition system_ok ::
  "('b, 'q, 'r) medley \<Rightarrow> 'b \<Rightarrow> addr list groups option set \<Rightarrow> ('b, 'r) system \<Rightarrow> bool" where
  "system_ok md b U s \<longleftrightarrow>
     loc_builder (sys_loc s) = b \<and>
     sys_readers s = {i. reading (sys_threads s i)} \<and>
     set_option (sys_writer s) = {i. writing (sys_threads s i)} \<and>
     (sys_writer s \<noteq> None \<longrightarrow> sys_readers s = {}) \<and>
     (sys_writer s = None \<longrightarrow> (\<exists>gps_ptr \<in> U. sys_loc s = published md b gps_ptr)) \<and>
     (\<forall>i. goroutine_ok md b U (sys_loc s) (sys_threads s i))"

text \<open>Goroutines outside their critical section do not depend on the locator's fields.\<close>

lemma goroutine_ok_frame:
  "\<not> reading t \<Longrightarrow> \<not> writing t \<Longrightarrow> goroutine_ok md b U l t = goroutine_ok md b U l' t"
  by (cases t) simp_all

lemma visit_named_rings:
  "concat (map (visit_named md l object) names) =
     map (\<lambda>ring. md_nearest_string md ring object) (filter (\<lambda>ring. ring \<noteq> None) (map (ring_named l) names))"
  by (induction names) (auto simp: visit_named_def split: option.split)

lemma find_string_named:
  "names \<noteq> [] \<Longrightarrow> find_string md l object names = concat (map (visit_named md l object) names)"
  by (simp add: find_string_map rings_def visit_named_rings)

lemma find_string_all: "find_string md l object [] = map (\<lambda>ring. md_nearest_string md ring object) (loc_all_rings l)"
  by (simp add: find_string_map rings_def)

lemma builder_published [simp]: "loc_builder (published md b gps_ptr) = b"
  by (cases gps_ptr) (simp_all add: published_def zero_locator_def)

text \<open>A step of a goroutine that leaves the locator and the lock's writer alone.\<close>

lemma system_ok_local:
  assumes ok: "system_ok md b U s" and "\<not> writing (sys_threads s i)" "\<not> writing t"
    and "goroutine_ok md b U (sys_loc s) t"
    and "reading t \<longrightarrow> sys_writer s = None"
  shows "system_ok md b U (s\<lparr>sys_readers := (if reading t then insert i (sys_readers s) else sys_readers s - {i}),
    sys_threads := (sys_threads s)(i := t)\<rparr>)"
  using assms by (auto simp: system_ok_def)

text \<open>The writing goroutine holds the write lock, alone.\<close>

lemma writer_alone:
  assumes ok: "system_ok md b U s" and "writing (sys_threads s i)"
  shows "sys_writer s = Some i" and "\<not> reading (sys_threads s j)" and "j \<noteq> i \<Longrightarrow> \<not> writing (sys_threads s j)"
proof -
  have w: "set_option (sys_writer s) = {i. writing (sys_threads s i)}"
    using ok unfolding system_ok_def by blast
  with assms(2) show i: "sys_writer s = Some i" by auto
  then have "sys_readers s = {}" using ok unfolding system_ok_def by blast
  then show "\<not> reading (sys_threads s j)" using ok unfolding system_ok_def by blast
  show "\<not> writing (sys_threads s j)" if "j \<noteq> i" using w i that by auto
qed

text \<open>A step of the goroutine that holds the write lock.\<close>

lemma system_ok_write:
  assumes ok: "system_ok md b U s" and t: "sys_threads s i = UpdateWrite k gps by_name all"
    and "loc_builder l = b" and "goroutine_ok md b U l (UpdateWrite k' gps by_name all)"
  shows "system_ok md b U (s\<lparr>sys_loc := l,
    sys_threads := (sys_threads s)(i := UpdateWrite k' gps by_name all)\<rparr>)"
proof -
  have wr: "writing (sys_threads s i)" using t by simp
  note alone = writer_alone [OF ok wr]
  have "goroutine_ok md b U l (sys_threads s j)" if "j \<noteq> i" for j
    using ok goroutine_ok_frame [OF alone(2) alone(3) [OF that], of md b U l "sys_loc s"]
    by (simp add: system_ok_def)
  moreover have "{j. writing (((sys_threads s)(i := UpdateWrite k' gps by_name all)) j)} = {i}"
    using alone(3) by auto
  moreover have "sys_readers s = {}" "\<And>j. \<not> reading (((sys_threads s)(i := UpdateWrite k' gps by_name all)) j)"
    using ok alone(1,2) by (simp_all add: system_ok_def)
  ultimately show ?thesis using assms(3,4) alone(1) by (simp add: system_ok_def)
qed

lemma writer_step:
  assumes "system_ok md b U s" and "sys_threads s i = UpdateWrite k gps by_name all"
  shows "goroutine_ok md b U (sys_loc s) (UpdateWrite k gps by_name all)" and "loc_builder (sys_loc s) = b"
proof -
  have "goroutine_ok md b U (sys_loc s) (sys_threads s i)" using assms(1) unfolding system_ok_def by blast
  then show "goroutine_ok md b U (sys_loc s) (UpdateWrite k gps by_name all)" by (simp only: assms(2))
  show "loc_builder (sys_loc s) = b" using assms(1) by (simp add: system_ok_def)
qed

lemma published_fields:
  "loc_builder l = b \<Longrightarrow> build_rings md b (gps_all gps) = (loc_rings, all) \<Longrightarrow> loc_groups l = Some gps \<Longrightarrow>
     loc_rings_by_name l = Some loc_rings \<Longrightarrow> loc_all_rings l = all \<Longrightarrow> l = published md b (Some gps)"
  using build_rings_snd [of md b "gps_all gps"] by (simp add: published_def)

lemma reader_published:
  assumes "system_ok md b U s" and "reading (sys_threads s i)"
  shows "i \<in> sys_readers s" and "sys_writer s = None"
    and "\<exists>gps_ptr \<in> U. find_string md (sys_loc s) object names = find_string md (published md b gps_ptr) object names"
proof -
  show i: "i \<in> sys_readers s" using assms unfolding system_ok_def by blast
  then show w: "sys_writer s = None" using assms(1) unfolding system_ok_def by blast
  with assms(1) obtain gps_ptr where "gps_ptr \<in> U" "sys_loc s = published md b gps_ptr"
    unfolding system_ok_def by blast
  then show "\<exists>gps_ptr \<in> U. find_string md (sys_loc s) object names = find_string md (published md b gps_ptr) object names"
    by (intro bexI [of _ gps_ptr]) simp_all
qed

lemma not_reader:
  "system_ok md b U s \<Longrightarrow> \<not> reading (sys_threads s i) \<Longrightarrow> sys_readers s - {i} = sys_readers s"
  by (auto simp: system_ok_def)

lemma lstep_ok:
  assumes "lstep md s s'" and ok: "system_ok md b U s"
  shows "system_ok md b U s'"
proof -
  have th: "goroutine_ok md b U (sys_loc s) (sys_threads s i)" for i
    using ok unfolding system_ok_def by blast
  have pub: "sys_writer s = None \<Longrightarrow> \<exists>gps_ptr \<in> U. sys_loc s = published md b gps_ptr"
    using ok unfolding system_ok_def by blast
  have b: "loc_builder (sys_loc s) = b" using ok by (simp add: system_ok_def)
  note local = system_ok_local [OF ok]
  show ?thesis
    using assms(1)
  proof cases
    case (find_lock_all i object)
    with local [of i "FindAll object (loc_all_rings (sys_loc s)) []"]
    show ?thesis by (simp add: find_string_all)
  next
    case (find_lock_named i object names)
    with local [of i "FindNamed object names names []"]
    show ?thesis by (simp add: find_string_named)
  next
    case (find_all i object ring todo results)
    with local [of i "FindAll object todo (results @ [md_nearest_string md ring object])"] th [of i]
      reader_published(1,2) [OF ok, of i]
    show ?thesis by (simp add: insert_absorb)
  next
    case (find_named i object names n todo results)
    with local [of i "FindNamed object names todo (results @ visit_named md (sys_loc s) object n)"]
      th [of i] reader_published(1,2) [OF ok, of i]
    show ?thesis by (simp add: insert_absorb)
  next
    case (find_unlock_all i object results)
    with local [of i "FindDone object [] results"] th [of i]
      reader_published(3) [OF ok, of i object "[]"]
    show ?thesis by simp
  next
    case (find_unlock_named i object names results)
    with local [of i "FindDone object names results"] th [of i]
      reader_published(3) [OF ok, of i object names]
    show ?thesis by simp
  next
    case (groups_lock i)
    with local [of i "GroupsRead (loc_groups (sys_loc s))"] pub
    show ?thesis by auto
  next
    case (groups_unlock i gps_ptr)
    with local [of i "GroupsDone gps_ptr"] th [of i] show ?thesis by simp
  next
    case (update_build i gps by_name all)
    with local [of i "UpdateBuilt gps by_name all"] th [of i] b not_reader [OF ok, of i]
    show ?thesis by simp
  next
    case (update_lock i gps by_name all)
    with ok th [of i] show ?thesis by (auto simp: system_ok_def)
  next
    case (update_groups i gps by_name all)
    with system_ok_write [OF ok update_groups(2), of _ 1] writer_step [OF ok update_groups(2)]
    show ?thesis by simp
  next
    case (update_by_name i gps by_name all)
    with system_ok_write [OF ok update_by_name(2), of _ 2] writer_step [OF ok update_by_name(2)]
    show ?thesis by simp
  next
    case (update_all i gps by_name all)
    with system_ok_write [OF ok update_all(2), of _ 3] writer_step [OF ok update_all(2)]
    show ?thesis by simp
  next
    case (update_unlock i gps by_name all)
    from writer_step [OF ok update_unlock(2)] have "Some gps \<in> U"
      and "sys_loc s = published md b (Some gps)"
      by (auto intro: published_fields)
    moreover have wr: "writing (sys_threads s i)" using update_unlock(2) by simp
    note alone = writer_alone [OF ok wr]
    moreover have "goroutine_ok md b U (sys_loc s) (((sys_threads s)(i := UpdateDone gps)) j)" for j
      using th [of j] by simp
    moreover have "sys_readers s = {}"
    proof -
      have "sys_writer s \<noteq> None" using alone(1) by simp
      then show ?thesis using ok unfolding system_ok_def by blast
    qed
    ultimately show ?thesis
      using b alone(2,3) update_unlock(1) by (auto simp: system_ok_def)
  qed
qed

lemma start_ok:
  assumes "\<forall>i. not_started (threads i)"
  shows "system_ok md b (offered old threads) (start_system md b old threads)"
proof -
  have "\<not> reading (threads i) \<and> \<not> writing (threads i) \<and>
      goroutine_ok md b (offered old threads) l (threads i)" for i l
    using assms [rule_format, of i]
    by (cases "threads i") (auto simp: offered_def intro: range_eqI [of _ _ i])
  then show ?thesis by (auto simp: system_ok_def start_system_def offered_def)
qed

interpretation lock: step_system "lstep md" "system_ok md b U" for md b U
  by unfold_locales (rule lstep_ok)

lemma run_ok:
  assumes "(lstep md)\<^sup>*\<^sup>* (start_system md b old threads) s" and "\<forall>i. not_started (threads i)"
  shows "system_ok md b (offered old threads) s"
  using assms(1) start_ok [OF assms(2)] by (rule lock.steps_inv)

section \<open>Properties\<close>

text \<open>
  Lookups and updates are atomic towards each other. However the goroutines
  interleave, a finished lookup returned what it would have returned on one of the groups
  that were ever published - the rings of all its groups belong to the same update - and a
  finished \<open>Groups\<close> call returned one of these groups.
\<close>

theorem concurrent_lookup_consistent:
  assumes "(lstep md)\<^sup>*\<^sup>* (start_system md b old threads) s" and "\<forall>i. not_started (threads i)"
  shows "(\<forall>i object names results. sys_threads s i = FindDone object names results \<longrightarrow>
      (\<exists>gps_ptr \<in> offered old threads. results = find_string md (published md b gps_ptr) object names)) \<and>
    (\<forall>i gps_ptr. sys_threads s i = GroupsDone gps_ptr \<longrightarrow> gps_ptr \<in> offered old threads)"
proof -
  have th: "goroutine_ok md b (offered old threads) (sys_loc s) (sys_threads s i)" for i
    using run_ok [OF assms] unfolding system_ok_def by blast
  show ?thesis
  proof (intro conjI allI impI)
    fix i object names results
    assume "sys_threads s i = FindDone object names results"
    with th [of i] show "\<exists>gps_ptr \<in> offered old threads.
        results = find_string md (published md b gps_ptr) object names" by simp
  next
    fix i gps_ptr
    assume "sys_threads s i = GroupsDone gps_ptr"
    with th [of i] show "gps_ptr \<in> offered old threads" by simp
  qed
qed

text \<open>An update, and a lookup that starts once the rings are built and has to wait for the lock.\<close>

definition sample_threads :: "nat \<Rightarrow> addr list endpoint list goroutine" where
  "sample_threads i =
     (if i = 0 then FindStart ''x'' [] else if i = 1 then UpdateStart sample_groups else GroupsStart)"

lemma sample_run:
  "map_option (\<lambda>s. sys_threads s 0) (run_schedule sample_medley [1, 2, 1, 0, 1, 0, 0]
     (start_system sample_medley 0 None sample_threads)) = None"
  "map_option (\<lambda>s. sys_threads s 0) (run_schedule sample_medley [1, 2, 2, 1, 1, 1, 1, 1, 0, 0, 0]
     (start_system sample_medley 0 None sample_threads)) = Some (FindDone ''x'' [] [Some sample_endpoint])"
  by code_simp+

theorem concurrent_lookup_consistent_witness:
  "\<exists>gps_ptr \<in> offered None sample_threads.
     [Some sample_endpoint] = find_string sample_medley (published sample_medley 0 gps_ptr) ''x'' []"
proof -
  obtain s where s: "run_schedule sample_medley [1, 2, 2, 1, 1, 1, 1, 1, 0, 0, 0]
      (start_system sample_medley 0 None sample_threads) = Some s"
    "sys_threads s 0 = FindDone ''x'' [] [Some sample_endpoint]"
    using sample_run(2) by auto
  have "\<forall>i. not_started (sample_threads i)" by (simp add: sample_threads_def)
  from concurrent_lookup_consistent [OF run_schedule_lsteps [OF s(1)] this] s(2) show ?thesis by blast
qed

end
