(* ===== verification/Locator_Progress.thy ===== *)
theory Locator_Progress
  imports Locator_Concurrency
begin

text \<open>
  Progress of the locator's goroutines (\<open>service/locator.go\<close>): finitely many calls of
  \<open>FindString\<close>, \<open>Groups\<close> and \<open>Update\<close> all return, whatever the scheduler does. There are no
  infinite runs (\<open>lstep_decreases\<close>), and no state before the end is a deadlock, even if, as
  in Go, a waiting writer keeps new readers out (\<open>unfinished_moves\<close>).
\<close>

section \<open>What is left to do\<close>

fun finished :: "'r goroutine \<Rightarrow> bool" where
  "finished (FindDone _ _ _) = True"
| "finished (GroupsDone _) = True"
| "finished (UpdateDone _) = True"
| "finished _ = False"

text \<open>The calls to the lock and the writes that a goroutine has before it, and the rings it still visits.\<close>

fun stages_left :: "'r goroutine \<Rightarrow> nat" where
  "stages_left (FindStart _ _) = 2"
| "stages_left (FindAll _ _ _) = 1"
| "stages_left (FindNamed _ _ _ _) = 1"
| "stages_left GroupsStart = 2"
| "stages_left (GroupsRead _) = 1"
| "stages_left (UpdateStart _) = 6"
| "stages_left (UpdateBuilt _ _ _) = 5"
| "stages_left (UpdateWrite k _ _ _) = 4 - k"
| "stages_left _ = 0"

fun rings_left :: "'r goroutine \<Rightarrow> nat" where
  "rings_left (FindAll _ todo _) = length todo"
| "rings_left (FindNamed _ _ todo _) = length todo"
| "rings_left _ = 0"

definition unfinished :: "('b, 'r) system \<Rightarrow> nat set" where
  "unfinished s = {i. \<not> finished (sys_threads s i)}"

definition work :: "('r goroutine \<Rightarrow> nat) \<Rightarrow> ('b, 'r) system \<Rightarrow> nat" where
  "work f s = (\<Sum>i \<in> unfinished s. f (sys_threads s i))"

lemma finished_nothing_left: "finished t \<Longrightarrow> stages_left t = 0 \<and> rings_left t = 0"
  by (cases t) simp_all

lemma active_unfinished: "reading t \<or> writing t \<Longrightarrow> \<not> finished t"
  by (cases t) simp_all

text \<open>A step is taken by one goroutine, which was not finished, and gets it further.\<close>

lemma lstep_thread:
  assumes "lstep md s s'"
  shows "\<exists>i t. \<not> finished (sys_threads s i) \<and> sys_threads s' = (sys_threads s)(i := t) \<and>
    (stages_left t < stages_left (sys_threads s i) \<or>
     stages_left t = stages_left (sys_threads s i) \<and> rings_left t < rings_left (sys_threads s i))"
  using assms by cases force+

lemma work_update:
  assumes "finite (unfinished s)" and "i \<in> unfinished s" and "sys_threads s' = (sys_threads s)(i := t)"
    and "\<And>u. finished u \<Longrightarrow> f u = 0"
  shows "work f s' + f (sys_threads s i) = work f s + f t"
proof -
  have "unfinished s' \<subseteq> unfinished s"
    using assms(2,3) by (auto simp: unfinished_def split: if_splits)
  then have "work f s' = (\<Sum>j \<in> unfinished s. f (sys_threads s' j))"
    unfolding work_def using assms(1,4) by (intro sum.mono_neutral_left) (auto simp: unfinished_def)
  also have "\<dots> = f t + (\<Sum>j \<in> unfinished s - {i}. f (sys_threads s j))"
    using assms(1-3) by (simp add: sum.remove)
  also have "\<dots> + f (sys_threads s i) = work f s + f t"
    using assms(1,2) by (simp add: work_def sum.remove)
  finally show ?thesis by simp
qed

lemma lstep_decreases:
  assumes "lstep md s s'" and "finite (unfinished s)"
  shows "finite (unfinished s')" and "(s', s) \<in> measures [work stages_left, work rings_left]"
proof -
  obtain i t where i: "\<not> finished (sys_threads s i)" "sys_threads s' = (sys_threads s)(i := t)"
    and less: "stages_left t < stages_left (sys_threads s i) \<or>
      stages_left t = stages_left (sys_threads s i) \<and> rings_left t < rings_left (sys_threads s i)"
    using lstep_thread [OF assms(1)] by blast
  have "unfinished s' \<subseteq> unfinished s" using i by (auto simp: unfinished_def split: if_splits)
  then show "finite (unfinished s')" using assms(2) by (rule finite_subset)
  have mem: "i \<in> unfinished s" using i(1) by (simp add: unfinished_def)
  have "work stages_left s' + stages_left (sys_threads s i) = work stages_left s + stages_left t"
    and "work rings_left s' + rings_left (sys_threads s i) = work rings_left s + rings_left t"
    using assms(2) mem i(2) by (auto intro!: work_update dest: finished_nothing_left)
  then show "(s', s) \<in> measures [work stages_left, work rings_left]" using less by auto
qed

text \<open>So no run is infinite.\<close>

interpretation calls: terminating_system "lstep md" "\<lambda>s. finite (unfinished s)"
    "measures [work stages_left, work rings_left]"
  for md
  by unfold_locales (simp_all add: lstep_decreases del: in_measures)

section \<open>No deadlock\<close>

text \<open>A goroutine that has to wait for the lock before it can go on as a reader.\<close>

fun arriving_reader :: "'r goroutine \<Rightarrow> bool" where
  "arriving_reader (FindStart _ _) = True"
| "arriving_reader GroupsStart = True"
| "arriving_reader _ = False"

fun waiting_writer :: "'r goroutine \<Rightarrow> bool" where
  "waiting_writer (UpdateBuilt _ _ _) = True"
| "waiting_writer _ = False"

text \<open>A step of goroutine \<open>i\<close>.\<close>

definition moves :: "('b, 'q, 'r) medley \<Rightarrow> ('b, 'r) system \<Rightarrow> nat \<Rightarrow> bool" where
  "moves md s i \<longleftrightarrow> (\<exists>s' t. lstep md s s' \<and> sys_threads s' = (sys_threads s)(i := t) \<and> t \<noteq> sys_threads s i)"

lemma advance_moves:
  assumes "advance md i s = Some s'"
  shows "moves md s i"
proof -
  have "\<exists>t. sys_threads s' = (sys_threads s)(i := t) \<and> t \<noteq> sys_threads s i"
    using assms
    by (auto simp: advance_def Let_def split: goroutine.splits list.splits if_splits prod.splits)
  with advance_lstep [OF assms] show ?thesis unfolding moves_def by blast
qed

definition writes_ok :: "('b, 'r) system \<Rightarrow> bool" where
  "writes_ok s \<longleftrightarrow> (\<forall>i k gps by_name all. sys_threads s i = UpdateWrite k gps by_name all \<longrightarrow> k \<le> 3)"

lemma lstep_writes_ok: "lstep md s s' \<Longrightarrow> writes_ok s \<Longrightarrow> writes_ok s'"
  by (induction rule: lstep.induct) (auto simp: writes_ok_def split: if_splits)

lemma reader_moves: "reading (sys_threads s i) \<Longrightarrow> \<exists>s'. advance md i s = Some s'"
  by (cases "sys_threads s i") (auto simp: advance_def Let_def split: list.split)

lemma writer_moves: "writing (sys_threads s i) \<Longrightarrow> writes_ok s \<Longrightarrow> \<exists>s'. advance md i s = Some s'"
  by (cases "sys_threads s i") (fastforce simp: advance_def Let_def writes_ok_def)+

text \<open>
  Some goroutine can go on. While an update waits for the lock it is not a reader that only
  arrives: so it does not matter that \<open>sync.RWMutex\<close> makes such readers wait for the writer.
\<close>

lemma unfinished_moves:
  assumes "system_ok md b U s" and "writes_ok s" and "i \<in> unfinished s"
  shows "\<exists>j. moves md s j \<and>
    ((\<exists>k. waiting_writer (sys_threads s k)) \<longrightarrow> \<not> arriving_reader (sys_threads s j))"
proof -
  have readers: "sys_readers s = {i. reading (sys_threads s i)}"
    and writer: "set_option (sys_writer s) = {i. writing (sys_threads s i)}"
    using assms(1) unfolding system_ok_def by blast+
  show ?thesis
  proof (cases "\<exists>j. reading (sys_threads s j) \<or> writing (sys_threads s j)")
    case True
    then obtain j where j: "reading (sys_threads s j) \<or> writing (sys_threads s j)" by blast
    then have "moves md s j"
      using reader_moves writer_moves assms(2) by (blast intro: advance_moves)
    moreover have "\<not> arriving_reader (sys_threads s j)" using j by (cases "sys_threads s j") simp_all
    ultimately show ?thesis by blast
  next
    case False
    then have free: "sys_readers s = {}" "sys_writer s = None"
      using readers writer by auto
    have go: "\<exists>s'. advance md j s = Some s'" if "j \<in> unfinished s" for j
      using that False [simplified, rule_format, of j] free
      by (cases "sys_threads s j") (auto simp: unfinished_def advance_def Let_def split: prod.split)
    show ?thesis
    proof (cases "\<exists>k. waiting_writer (sys_threads s k)")
      case True
      then obtain k where k: "waiting_writer (sys_threads s k)" by blast
      then have "k \<in> unfinished s" "\<not> arriving_reader (sys_threads s k)"
        by (cases "sys_threads s k"; simp add: unfinished_def)+
      with go show ?thesis by (blast intro: advance_moves)
    next
      case False
      with go [OF assms(3)] show ?thesis by (blast intro: advance_moves)
    qed
  qed
qed

section \<open>Finitely many calls\<close>

text \<open>A goroutine that is not there: it counts as finished.\<close>

definition idle :: "addr list groups option \<Rightarrow> 'r goroutine" where
  "idle old = GroupsDone old"

definition finitely_many :: "addr list groups option \<Rightarrow> (nat \<Rightarrow> 'r goroutine) \<Rightarrow> nat \<Rightarrow> bool" where
  "finitely_many old threads n \<longleftrightarrow> (\<forall>i. if i < n then not_started (threads i) else threads i = idle old)"

lemma finitely_many_ok:
  assumes "finitely_many old threads n"
  shows "system_ok md b (offered old threads) (start_system md b old threads)"
    and "writes_ok (start_system md b old threads)"
    and "finite (unfinished (start_system md b old threads))"
proof -
  have th: "not_started (threads i) \<or> threads i = idle old" for i
    using assms unfolding finitely_many_def by (cases "i < n") auto
  have "\<not> reading (threads i) \<and> \<not> writing (threads i) \<and>
      goroutine_ok md b (offered old threads) l (threads i)" for i l
    using th [of i]
    by (cases "threads i") (auto simp: offered_def idle_def intro: range_eqI [of _ _ i])
  then show "system_ok md b (offered old threads) (start_system md b old threads)"
    by (auto simp: system_ok_def start_system_def offered_def)
  show "writes_ok (start_system md b old threads)"
  proof -
    have "\<not> writing (threads i)" for i using th [of i] by (cases "threads i") (simp_all add: idle_def)
    then have "threads i \<noteq> UpdateWrite k gps by_name all" for i k gps by_name all
      by (metis writing.simps(1))
    then show ?thesis by (simp add: writes_ok_def start_system_def)
  qed
  have "unfinished (start_system md b old threads) \<subseteq> {..<n}"
    using assms by (auto simp: unfinished_def start_system_def finitely_many_def idle_def split: if_splits)
  then show "finite (unfinished (start_system md b old threads))" by (rule finite_subset) simp
qed

interpretation writes: step_system "lstep md" writes_ok for md
  by unfold_locales (rule lstep_writes_ok)

lemma finitely_many_run:
  assumes "(lstep md)\<^sup>*\<^sup>* (start_system md b old threads) s" and "finitely_many old threads n"
  shows "system_ok md b (offered old threads) s \<and> writes_ok s \<and> finite (unfinished s)"
  using finitely_many_ok [OF assms(2), of md b]
    lock.steps_inv [OF assms(1)] writes.steps_inv [OF assms(1)] calls.steps_inv [OF assms(1)]
  by blast

text \<open>The run that a schedule drives, step by step.\<close>

fun drive :: "('b, 'q, 'r) medley \<Rightarrow> nat list \<Rightarrow> ('b, 'r) system \<Rightarrow> nat \<Rightarrow> ('b, 'r) system" where
  "drive md (i # is) s (Suc k) = (case advance md i s of None \<Rightarrow> s | Some s' \<Rightarrow> drive md is s' k)"
| "drive md _ s _ = s"

lemma drive_0 [simp]: "drive md is s 0 = s"
  by (cases "is") simp_all

lemma drive_maximal:
  assumes "run_schedule md is s = Some s'" and "unfinished s' = {}"
  shows "maximal (lstep md) (drive md is s)"
proof -
  have stuck: "\<nexists>s''. lstep md s' s''"
    using assms(2) lstep_thread [of md s'] unfolding unfinished_def by blast
  have "lstep md (drive md is s k) (drive md is s (Suc k)) \<or>
      drive md is s (Suc k) = drive md is s k \<and> (\<nexists>s''. lstep md (drive md is s k) s'')" for k
    using assms(1) stuck
  proof (induction "is" arbitrary: s k)
    case (Cons i "is")
    obtain s1 where s1: "advance md i s = Some s1" "run_schedule md is s1 = Some s'"
      using Cons.prems(1) by (auto split: option.splits)
    show ?case
    proof (cases k)
      case 0
      with s1(1) advance_lstep [OF s1(1)] show ?thesis by simp
    next
      case (Suc k')
      with Cons.IH [OF s1(2) stuck, of k'] s1(1) show ?thesis by simp
    qed
  qed simp
  then show ?thesis by (simp add: maximal_def)
qed

lemma advance_frame: "advance md i s = Some s' \<Longrightarrow> j \<noteq> i \<Longrightarrow> sys_threads s' j = sys_threads s j"
  by (auto simp: advance_def Let_def split: goroutine.splits list.splits if_splits prod.splits)

lemma run_schedule_frame:
  "run_schedule md is s = Some s' \<Longrightarrow> j \<notin> set is \<Longrightarrow> sys_threads s' j = sys_threads s j"
  by (induction "is" arbitrary: s) (auto split: option.splits dest: advance_frame)

section \<open>Properties\<close>

text \<open>
  Property C14: every call of \<open>FindString\<close>, \<open>Groups\<close> and \<open>Update\<close> returns. For finitely many
  goroutines every run, however they are scheduled, reaches a state in which all calls have
  returned; the lock is then free and the locator holds one of the groups that were
  published, whole. Until then some goroutine can go on, and while an update waits for the
  lock one that is not an arriving reader, so waiting writers may keep readers out.
\<close>

theorem locator_calls_return:
  assumes "finitely_many old threads n" and "run 0 = start_system md b old threads" and "maximal (lstep md) run"
  shows "(\<exists>k. unfinished (run k) = {} \<and> sys_writer (run k) = None \<and> sys_readers (run k) = {} \<and>
      (\<exists>gps_ptr \<in> offered old threads. sys_loc (run k) = published md b gps_ptr)) \<and>
    (\<forall>k. unfinished (run k) \<noteq> {} \<longrightarrow> (\<exists>j. moves md (run k) j \<and>
      ((\<exists>w. waiting_writer (sys_threads (run k) w)) \<longrightarrow> \<not> arriving_reader (sys_threads (run k) j))))"
proof -
  have ok: "system_ok md b (offered old threads) (run k)" "writes_ok (run k)" for k
    using finitely_many_run [OF maximal_steps [OF assms(3), unfolded assms(2)] assms(1)] by blast+
  have "finite (unfinished (run 0))" using finitely_many_ok(3) [OF assms(1)] assms(2) by simp
  then obtain k where stuck: "\<nexists>s'. lstep md (run k) s'" using calls.maximal_ends [OF assms(3)] by blast
  then have returned: "unfinished (run k) = {}"
    using unfinished_moves [OF ok] unfolding moves_def by blast
  then have "\<not> reading (sys_threads (run k) i) \<and> \<not> writing (sys_threads (run k) i)" for i
    using active_unfinished by (auto simp: unfinished_def)
  then have "sys_writer (run k) = None" "sys_readers (run k) = {}"
    using ok(1) [of k] by (auto simp: system_ok_def)
  moreover from this have "\<exists>gps_ptr \<in> offered old threads. sys_loc (run k) = published md b gps_ptr"
    using ok(1) [of k] unfolding system_ok_def by blast
  ultimately show ?thesis using returned unfinished_moves [OF ok] by blast
qed

definition two_calls :: "nat \<Rightarrow> addr list endpoint list goroutine" where
  "two_calls i = (if i = 0 then FindStart ''x'' [''g''] else if i = 1 then UpdateStart sample_groups else idle None)"

theorem locator_calls_return_witness:
  "\<exists>run k. run 0 = start_system sample_medley 0 None two_calls \<and> maximal (lstep sample_medley) run \<and>
     unfinished (run k) = {} \<and> run 0 \<noteq> run k"
proof -
  let ?s = "start_system sample_medley 0 None two_calls" and ?is = "[1, 1, 1, 1, 1, 1, 0, 0, 0] :: nat list"
  have "map_option (\<lambda>s. (finished (sys_threads s 0), finished (sys_threads s 1)))
      (run_schedule sample_medley ?is ?s) = Some (True, True)"
    by code_simp
  then obtain s' where s': "run_schedule sample_medley ?is ?s = Some s'"
    and fin: "finished (sys_threads s' 0)" "finished (sys_threads s' 1)" by auto
  have "finished (sys_threads s' j)" for j
    using fin run_schedule_frame [OF s', of j]
    by (cases "j = 0 \<or> j = 1") (auto simp: start_system_def two_calls_def idle_def)
  then have max: "maximal (lstep sample_medley) (drive sample_medley ?is ?s)"
    using s' by (intro drive_maximal) (auto simp: unfinished_def)
  have fm: "finitely_many None two_calls 2"
    by (auto simp: finitely_many_def two_calls_def less_2_cases_iff)
  obtain k where k: "unfinished (drive sample_medley ?is ?s k) = {}"
    using locator_calls_return [OF fm drive_0 max] by blast
  moreover have "0 \<in> unfinished ?s" by (simp add: unfinished_def start_system_def two_calls_def)
  ultimately have "?s \<noteq> drive sample_medley ?is ?s k" by auto
  with k max show ?thesis
    by (intro exI [of _ "drive sample_medley ?is ?s"] exI [of _ k]) simp
qed

end
