(* ===== verification/Serving_Overlap.thy ===== *)
theory Serving_Overlap
  imports Ingest_Overlap Locator_Progress
begin

text \<open>
  Requests against overlapping ingests: \<open>Locator_Concurrency\<close> and \<open>Ingest_Overlap\<close> composed. The
  ingester has one listener, the locator, as \<open>ProvideFileIngester\<close> gives it; calling it is a call
  of \<open>Locator.OnIngest\<close>, which builds the rings, waits for the lock and writes field by field while
  requests look objects up.

  Goroutine \<open>i\<close> is either a call of \<open>Ingest\<close>, which runs \<open>Update\<close> when it dispatches groups, or a
  request. The invariant and the simulation show that a call of the listener takes effect at one
  point, when it gets the lock.
\<close>

section \<open>Steps\<close>

record ('b, 'r, 'e) serving =
  sv_ingests :: "(unit, 'e) ingest_system"
  sv_locator :: "('b, 'r) system"

abbreviation sv_call :: "('b, 'r, 'e) serving \<Rightarrow> nat \<Rightarrow> 'e ingest_call" where
  "sv_call s \<equiv> is_calls (sv_ingests s)"

abbreviation sv_thread :: "('b, 'r, 'e) serving \<Rightarrow> nat \<Rightarrow> 'r goroutine" where
  "sv_thread s \<equiv> sys_threads (sv_locator s)"

definition set_call :: "nat \<Rightarrow> 'e ingest_call \<Rightarrow> ('b, 'r, 'e) serving \<Rightarrow> ('b, 'r, 'e) serving" where
  "set_call i c s = s\<lparr>sv_ingests := (sv_ingests s)\<lparr>is_calls := (sv_call s)(i := c)\<rparr>\<rparr>"

definition set_thread :: "nat \<Rightarrow> 'r goroutine \<Rightarrow> ('b, 'r, 'e) serving \<Rightarrow> ('b, 'r, 'e) serving" where
  "set_thread i t s = s\<lparr>sv_locator := (sv_locator s)\<lparr>sys_threads := (sv_thread s)(i := t)\<rparr>\<rparr>"

text \<open>
  \<open>OnIngest\<close> leaves the locator alone on an error, runs \<open>Update\<close> with the groups, and dereferences
  groups that are not there. Everything else a call does is as in \<open>Ingest_Overlap\<close>.
\<close>

inductive serve_step ::
  "growth \<Rightarrow> map_orders \<Rightarrow> ('b, 'q, 'r) medley \<Rightarrow> ('b, 'r, 'e) serving \<Rightarrow> ('b, 'r, 'e) serving \<Rightarrow> bool"
  for g ords md
where
  goroutine_moves:
    "lstep md (sv_locator s) l \<Longrightarrow> serve_step g ords md s (s\<lparr>sv_locator := l\<rparr>)"
| ingest_moves:
    "\<nexists>event. sv_call s i = CallDispatch event 0 \<Longrightarrow>
     advance_call g ords (\<lambda>l _. Inr l) i (sv_ingests s) = Some t \<Longrightarrow>
     serve_step g ords md s (s\<lparr>sv_ingests := t\<rparr>)"
| listen_error:
    "sv_call s i = CallDispatch event 0 \<Longrightarrow> ev_err event \<noteq> None \<Longrightarrow>
     serve_step g ords md s (set_call i (CallDispatch event 1) s)"
| listen_groups:
    "sv_call s i = CallDispatch event 0 \<Longrightarrow> ev_err event = None \<Longrightarrow> ev_groups event = Some gps \<Longrightarrow>
     sv_thread s i = GroupsDone p \<Longrightarrow>
     serve_step g ords md s (set_thread i (UpdateStart gps) s)"
| listen_nil:
    "sv_call s i = CallDispatch event 0 \<Longrightarrow> ev_err event = None \<Longrightarrow> ev_groups event = None \<Longrightarrow>
     serve_step g ords md s (set_call i (CallPanicked NilDereference) s)"
| listen_return:
    "sv_call s i = CallDispatch event 0 \<Longrightarrow> sv_thread s i = UpdateDone gps \<Longrightarrow>
     serve_step g ords md s (set_call i (CallDispatch event 1) s)"

text \<open>The ingester with its one listener, and the requests that will arrive.\<close>

definition start_serving ::
  "('b, 'q, 'r) medley \<Rightarrow> 'b \<Rightarrow> addr list groups option \<Rightarrow> unit file_ingester
    \<Rightarrow> (nat \<Rightarrow> 'e ingest_env option) \<Rightarrow> (nat \<Rightarrow> 'r goroutine) \<Rightarrow> ('b, 'r, 'e) serving" where
  "start_serving md b old fi envs requests =
     \<lparr>sv_ingests = start_calls fi envs,
      sv_locator = start_system md b old
        (\<lambda>i. if envs i = None then requests i else idle old)\<rparr>"

fun is_request :: "addr list groups option \<Rightarrow> 'r goroutine \<Rightarrow> bool" where
  "is_request old (FindStart _ _) = True"
| "is_request old GroupsStart = True"
| "is_request old (GroupsDone gps_ptr) = (gps_ptr = old)"
| "is_request old _ = False"

section \<open>Calls that take effect at one point\<close>

definition with_listeners :: "'k list \<Rightarrow> 'l file_ingester \<Rightarrow> 'k file_ingester" where
  "with_listeners ls fi =
     \<lparr>fi_globs = fi_globs fi, fi_origin = fi_origin fi, fi_ttl = fi_ttl fi, fi_domain = fi_domain fi,
      fi_first = fi_first fi, fi_checksum = fi_checksum fi, fi_listeners = ls\<rparr>"

lemma with_listeners_simps [simp]:
  "fi_globs (with_listeners ls fi) = fi_globs fi"
  "fi_origin (with_listeners ls fi) = fi_origin fi"
  "fi_ttl (with_listeners ls fi) = fi_ttl fi"
  "fi_domain (with_listeners ls fi) = fi_domain fi"
  "fi_first (with_listeners ls fi) = fi_first fi"
  "fi_checksum (with_listeners ls fi) = fi_checksum fi"
  "fi_listeners (with_listeners ls fi) = ls"
  "with_listeners ls (fi\<lparr>fi_first := x\<rparr>) = (with_listeners ls fi)\<lparr>fi_first := x\<rparr>"
  "with_listeners ls (fi\<lparr>fi_checksum := c\<rparr>) = (with_listeners ls fi)\<lparr>fi_checksum := c\<rparr>"
  by (simp_all add: with_listeners_def)

lemma ingest_read_fields:
  fixes env :: "'e ingest_env"
  assumes "fi_globs fi' = fi_globs fi" "fi_origin fi' = fi_origin fi" "fi_ttl fi' = fi_ttl fi"
    "fi_domain fi' = fi_domain fi"
  shows "ingest_read g env fi' = ingest_read g env fi"
proof -
  have one_file: "ingest_file g env fi' d rrc path = ingest_file g env fi d rrc path" for d rrc path
    using assms by (simp add: ingest_file_def split: sum.split)
  have "ingest_paths g env fi' n d rrc paths = ingest_paths g env fi n d rrc paths" for n d rrc paths
  proof (induction paths arbitrary: n d rrc)
    case (Cons p paths)
    obtain path glob_err where p: "p = (path, glob_err)" by fastforce
    from Cons show ?case unfolding p
      by (cases glob_err) (simp_all add: one_file split: option.split prod.split)
  qed simp
  with assms show ?thesis by (simp add: ingest_read_def)
qed

lemma ingest_read_listeners [simp]: "ingest_read g env (with_listeners ls fi) = ingest_read g env fi"
  by (rule ingest_read_fields) simp_all

text \<open>The groups of the \<open>Update\<close> that a goroutine runs, and whether it has got the lock.\<close>

fun update_of :: "'r goroutine \<Rightarrow> addr list groups option" where
  "update_of (UpdateStart gps) = Some gps"
| "update_of (UpdateBuilt gps _ _) = Some gps"
| "update_of (UpdateWrite _ gps _ _) = Some gps"
| "update_of (UpdateDone gps) = Some gps"
| "update_of _ = None"

fun past_lock :: "'r goroutine \<Rightarrow> bool" where
  "past_lock (UpdateWrite _ _ _ _) = True"
| "past_lock (UpdateDone _) = True"
| "past_lock _ = False"

fun returned :: "'r goroutine \<Rightarrow> bool" where
  "returned (UpdateDone _) = True"
| "returned _ = False"

text \<open>The locator as if \<open>Update\<close> had written it the moment it got the lock.\<close>

definition effective :: "('b, 'q, 'r) medley \<Rightarrow> 'b \<Rightarrow> ('b, 'r) system \<Rightarrow> ('b, 'r) locator" where
  "effective md b l =
     (case sys_writer l of
        None \<Rightarrow> sys_loc l
      | Some w \<Rightarrow>
          (case update_of (sys_threads l w) of
             Some gps \<Rightarrow> published md b (Some gps)
           | None \<Rightarrow> sys_loc l))"

fun effective_call :: "'r goroutine \<Rightarrow> 'e ingest_call \<Rightarrow> 'e ingest_call" where
  "effective_call t (CallDispatch event 0) = CallDispatch event (if past_lock t then 1 else 0)"
| "effective_call t c = c"

definition effective_calls ::
  "('b, 'q, 'r) medley \<Rightarrow> 'b \<Rightarrow> ('b, 'r, 'e) serving \<Rightarrow> (('b, 'r) locator, 'e) ingest_system" where
  "effective_calls md b s =
     \<lparr>is_fi = with_listeners [effective md b (sv_locator s)] (is_fi (sv_ingests s)),
      is_calls = \<lambda>i. effective_call (sv_thread s i) (sv_call s i)\<rparr>"

text \<open>What one step of a goroutine means for that.\<close>

lemma lstep_effective:
  assumes step: "lstep md l l'" and ok: "system_ok md b U l"
  shows "\<exists>i. (\<forall>j. j \<noteq> i \<longrightarrow> sys_threads l' j = sys_threads l j) \<and>
    update_of (sys_threads l' i) = update_of (sys_threads l i) \<and> \<not> returned (sys_threads l i) \<and>
    (past_lock (sys_threads l' i) = past_lock (sys_threads l i) \<and> effective md b l' = effective md b l \<or>
     \<not> past_lock (sys_threads l i) \<and> past_lock (sys_threads l' i) \<and> update_of (sys_threads l i) \<noteq> None \<and>
     sys_writer l = None \<and> effective md b l' = published md b (update_of (sys_threads l i)))"
  using step
proof cases
  case (find_all i object ring todo results)
  with reader_published(2) [OF ok, of i] show ?thesis
    by (intro exI [of _ i]) (simp add: effective_def)
next
  case (find_named i object names n todo results)
  with reader_published(2) [OF ok, of i] show ?thesis
    by (intro exI [of _ i]) (simp add: effective_def)
next
  case (find_unlock_all i object results)
  with reader_published(2) [OF ok, of i] show ?thesis
    by (intro exI [of _ i]) (simp add: effective_def)
next
  case (find_unlock_named i object names results)
  with reader_published(2) [OF ok, of i] show ?thesis
    by (intro exI [of _ i]) (simp add: effective_def)
next
  case (groups_unlock i gps_ptr)
  with reader_published(2) [OF ok, of i] show ?thesis
    by (intro exI [of _ i]) (simp add: effective_def)
next
  case (update_build i gps by_name all)
  then show ?thesis
    by (intro exI [of _ i]) (auto simp: effective_def split: option.split)
next
  case (update_lock i gps by_name all)
  then show ?thesis by (intro exI [of _ i]) (simp add: effective_def)
next
  case (update_groups i gps by_name all)
  with writer_alone(1) [OF ok, of i] show ?thesis by (intro exI [of _ i]) (simp add: effective_def)
next
  case (update_by_name i gps by_name all)
  with writer_alone(1) [OF ok, of i] show ?thesis by (intro exI [of _ i]) (simp add: effective_def)
next
  case (update_all i gps by_name all)
  with writer_alone(1) [OF ok, of i] show ?thesis by (intro exI [of _ i]) (simp add: effective_def)
next
  case (update_unlock i gps by_name all)
  from writer_step [OF ok update_unlock(2)] have "sys_loc l = published md b (Some gps)"
    by (auto intro: published_fields)
  with update_unlock writer_alone(1) [OF ok, of i] show ?thesis
    by (intro exI [of _ i]) (simp add: effective_def)
qed (auto simp: effective_def intro!: exI)

section \<open>The invariant and the simulation\<close>

fun listened :: "'e ingest_call \<Rightarrow> bool" where
  "listened (CallDispatch _ k) = (0 < k)"
| "listened CallDone = True"
| "listened _ = False"

text \<open>A goroutine only runs \<open>Update\<close> for the event that its call dispatches.\<close>

definition linked :: "'e ingest_call \<Rightarrow> 'r goroutine \<Rightarrow> bool" where
  "linked c t \<longleftrightarrow> update_of t = None \<or>
     (\<exists>event. c = CallDispatch event 0 \<and> ev_err event = None \<and> ev_groups event = update_of t) \<or>
     returned t \<and> listened c"

definition views :: "growth \<Rightarrow> map_orders \<Rightarrow> unit file_ingester \<Rightarrow> 'e ingest_env set
    \<Rightarrow> addr list groups option \<Rightarrow> addr list groups option set" where
  "views g ords fi E old = insert old (Some ` fst ` offered_scans g ords fi E)"

definition serving_ok ::
  "('b, 'q, 'r) medley \<Rightarrow> 'b \<Rightarrow> growth \<Rightarrow> map_orders \<Rightarrow> addr list groups option \<Rightarrow> unit file_ingester
    \<Rightarrow> 'e ingest_env set \<Rightarrow> ('b, 'r, 'e) serving \<Rightarrow> bool" where
  "serving_ok md b g ords old fi E s \<longleftrightarrow>
     system_ok md b (views g ords fi E old) (sv_locator s) \<and>
     length (fi_listeners (is_fi (sv_ingests s))) = 1 \<and>
     (\<forall>i. linked (sv_call s i) (sv_thread s i)) \<and>
     overlap_ok md b g ords (with_listeners [published md b old] fi) E (effective_calls md b s)"

lemma offered_scans_listeners [simp]:
  fixes E :: "'e ingest_env set"
  shows "offered_scans g ords (with_listeners ls fi) E = offered_scans g ords fi E"
proof -
  have "scan env (with_listeners ls fi) = scan env fi" for env :: "'e ingest_env"
    by (rule scan_fields) simp_all
  then show ?thesis by (simp add: offered_scans_def)
qed

lemma past_lock_update: "past_lock t \<Longrightarrow> update_of t \<noteq> None"
  by (cases t) simp_all

lemma effective_call_other: "\<nexists>event. c = CallDispatch event 0 \<Longrightarrow> effective_call t c = c"
  by (cases "(t, c)" rule: effective_call.cases) simp_all

lemma effective_call_early: "\<not> past_lock t \<Longrightarrow> effective_call t c = c"
  by (cases "(t, c)" rule: effective_call.cases) simp_all

lemma effective_call_cong: "past_lock t' = past_lock t \<Longrightarrow> effective_call t' c = effective_call t c"
  by (cases "(t, c)" rule: effective_call.cases) simp_all

lemma effective_calls_fi:
  "fi_first (is_fi (effective_calls md b s)) = fi_first (is_fi (sv_ingests s))"
  "fi_checksum (is_fi (effective_calls md b s)) = fi_checksum (is_fi (sv_ingests s))"
  "fi_listeners (is_fi (effective_calls md b s)) = [effective md b (sv_locator s)]"
  "ingest_read g env (is_fi (effective_calls md b s)) = ingest_read g env (is_fi (sv_ingests s))"
  by (simp_all add: effective_calls_def)

lemma effective_calls_set:
  assumes "effective_call (sv_thread s i) c = c"
  shows "effective_calls md b (s\<lparr>sv_ingests := (sv_ingests s)\<lparr>is_calls := (sv_call s)(i := c)\<rparr>\<rparr>) =
      (effective_calls md b s)\<lparr>is_calls := (is_calls (effective_calls md b s))(i := c)\<rparr>"
    and "effective_calls md b (s\<lparr>sv_ingests := (sv_ingests s)\<lparr>
        is_fi := (is_fi (sv_ingests s))\<lparr>fi_first := x\<rparr>, is_calls := (sv_call s)(i := c)\<rparr>\<rparr>) =
      (effective_calls md b s)\<lparr>is_fi := (is_fi (effective_calls md b s))\<lparr>fi_first := x\<rparr>,
        is_calls := (is_calls (effective_calls md b s))(i := c)\<rparr>"
    and "effective_calls md b (s\<lparr>sv_ingests := (sv_ingests s)\<lparr>
        is_fi := (is_fi (sv_ingests s))\<lparr>fi_checksum := v\<rparr>, is_calls := (sv_call s)(i := c)\<rparr>\<rparr>) =
      (effective_calls md b s)\<lparr>is_fi := (is_fi (effective_calls md b s))\<lparr>fi_checksum := v\<rparr>,
        is_calls := (is_calls (effective_calls md b s))(i := c)\<rparr>"
  using assms by (auto simp: effective_calls_def fun_eq_iff)

text \<open>What a call does by itself, it also does in the system with atomic listeners.\<close>

lemma ingest_moves_effective:
  assumes "\<nexists>event. sv_call s i = CallDispatch event 0"
    and step: "advance_call g ords (\<lambda>l _. Inr l) i (sv_ingests s) = Some t"
    and "length (fi_listeners (is_fi (sv_ingests s))) = 1"
    and linked: "linked (sv_call s i) (sv_thread s i)"
  shows "advance_call g ords (on_ingest md) i (effective_calls md b s) =
      Some (effective_calls md b (s\<lparr>sv_ingests := t\<rparr>))"
    and "\<forall>j. j \<noteq> i \<longrightarrow> is_calls t j = sv_call s j" and "linked (is_calls t i) (sv_thread s i)"
    and "length (fi_listeners (is_fi t)) = 1"
proof -
  have idle: "\<not> past_lock (sv_thread s i)" "update_of (sv_thread s i) = None" if "\<not> listened (sv_call s i)"
    using linked assms(1) that past_lock_update [of "sv_thread s i"] by (auto simp: linked_def)
  note defs = advance_call_def Let_def
  have call: "is_calls (effective_calls md b s) i = sv_call s i"
    using effective_call_other [OF assms(1)] by (simp add: effective_calls_def)
  show "advance_call g ords (on_ingest md) i (effective_calls md b s) =
      Some (effective_calls md b (s\<lparr>sv_ingests := t\<rparr>))"
    using step assms(1,3) idle(1) call
    by (cases "sv_call s i")
      (auto simp: defs effective_calls_set effective_calls_fi effective_call_early split: if_splits)
  show "\<forall>j. j \<noteq> i \<longrightarrow> is_calls t j = sv_call s j"
    using step by (cases "sv_call s i") (auto simp: defs split: if_splits)
  show "linked (is_calls t i) (sv_thread s i)"
    using assms(1-3) idle(2) linked
    by (cases "sv_call s i") (auto simp: defs linked_def split: if_splits)
  show "length (fi_listeners (is_fi t)) = 1"
    using step assms(3) by (cases "sv_call s i") (auto simp: defs split: if_splits)
qed

lemma serving_okD:
  assumes "serving_ok md b g ords old fi E s"
  shows "system_ok md b (views g ords fi E old) (sv_locator s)"
    and "length (fi_listeners (is_fi (sv_ingests s))) = 1"
    and "linked (sv_call s i) (sv_thread s i)"
    and "overlap_ok md b g ords (with_listeners [published md b old] fi) E (effective_calls md b s)"
    and "call_ok g ords E (offered_scans g ords fi E) (effective_call (sv_thread s i) (sv_call s i))"
  using assms by (simp_all add: serving_ok_def overlap_ok_def Let_def effective_calls_def)

text \<open>The two shapes of a step: the effective system stays as it is, or makes a step too.\<close>

lemma serving_ok_stutter:
  assumes "serving_ok md b g ords old fi E s" and "effective_calls md b s' = effective_calls md b s"
    and "system_ok md b (views g ords fi E old) (sv_locator s')"
    and "is_fi (sv_ingests s') = is_fi (sv_ingests s)" and "\<And>i. linked (sv_call s' i) (sv_thread s' i)"
  shows "serving_ok md b g ords old fi E s'"
  using assms by (simp add: serving_ok_def)

lemma serving_ok_effective:
  assumes "serving_ok md b g ords old fi E s"
    and "advance_call g ords (on_ingest md) i (effective_calls md b s) = Some (effective_calls md b s')"
    and "system_ok md b (views g ords fi E old) (sv_locator s')"
    and "length (fi_listeners (is_fi (sv_ingests s'))) = 1" and "\<And>i. linked (sv_call s' i) (sv_thread s' i)"
  shows "serving_ok md b g ords old fi E s'"
  using assms overlap_ok_step [OF assms(2) serving_okD(4) [OF assms(1)]] by (simp add: serving_ok_def)

text \<open>A call of the listener that returns, as one step.\<close>

lemma effective_dispatch:
  assumes "is_calls (effective_calls md b s) i = CallDispatch event 0"
    and "on_ingest md (effective md b (sv_locator s)) event = Inr l"
  shows "advance_call g ords (on_ingest md) i (effective_calls md b s) =
    Some \<lparr>is_fi = with_listeners [l] (is_fi (sv_ingests s)),
      is_calls = (is_calls (effective_calls md b s))(i := CallDispatch event 1)\<rparr>"
  using assms by (simp add: advance_call_def Let_def effective_calls_fi)
    (simp add: effective_calls_def with_listeners_def)

lemma serve_goroutine:
  assumes ok: "serving_ok md b g ords old fi E s" and step: "lstep md (sv_locator s) l"
  defines "s' \<equiv> s\<lparr>sv_locator := l\<rparr>"
  shows "serving_ok md b g ords old fi E s' \<and>
    (effective_calls md b s' = effective_calls md b s \<or>
     istep g ords (on_ingest md) (effective_calls md b s) (effective_calls md b s'))"
proof -
  note D = serving_okD [OF ok]
  have sys: "system_ok md b (views g ords fi E old) (sv_locator s')"
    using lstep_ok [OF step D(1)] by (simp add: s'_def)
  from lstep_effective [OF step D(1)] obtain i where
    others: "\<And>j. j \<noteq> i \<Longrightarrow> sys_threads l j = sv_thread s j"
    and upd: "update_of (sys_threads l i) = update_of (sv_thread s i)" "\<not> returned (sv_thread s i)"
    and kind: "past_lock (sys_threads l i) = past_lock (sv_thread s i) \<and> effective md b l = effective md b (sv_locator s) \<or>
      \<not> past_lock (sv_thread s i) \<and> past_lock (sys_threads l i) \<and> update_of (sv_thread s i) \<noteq> None \<and>
      sys_writer (sv_locator s) = None \<and> effective md b l = published md b (update_of (sv_thread s i))"
    by blast
  have linked: "linked (sv_call s' j) (sv_thread s' j)" for j
    using D(3) [of j] upd others [of j] by (cases "j = i") (auto simp: s'_def linked_def)
  show ?thesis
  proof (cases "past_lock (sys_threads l i) = past_lock (sv_thread s i)")
    case True
    have "effective_call (sys_threads l j) (sv_call s j) = effective_call (sv_thread s j) (sv_call s j)" for j
      using effective_call_cong [OF True] others [of j] by (cases "j = i") auto
    with kind True have "effective_calls md b s' = effective_calls md b s"
      by (auto simp: effective_calls_def s'_def)
    with serving_ok_stutter [OF ok this sys _ linked] show ?thesis by (simp add: s'_def)
  next
    case False
    with kind obtain gps where gps: "update_of (sv_thread s i) = Some gps"
      and lock: "\<not> past_lock (sv_thread s i)" "past_lock (sys_threads l i)" "sys_writer (sv_locator s) = None"
      "effective md b l = published md b (Some gps)"
      by auto
    with D(3) [of i] upd(2) obtain event where event: "sv_call s i = CallDispatch event 0"
      "ev_err event = None" "ev_groups event = Some gps"
      by (auto simp: linked_def)
    obtain gps_ptr where "sys_loc (sv_locator s) = published md b gps_ptr"
      using D(1) lock(3) unfolding system_ok_def by blast
    then have on: "on_ingest md (effective md b (sv_locator s)) event = Inr (published md b (Some gps))"
      using lock(3) event(2,3) update_published [of md b gps_ptr gps] by (simp add: effective_def on_ingest_def)
    have "is_calls (effective_calls md b s) i = CallDispatch event 0"
      using lock(1) event(1) by (simp add: effective_calls_def)
    from effective_dispatch [OF this on, of g ords]
    have "advance_call g ords (on_ingest md) i (effective_calls md b s) = Some (effective_calls md b s')"
      using others lock(2,4) event(1) by (auto simp: effective_calls_def s'_def fun_eq_iff)
    with serving_ok_effective [OF ok this sys _ linked] D(2) show ?thesis
      by (auto simp: s'_def intro: istep.call)
  qed
qed

lemma serving_ok_step:
  assumes step: "serve_step g ords md s s'" and ok: "serving_ok md b g ords old fi E s"
  shows "serving_ok md b g ords old fi E s' \<and>
    (effective_calls md b s' = effective_calls md b s \<or>
     istep g ords (on_ingest md) (effective_calls md b s) (effective_calls md b s'))"
  using step
proof cases
  case (goroutine_moves l)
  then show ?thesis using serve_goroutine [OF ok] by simp
next
  case (ingest_moves i t)
  note D = serving_okD [OF ok]
  note moves = ingest_moves_effective [OF ingest_moves(2,3) D(2,3)]
  have "linked (sv_call s' j) (sv_thread s' j)" for j
    using moves(2,3) D(3) [of j] ingest_moves(1) by (cases "j = i") auto
  with serving_ok_effective [OF ok, of i s'] moves(1,4) D(1) ingest_moves(1)
  show ?thesis by (auto intro: istep.call)
next
  case (listen_error i event)
  note D = serving_okD [OF ok]
  have idle: "update_of (sv_thread s i) = None" "\<not> past_lock (sv_thread s i)"
    using D(3) [of i] listen_error(2,3) past_lock_update [of "sv_thread s i"] by (auto simp: linked_def)
  have "advance_call g ords (on_ingest md) i (effective_calls md b s) = Some (effective_calls md b s')"
    by (subst effective_dispatch [of md b s i event "effective md b (sv_locator s)"])
      (use listen_error idle in \<open>auto simp: effective_calls_def set_call_def on_ingest_def fun_eq_iff\<close>)
  moreover have "linked (sv_call s' j) (sv_thread s' j)" for j
    using D(3) [of j] idle listen_error(1) by (auto simp: set_call_def linked_def)
  ultimately show ?thesis
    using serving_ok_effective [OF ok, of i s'] D(1,2) listen_error(1) by (auto simp: set_call_def intro: istep.call)
next
  case (listen_groups i event gps p)
  note D = serving_okD [OF ok]
  have "Some gps \<in> views g ords fi E old"
    using D(5) [of i] listen_groups(2-5) by (auto simp: views_def)
  moreover have reads: "\<not> reading (sv_thread s i)" "\<not> writing (sv_thread s i)" using listen_groups(5) by simp_all
  ultimately have sys: "system_ok md b (views g ords fi E old) (sv_locator s')"
    using system_ok_local [OF D(1) reads(2), of "UpdateStart gps"] not_reader [OF D(1) reads(1)] listen_groups(1)
    by (simp add: set_thread_def)
  have "i \<notin> set_option (sys_writer (sv_locator s))"
    using D(1) reads(2) unfolding system_ok_def by blast
  then have "sys_writer (sv_locator s) \<noteq> Some i" by auto
  then have "effective_calls md b s' = effective_calls md b s"
    using listen_groups(1,2,5)
    by (auto simp: effective_calls_def effective_def set_thread_def fun_eq_iff split: option.split)
  moreover have "linked (sv_call s' j) (sv_thread s' j)" for j
    using D(3) [of j] listen_groups(1-4) by (auto simp: set_thread_def linked_def)
  ultimately show ?thesis
    using serving_ok_stutter [OF ok _ sys] listen_groups(1) by (auto simp: set_thread_def)
next
  case (listen_nil i event)
  then show ?thesis using serving_okD(5) [OF ok, of i] by (simp split: if_splits)
next
  case (listen_return i event gps)
  note D = serving_okD [OF ok]
  have "effective_calls md b s' = effective_calls md b s"
    using listen_return by (auto simp: effective_calls_def set_call_def fun_eq_iff)
  moreover have "linked (sv_call s' j) (sv_thread s' j)" for j
    using D(3) [of j] listen_return by (auto simp: set_call_def linked_def)
  ultimately show ?thesis
    using serving_ok_stutter [OF ok] D(1) listen_return(1) by (auto simp: set_call_def)
qed

definition ingest_envs :: "(nat \<Rightarrow> 'e ingest_env option) \<Rightarrow> 'e ingest_env set" where
  "ingest_envs envs = {env. \<exists>i. envs i = Some env}"

lemma start_effective:
  assumes "\<forall>i. is_request old (requests i)"
  shows "effective_calls md b (start_serving md b old fi envs requests) =
    start_calls (with_listeners [published md b old] fi) envs"
proof -
  have "\<not> past_lock (if envs i = None then requests i else idle old)" for i
    using assms [rule_format, of i] by (cases "requests i") (simp_all add: idle_def)
  then show ?thesis
    by (simp add: effective_calls_def start_serving_def start_calls_def effective_def start_system_def
        effective_call_early fun_eq_iff)
qed

lemma serving_ok_start:
  assumes "\<forall>i. is_request old (requests i)" and "length (fi_listeners fi) = 1"
  shows "serving_ok md b g ords old fi (ingest_envs envs) (start_serving md b old fi envs requests)"
proof -
  let ?t = "\<lambda>i. if envs i = None then requests i else idle old"
  have t: "\<not> reading (?t i) \<and> \<not> writing (?t i) \<and> update_of (?t i) = None \<and>
      goroutine_ok md b (views g ords fi (ingest_envs envs) old) l (?t i)" for i l
    using assms(1) [rule_format, of i] by (cases "requests i") (simp_all add: idle_def views_def)
  have "system_ok md b (views g ords fi (ingest_envs envs) old) (start_system md b old ?t)"
    using t by (auto simp: system_ok_def start_system_def views_def)
  moreover have "overlap_ok md b g ords (with_listeners [published md b old] fi) (ingest_envs envs)
      (start_calls (with_listeners [published md b old] fi) envs)"
    unfolding ingest_envs_def by (rule overlap_ok_start) simp
  ultimately show ?thesis
    using start_effective [OF assms(1), of md b fi envs] assms(2) t
    by (simp add: serving_ok_def start_serving_def linked_def start_system_def start_calls_def)
qed

interpretation serving: step_simulation "serve_step g ords md" "serving_ok md b g ords old fi E"
    "istep g ords (on_ingest md)" "effective_calls md b"
  for g ords md b old fi E
  by unfold_locales (rule serving_ok_step)

lemma serving_reachable:
  assumes "(serve_step g ords md)\<^sup>*\<^sup>* (start_serving md b old fi envs requests) s"
    and "\<forall>i. is_request old (requests i)" and "length (fi_listeners fi) = 1"
  shows "serving_ok md b g ords old fi (ingest_envs envs) s \<and>
    (istep g ords (on_ingest md))\<^sup>*\<^sup>* (start_calls (with_listeners [published md b old] fi) envs)
      (effective_calls md b s)"
  using serving.simulates [OF assms(1) serving_ok_start [OF assms(2,3)]]
  by (simp add: start_effective [OF assms(2)])

section \<open>An undisturbed ingest\<close>

lemma serve_goroutines:
  "(lstep md)\<^sup>*\<^sup>* (sv_locator s) l \<Longrightarrow> (serve_step g ords md)\<^sup>*\<^sup>* s (s\<lparr>sv_locator := l\<rparr>)"
proof (induction rule: rtranclp_induct)
  case (step l l')
  then show ?case
    using goroutine_moves [of md "s\<lparr>sv_locator := l\<rparr>" l' g ords] by (auto intro: rtranclp.rtrancl_into_rtrancl)
qed simp

text \<open>When nobody holds the lock, the listener is called and returns; the locator then shows the groups.\<close>

lemma listener_updates:
  assumes "sv_call s i = CallDispatch event 0" and "ev_err event = None" and "ev_groups event = Some gps"
    and "sv_thread s i = GroupsDone p" and "sys_writer (sv_locator s) = None" and "sys_readers (sv_locator s) = {}"
    and "sys_loc (sv_locator s) = published md b old"
  shows "(serve_step g ords md)\<^sup>*\<^sup>* s (set_call i (CallDispatch event 1)
    (s\<lparr>sv_locator := (sv_locator s)\<lparr>sys_loc := published md b (Some gps),
       sys_threads := (sv_thread s)(i := UpdateDone gps)\<rparr>\<rparr>))"
proof -
  let ?s1 = "set_thread i (UpdateStart gps) s"
  let ?l = "(sv_locator s)\<lparr>sys_loc := published md b (Some gps), sys_threads := (sv_thread s)(i := UpdateDone gps)\<rparr>"
  obtain by_name all where rings: "build_rings md b (gps_all gps) = (by_name, all)" by fastforce
  have "(published md b old)\<lparr>loc_groups := Some gps, loc_rings_by_name := Some by_name, loc_all_rings := all\<rparr> =
      published md b (Some gps)"
    using rings build_rings_snd [of md b "gps_all gps"]
    by (cases old) (simp_all add: published_def zero_locator_def)
  then have "run_schedule md (replicate 6 i) (sv_locator ?s1) = Some ?l"
    using assms(5-7) rings by (simp add: numeral_eq_Suc set_thread_def advance_def Let_def)
  then have "(serve_step g ords md)\<^sup>*\<^sup>* ?s1 (?s1\<lparr>sv_locator := ?l\<rparr>)"
    by (intro serve_goroutines run_schedule_lsteps)
  moreover have "serve_step g ords md s ?s1" using assms(1-4) by (rule listen_groups)
  moreover have "serve_step g ords md (?s1\<lparr>sv_locator := ?l\<rparr>) (set_call i (CallDispatch event 1) (?s1\<lparr>sv_locator := ?l\<rparr>))"
    using assms(1) by (intro listen_return [of _ i event gps]) (simp_all add: set_thread_def)
  ultimately have "(serve_step g ords md)\<^sup>*\<^sup>* s (set_call i (CallDispatch event 1) (?s1\<lparr>sv_locator := ?l\<rparr>))"
    by (meson converse_rtranclp_into_rtranclp rtranclp.rtrancl_into_rtrancl)
  then show ?thesis by (simp add: set_thread_def)
qed

lemma first_call_dispatches:
  fixes env :: "'e ingest_env"
  assumes "sv_call s i = CallStart env" and "\<not> fi_first (is_fi (sv_ingests s))"
    and "scan env (is_fi (sv_ingests s)) = Inr (rrs, bytes)"
  shows "(serve_step g ords md)\<^sup>*\<^sup>* s (s\<lparr>sv_ingests := (sv_ingests s)\<lparr>
    is_fi := (is_fi (sv_ingests s))\<lparr>fi_first := True, fi_checksum := adler32 bytes\<rparr>, is_calls := (sv_call s)(i :=
    CallDispatch \<lparr>ev_err = None, ev_groups = Some (build_from g ords (fi_domain (is_fi (sv_ingests s))) rrs)\<rparr> 0)\<rparr>\<rparr>)"
proof -
  let ?fi = "is_fi (sv_ingests s)"
  obtain rrc where add: "add_rrs g (new_rr_collector (fi_domain ?fi)) rrs = (rrc, None)"
    and read: "ingest_read g env ?fi = (adler_write adler_new bytes, rrc, None)"
    using ingest_read_scan [where env = env and fi = ?fi and g = g] assms(3) by auto
  have built: "built_event g ords rrc =
      \<lparr>ev_err = None, ev_groups = Some (build_from g ords (fi_domain ?fi) rrs)\<rparr>"
    using add by (simp add: built_event_def built_groups_def build_from_def)
  note defs = advance_call_def Let_def
  have to: "serve_step g ords md (s\<lparr>sv_ingests := t\<rparr>) (s\<lparr>sv_ingests := t'\<rparr>)"
    if "\<nexists>event. is_calls t i = CallDispatch event 0" "advance_call g ords (\<lambda>l _. Inr l) i t = Some t'" for t t'
    using ingest_moves [of "s\<lparr>sv_ingests := t\<rparr>" i g ords t' md] that by simp
  let ?at = "\<lambda>fi c. (sv_ingests s)\<lparr>is_fi := fi, is_calls := (sv_call s)(i := c)\<rparr>"
  let ?sum = "adler_value (adler_write adler_new bytes)"
  have a1: "serve_step g ords md (s\<lparr>sv_ingests := sv_ingests s\<rparr>) (s\<lparr>sv_ingests := ?at ?fi (CallLoaded env (fi_checksum ?fi))\<rparr>)"
    using assms(1) by (intro to) (simp_all add: defs)
  have a2: "serve_step g ords md (s\<lparr>sv_ingests := ?at ?fi (CallLoaded env (fi_checksum ?fi))\<rparr>)
      (s\<lparr>sv_ingests := ?at ?fi (CallScanned (fi_checksum ?fi) ?sum rrc)\<rparr>)"
    using read by (intro to) (simp_all add: defs after_scan_def)
  have a3: "serve_step g ords md (s\<lparr>sv_ingests := ?at ?fi (CallScanned (fi_checksum ?fi) ?sum rrc)\<rparr>)
      (s\<lparr>sv_ingests := ?at (?fi\<lparr>fi_first := True\<rparr>) (CallStore ?sum rrc)\<rparr>)"
    using assms(2) by (intro to) (simp_all add: defs)
  have a4: "serve_step g ords md (s\<lparr>sv_ingests := ?at (?fi\<lparr>fi_first := True\<rparr>) (CallStore ?sum rrc)\<rparr>)
      (s\<lparr>sv_ingests := ?at (?fi\<lparr>fi_first := True, fi_checksum := ?sum\<rparr>) (CallDispatch (built_event g ords rrc) 0)\<rparr>)"
    by (intro to) (simp_all add: defs)
  note into = converse_rtranclp_into_rtranclp [where r = "serve_step g ords md"]
  note last = r_into_rtranclp [where r = "serve_step g ords md"]
  from into [OF a1 into [OF a2 into [OF a3 last [OF a4]]]] show ?thesis
    by (simp add: built adler32_def)
qed

section \<open>Properties\<close>

text \<open>
  Property C9: calling the locator as a listener, with its lock and its writes one by one and
  requests in between, implements the calls of a listener that takes effect at one point: every
  reachable state stands for a state that the overlapping calls of \<open>Ingest\<close> reach with such a
  listener, whose locator is the one that requests see whenever nobody is writing.
\<close>

theorem locked_listener_refines_calls:
  assumes "(serve_step g ords md)\<^sup>*\<^sup>* (start_serving md b old fi envs requests) s"
    and "\<forall>i. is_request old (requests i)" and "length (fi_listeners fi) = 1"
  shows "(istep g ords (on_ingest md))\<^sup>*\<^sup>* (start_calls (with_listeners [published md b old] fi) envs)
      (effective_calls md b s) \<and>
    (sys_writer (sv_locator s) = None \<longrightarrow>
       fi_listeners (is_fi (effective_calls md b s)) = [sys_loc (sv_locator s)])"
  using serving_reachable [OF assms] by (simp add: effective_calls_fi) (simp add: effective_def)

text \<open>A first ingest and one request, which asks for the groups when the ingest has been announced.\<close>

definition lone_ingester :: "unit file_ingester" where
  "lone_ingester = with_listeners [()] sample_ingester"

definition lone_envs :: "nat \<Rightarrow> string ingest_env option" where
  "lone_envs i = (if i = 0 then Some sample_env else None)"

definition lone_request :: "nat \<Rightarrow> addr list endpoint list goroutine" where
  "lone_request i = (if i = 1 then GroupsStart else idle None)"

abbreviation lone_start :: "(int, addr list endpoint list, string) serving" where
  "lone_start \<equiv> start_serving sample_medley 0 None lone_ingester lone_envs lone_request"

lemma lone_requests: "\<forall>i. is_request None (lone_request i)" "length (fi_listeners lone_ingester) = 1"
  by (simp_all add: lone_request_def idle_def lone_ingester_def)

lemma lone_run:
  "\<exists>s. (serve_step (\<lambda>_ n. n) sample_orders sample_medley)\<^sup>*\<^sup>* lone_start s \<and>
     sv_thread s 1 = GroupsDone (Some (build_from (\<lambda>_ n. n) sample_orders ''d.'' sample_zone))"
proof -
  let ?step = "serve_step (\<lambda>_ n. n) sample_orders sample_medley"
  let ?gps = "build_from (\<lambda>_ n. n) sample_orders ''d.'' sample_zone"
  have "scan sample_env lone_ingester = scan sample_env sample_ingester"
    by (rule scan_fields) (simp_all add: lone_ingester_def)
  then have scan: "scan sample_env lone_ingester = Inr (sample_zone, ''a.zoneb.zone'')"
    by (simp only: sample_scan)
  have fi: "fi_domain lone_ingester = ''d.''" "\<not> fi_first lone_ingester"
    by (simp_all add: lone_ingester_def sample_ingester_def zero_file_ingester_def)
  let ?event = "\<lparr>ev_err = None, ev_groups = Some ?gps\<rparr> :: string ingest_error ingest_event"
  have c: "sv_call lone_start 0 = CallStart sample_env" "is_fi (sv_ingests lone_start) = lone_ingester"
    by (simp_all add: start_serving_def start_calls_def lone_envs_def)
  obtain s1 where s1: "?step\<^sup>*\<^sup>* lone_start s1" "sv_call s1 0 = CallDispatch ?event 0"
    "sv_locator s1 = sv_locator lone_start"
    by (rule that [OF first_call_dispatches [OF c(1), unfolded c(2), OF fi(2) scan, unfolded fi(1)]]) simp_all
  have l1: "sys_threads (sv_locator s1) 0 = GroupsDone None" "sys_threads (sv_locator s1) 1 = GroupsStart"
    "sys_writer (sv_locator s1) = None" "sys_readers (sv_locator s1) = {}"
    "sys_loc (sv_locator s1) = published sample_medley 0 None"
    unfolding s1(3)
    by (simp_all add: start_serving_def start_system_def lone_envs_def idle_def lone_request_def)
  have event: "ev_err ?event = None" "ev_groups ?event = Some ?gps" by simp_all
  obtain s2 where s2: "?step\<^sup>*\<^sup>* s1 s2" "sv_thread s2 1 = GroupsStart" "sys_writer (sv_locator s2) = None"
    "sys_loc (sv_locator s2) = published sample_medley 0 (Some ?gps)"
    by (rule that [OF listener_updates [OF s1(2) event l1(1,3-5)]]) (simp_all add: set_call_def l1 [simplified])
  have "run_schedule sample_medley [1, 1] (sv_locator s2) \<noteq> None \<and>
      (\<forall>l. run_schedule sample_medley [1, 1] (sv_locator s2) = Some l \<longrightarrow> sys_threads l 1 = GroupsDone (Some ?gps))"
    using s2(2-4) by (simp add: advance_def Let_def)
  then obtain l where l: "run_schedule sample_medley [1, 1] (sv_locator s2) = Some l"
    "sys_threads l 1 = GroupsDone (Some ?gps)" by blast
  have "?step\<^sup>*\<^sup>* s2 (s2\<lparr>sv_locator := l\<rparr>)" by (intro serve_goroutines run_schedule_lsteps [OF l(1)])
  with s1(1) s2(1) have "?step\<^sup>*\<^sup>* lone_start (s2\<lparr>sv_locator := l\<rparr>)" by (meson rtranclp_trans)
  with l(2) show ?thesis by (intro exI [of _ "s2\<lparr>sv_locator := l\<rparr>"]) simp
qed

theorem locked_listener_refines_calls_witness:
  "\<exists>s. sv_thread s 1 = GroupsDone (Some (build_from (\<lambda>_ n. n) sample_orders ''d.'' sample_zone)) \<and>
     (istep (\<lambda>_ n. n) sample_orders (on_ingest sample_medley))\<^sup>*\<^sup>*
       (start_calls (with_listeners [published sample_medley 0 None] lone_ingester) lone_envs)
       (effective_calls sample_medley 0 s)"
proof -
  obtain s where s: "(serve_step (\<lambda>_ n. n) sample_orders sample_medley)\<^sup>*\<^sup>* lone_start s"
    "sv_thread s 1 = GroupsDone (Some (build_from (\<lambda>_ n. n) sample_orders ''d.'' sample_zone))"
    using lone_run by blast
  from locked_listener_refines_calls [OF s(1) lone_requests] s(2) show ?thesis by blast
qed

text \<open>
  What requests are told while ingests overlap. However the calls and the requests
  interleave, a finished lookup returned what it returns on the groups that the locator had at
  first or on those of one error-free scan by one of the calls, a finished \<open>Groups\<close> returned such
  groups, and no call panics.
\<close>

lemma requests_see_one_scan:
  assumes "(serve_step g ords md)\<^sup>*\<^sup>* (start_serving md b old fi envs requests) s"
    and "\<forall>i. is_request old (requests i)" and "length (fi_listeners fi) = 1"
  shows "(\<forall>i object names results. sv_thread s i = FindDone object names results \<longrightarrow>
      (\<exists>gps_ptr \<in> views g ords fi (ingest_envs envs) old.
        results = find_string md (published md b gps_ptr) object names)) \<and>
    (\<forall>i gps_ptr. sv_thread s i = GroupsDone gps_ptr \<longrightarrow> gps_ptr \<in> views g ords fi (ingest_envs envs) old) \<and>
    (\<forall>i p. sv_call s i \<noteq> CallPanicked p)"
proof -
  note D = serving_okD [OF conjunct1 [OF serving_reachable [OF assms]]]
  have th: "goroutine_ok md b (views g ords fi (ingest_envs envs) old) (sys_loc (sv_locator s)) (sv_thread s i)" for i
    using D(1) unfolding system_ok_def by blast
  have "gps_ptr \<in> views g ords fi (ingest_envs envs) old" if "sv_thread s i = GroupsDone gps_ptr" for i gps_ptr
    using th [of i] that by simp
  moreover have "\<exists>gps_ptr \<in> views g ords fi (ingest_envs envs) old.
      results = find_string md (published md b gps_ptr) object names"
    if "sv_thread s i = FindDone object names results" for i object names results
    using th [of i] that by simp
  moreover have "sv_call s i \<noteq> CallPanicked p" for i p
    using D(5) [of i] by auto
  ultimately show ?thesis by blast
qed

end
