(* ===== verification/Serving_Progress.thy ===== *)
theory Serving_Progress
  imports Serving_Overlap
begin

text \<open>
  Progress of overlapping ingests and requests: finitely many calls of \<open>Ingest\<close> and finitely many
  requests all return, however they are scheduled. A step of a call that is not a step of the
  locator uses up one of the call's own steps; while the locator runs \<open>Update\<close> for it, the locator's
  measure falls.
\<close>

section \<open>What is left to do\<close>

text \<open>The steps that a call still takes itself; \<open>listening\<close> says that its \<open>Update\<close> has begun.\<close>

fun call_left :: "'e ingest_call \<Rightarrow> bool \<Rightarrow> nat" where
  "call_left (CallStart _) listening = 9"
| "call_left (CallLoaded _ _) listening = 8"
| "call_left (CallScanned _ _ _) listening = 7"
| "call_left (CallStore _ _) listening = 6"
| "call_left (CallCompare _ _ _) listening = 6"
| "call_left (CallSwap _ _ _) listening = 5"
| "call_left (CallDispatch _ k) listening = (if 0 < k then 1 else if listening then 2 else 3)"
| "call_left CallDone listening = 0"
| "call_left (CallPanicked _) listening = 0"

definition left_of :: "('b, 'r, 'e) serving \<Rightarrow> nat \<Rightarrow> nat" where
  "left_of s i = call_left (sv_call s i) (update_of (sv_thread s i) \<noteq> None)"

definition sum_left :: "(nat \<Rightarrow> nat) \<Rightarrow> nat" where
  "sum_left f = (\<Sum>i | f i \<noteq> 0. f i)"

lemma sum_left_less:
  assumes "finite {i. f i \<noteq> 0}" and "\<And>j. j \<noteq> i \<Longrightarrow> f' j = f j" and "f' i < f i"
  shows "finite {j. f' j \<noteq> 0} \<and> sum_left f' < sum_left f"
proof -
  let ?S = "{j. f j \<noteq> 0}"
  have sub: "{j. f' j \<noteq> 0} \<subseteq> ?S" using assms(2,3) by (metis (mono_tags, lifting) Collect_mono less_nat_zero_code)
  have "sum_left f' = (\<Sum>j \<in> ?S. f' j)"
    unfolding sum_left_def using assms(1) sub by (intro sum.mono_neutral_left) auto
  also have "\<dots> < (\<Sum>j \<in> ?S. f j)"
  proof (rule sum_strict_mono_ex1)
    show "\<forall>j \<in> ?S. f' j \<le> f j" using assms(2,3) by (metis less_imp_le order_refl)
    show "\<exists>j \<in> ?S. f' j < f j" using assms(3) by (intro bexI [of _ i]) auto
  qed (rule assms(1))
  finally show ?thesis using finite_subset [OF sub assms(1)] by (simp add: sum_left_def)
qed

text \<open>A goroutine whose call has not returned is idle or runs \<open>Update\<close>.\<close>

definition attached :: "'e ingest_call \<Rightarrow> 'r goroutine \<Rightarrow> bool" where
  "attached c t \<longleftrightarrow> c = CallDone \<or> update_of t \<noteq> None \<or> (\<exists>p. t = GroupsDone p)"

definition finite_serving ::
  "('b, 'q, 'r) medley \<Rightarrow> 'b \<Rightarrow> growth \<Rightarrow> map_orders \<Rightarrow> addr list groups option \<Rightarrow> unit file_ingester
    \<Rightarrow> 'e ingest_env set \<Rightarrow> ('b, 'r, 'e) serving \<Rightarrow> bool" where
  "finite_serving md b g ords old fi E s \<longleftrightarrow>
     serving_ok md b g ords old fi E s \<and> writes_ok (sv_locator s) \<and>
     (\<forall>i. attached (sv_call s i) (sv_thread s i)) \<and>
     finite (unfinished (sv_locator s)) \<and> finite {i. left_of s i \<noteq> 0}"

definition serving_order :: "(('b, 'r, 'e) serving \<times> ('b, 'r, 'e) serving) set" where
  "serving_order = measures [\<lambda>s. sum_left (left_of s), \<lambda>s. work stages_left (sv_locator s),
     \<lambda>s. work rings_left (sv_locator s)]"

lemma serving_order_wf: "wf serving_order"
  by (simp add: serving_order_def)

lemma unfinished_set_thread:
  "unfinished (sv_locator (set_thread i t s)) \<subseteq> insert i (unfinished (sv_locator s))"
  by (auto simp: unfinished_def set_thread_def)

text \<open>A goroutine's step keeps what is left of every call.\<close>

lemma goroutine_progress:
  assumes ok: "finite_serving md b g ords old fi E s" and step: "lstep md (sv_locator s) l"
  defines "s' \<equiv> s\<lparr>sv_locator := l\<rparr>"
  shows "writes_ok l \<and> (\<forall>i. attached (sv_call s' i) (sv_thread s' i)) \<and> finite (unfinished l) \<and>
    left_of s' = left_of s \<and> (s', s) \<in> serving_order"
proof -
  have fin: "finite (unfinished (sv_locator s))" and att: "\<And>i. attached (sv_call s i) (sv_thread s i)"
    and sys: "system_ok md b (views g ords fi E old) (sv_locator s)"
    using ok serving_okD(1) by (auto simp: finite_serving_def)
  obtain i where i: "\<forall>j. j \<noteq> i \<longrightarrow> sys_threads l j = sv_thread s j"
    "update_of (sys_threads l i) = update_of (sv_thread s i)"
    using lstep_effective [OF step sys] by blast
  obtain k t where k: "\<not> finished (sv_thread s k)" "sys_threads l = (sv_thread s)(k := t)"
    using lstep_thread [OF step] by blast
  have upd: "update_of (sys_threads l j) = update_of (sv_thread s j)" for j
    using i by (cases "j = i") auto
  then have left: "left_of s' = left_of s" by (simp add: left_of_def s'_def fun_eq_iff)
  have "attached (sv_call s j) (sys_threads l j)" for j
    using att [of j] upd [of j] k by (cases "j = k") (auto simp: attached_def)
  moreover have "(l, sv_locator s) \<in> measures [work stages_left, work rings_left]"
    using step fin by (rule lstep_decreases(2))
  then have "(s', s) \<in> serving_order" unfolding serving_order_def using left by (simp add: s'_def)
  moreover have "writes_ok l" using lstep_writes_ok [OF step] ok by (simp add: finite_serving_def)
  ultimately show ?thesis using left lstep_decreases(1) [OF step fin] by (simp add: s'_def)
qed

text \<open>Any other step uses up a step of one call.\<close>

lemma call_step_left:
  assumes "advance_call g ords (\<lambda>l _. Inr l) i s = Some t" and "length (fi_listeners (is_fi s)) = 1"
    and "\<nexists>event. is_calls s i = CallDispatch event 0"
  shows "call_left (is_calls t i) listening < call_left (is_calls s i) listening"
  using assms
  by (cases "is_calls s i") (auto simp: advance_call_def Let_def after_scan_def split: if_splits prod.splits option.splits)

lemma call_progress:
  assumes ok: "finite_serving md b g ords old fi E s"
    and "\<And>j. j \<noteq> i \<Longrightarrow> sv_call s' j = sv_call s j \<and> sv_thread s' j = sv_thread s j"
    and "left_of s' i < left_of s i"
    and "unfinished (sv_locator s') \<subseteq> insert i (unfinished (sv_locator s))"
  shows "finite (unfinished (sv_locator s')) \<and> finite {i. left_of s' i \<noteq> 0} \<and> (s', s) \<in> serving_order"
proof -
  have "left_of s' j = left_of s j" if "j \<noteq> i" for j using assms(2) [OF that] by (simp add: left_of_def)
  with sum_left_less [of "left_of s" i "left_of s'"] ok assms(3)
  have "finite {j. left_of s' j \<noteq> 0}" "sum_left (left_of s') < sum_left (left_of s)"
    by (auto simp: finite_serving_def)
  moreover have "finite (unfinished (sv_locator s'))"
    using ok finite_subset [OF assms(4)] by (simp add: finite_serving_def)
  ultimately show ?thesis by (simp add: serving_order_def)
qed

lemma finite_serving_step:
  assumes ok: "finite_serving md b g ords old fi E s" and step: "serve_step g ords md s s'"
  shows "finite_serving md b g ords old fi E s' \<and> (s', s) \<in> serving_order"
proof -
  have sv: "serving_ok md b g ords old fi E s" and wr: "writes_ok (sv_locator s)"
    and att: "\<And>i. attached (sv_call s i) (sv_thread s i)"
    using ok by (auto simp: finite_serving_def)
  have sv': "serving_ok md b g ords old fi E s'" using serving_ok_step [OF step sv] by blast
  have call: ?thesis
    if "\<And>j. j \<noteq> i \<Longrightarrow> sv_call s' j = sv_call s j" "sv_locator s' = sv_locator s"
      "left_of s' i < left_of s i" "attached (sv_call s' i) (sv_thread s i)" for i
  proof -
    have "attached (sv_call s' j) (sv_thread s' j)" for j
      using that att [of j] by (cases "j = i") auto
    with call_progress [OF ok, of i s'] that sv' wr show ?thesis by (auto simp: finite_serving_def)
  qed
  show ?thesis
    using step
  proof cases
    case (goroutine_moves l)
    with goroutine_progress [OF ok, of l] sv' ok show ?thesis by (simp add: finite_serving_def)
  next
    case (ingest_moves i t)
    note moves = ingest_moves_effective(2) [OF ingest_moves(2,3) serving_okD(2,3) [OF sv]]
    have "sv_call s i \<noteq> CallDone" using ingest_moves(3) by (auto simp: advance_call_def)
    then have "attached (is_calls t i) (sv_thread s i)" using att [of i] by (simp add: attached_def)
    with ingest_moves moves call_step_left [OF ingest_moves(3) serving_okD(2) [OF sv] ingest_moves(2)]
    show ?thesis by (intro call [of i]) (simp_all add: left_of_def)
  next
    case (listen_error i event)
    then show ?thesis using att [of i] by (intro call [of i]) (simp_all add: set_call_def left_of_def attached_def)
  next
    case (listen_nil i event)
    then show ?thesis using att [of i] by (intro call [of i]) (simp_all add: set_call_def left_of_def attached_def)
  next
    case (listen_return i event gps)
    then show ?thesis using att [of i] by (intro call [of i]) (simp_all add: set_call_def left_of_def attached_def)
  next
    case (listen_groups i event gps p)
    have "left_of s' i < left_of s i" using listen_groups by (simp add: left_of_def set_thread_def)
    moreover have "attached (sv_call s' j) (sv_thread s' j)" for j
      using att [of j] listen_groups(1) by (simp add: set_thread_def attached_def)
    moreover have "writes_ok (sv_locator s')"
      using wr listen_groups(1) by (auto simp: writes_ok_def set_thread_def)
    ultimately show ?thesis
      using call_progress [OF ok, of i s'] sv' listen_groups(1) unfinished_set_thread [of i "UpdateStart gps" s]
      by (auto simp: finite_serving_def set_thread_def)
  qed
qed

interpretation serving_ends: terminating_system "serve_step g ords md" "finite_serving md b g ords old fi E"
    serving_order
  for g ords md b old fi E
  by unfold_locales
    (rule conjunct1 [OF finite_serving_step] serving_order_wf conjunct2 [OF finite_serving_step]; assumption?)+

section \<open>No deadlock\<close>

text \<open>When every goroutine has finished its call of the locator, a call of \<open>Ingest\<close> can go on.\<close>

lemma call_can_step:
  assumes ok: "finite_serving md b g ords old fi E s" and "sv_call s i \<noteq> CallDone"
    and "finished (sv_thread s i)"
  shows "\<exists>s'. serve_step g ords md s s'"
proof (cases "\<exists>event. sv_call s i = CallDispatch event 0")
  case True
  then obtain event where event: "sv_call s i = CallDispatch event 0" by blast
  have "attached (sv_call s i) (sv_thread s i)" using ok by (simp add: finite_serving_def)
  then consider p where "sv_thread s i = GroupsDone p" | gps where "sv_thread s i = UpdateDone gps"
    using assms(2,3) by (cases "sv_thread s i") (auto simp: attached_def)
  then show ?thesis
  proof cases
    case 1
    show ?thesis
    proof (cases "ev_err event = None \<and> ev_groups event \<noteq> None")
      case True
      then obtain gps where "ev_err event = None" "ev_groups event = Some gps" by auto
      from listen_groups [OF event this 1] show ?thesis by blast
    qed (use listen_error [OF event] listen_nil [OF event] in blast)
  next
    case 2
    from listen_return [OF event this] show ?thesis by blast
  qed
next
  case False
  have "sv_call s i \<noteq> CallPanicked p" for p
  proof
    assume "sv_call s i = CallPanicked p"
    then show False using serving_okD(5) [of md b g ords old fi E s i] ok by (simp add: finite_serving_def)
  qed
  with assms(2) have "\<exists>t. advance_call g ords (\<lambda>l _. Inr l) i (sv_ingests s) = Some t"
    by (cases "sv_call s i") (auto simp: advance_call_def Let_def)
  with ingest_moves [OF False] show ?thesis by blast
qed

lemma serving_stuck:
  assumes ok: "finite_serving md b g ords old fi E s" and stuck: "\<nexists>s'. serve_step g ords md s s'"
  shows "finished (sv_thread s i)" and "sv_call s i = CallDone"
proof -
  have sys: "system_ok md b (views g ords fi E old) (sv_locator s)" and wr: "writes_ok (sv_locator s)"
    using ok serving_okD(1) by (auto simp: finite_serving_def)
  have "\<not> lstep md (sv_locator s) l" for l using goroutine_moves stuck by blast
  then show fin: "finished (sv_thread s i)" for i
    using unfinished_moves [OF sys wr, of i] by (auto simp: moves_def unfinished_def)
  show "sv_call s i = CallDone" using call_can_step [OF ok _ fin] stuck by blast
qed

lemma finite_serving_start:
  assumes "\<forall>i. is_request old (requests i)" and "length (fi_listeners fi) = 1"
    and "finite {i. envs i \<noteq> None}" and "finite {i. requests i \<noteq> idle old}"
  shows "finite_serving md b g ords old fi (ingest_envs envs) (start_serving md b old fi envs requests)"
proof -
  let ?t = "\<lambda>i. if envs i = None then requests i else idle old"
  let ?s = "start_serving md b old fi envs requests"
  have t: "update_of (?t i) = None \<and> \<not> writing (?t i)" for i
    using assms(1) [rule_format, of i] by (cases "requests i") (simp_all add: idle_def)
  have th: "sv_thread ?s i = ?t i" "sv_call ?s i = (case envs i of None \<Rightarrow> CallDone | Some env \<Rightarrow> CallStart env)" for i
    by (simp_all add: start_serving_def start_system_def start_calls_def)
  have "sv_thread ?s i \<noteq> UpdateWrite k gps by_name all" for i k gps by_name all
    using t [of i] by (auto simp only: th(1) writing.simps)
  then have "writes_ok (sv_locator ?s)" by (simp add: writes_ok_def)
  moreover have "attached (sv_call ?s i) (sv_thread ?s i)" for i
    unfolding th attached_def idle_def by (cases "envs i") auto
  moreover have "unfinished (sv_locator ?s) \<subseteq> {i. requests i \<noteq> idle old}"
    unfolding unfinished_def th by (auto simp: idle_def)
  moreover have "{i. left_of ?s i \<noteq> 0} \<subseteq> {i. envs i \<noteq> None}"
    unfolding left_of_def th by (auto split: option.split)
  ultimately show ?thesis
    using serving_ok_start [OF assms(1,2), of md b g ords envs] finite_subset [OF _ assms(3)] finite_subset [OF _ assms(4)]
    by (simp add: finite_serving_def)
qed

section \<open>Properties\<close>

text \<open>
  Overlapping ingests and the requests among them all come to an end. For finitely many
  calls of \<open>Ingest\<close> and finitely many requests, every run, however they are scheduled, reaches a
  state in which all calls and all requests have returned; the lock is then free, and the locator
  holds, whole, the groups it had at first or those of one error-free scan.
\<close>

theorem overlapping_serving_ends:
  assumes "finite {i. envs i \<noteq> None}" and "finite {i. requests i \<noteq> idle old}"
    and "\<forall>i. is_request old (requests i)" and "length (fi_listeners fi) = 1"
    and "run 0 = start_serving md b old fi envs requests" and "maximal (serve_step g ords md) run"
  shows "\<exists>k. (\<forall>i. sv_call (run k) i = CallDone \<and> finished (sv_thread (run k) i)) \<and>
    sys_writer (sv_locator (run k)) = None \<and> sys_readers (sv_locator (run k)) = {} \<and>
    (\<exists>gps_ptr \<in> views g ords fi (ingest_envs envs) old. sys_loc (sv_locator (run k)) = published md b gps_ptr)"
proof -
  let ?ok = "finite_serving md b g ords old fi (ingest_envs envs)"
  have start: "?ok (run 0)" using finite_serving_start [OF assms(3,4,1,2)] assms(5) by simp
  then obtain k where stuck: "\<nexists>s'. serve_step g ords md (run k) s'"
    using serving_ends.maximal_ends [OF assms(6)] by blast
  have ok: "?ok (run k)" using serving_ends.steps_inv [OF maximal_steps [OF assms(6)] start] .
  note fin = serving_stuck [OF ok stuck]
  have sys: "system_ok md b (views g ords fi (ingest_envs envs) old) (sv_locator (run k))"
    using ok serving_okD(1) by (auto simp: finite_serving_def)
  have "\<not> reading (sv_thread (run k) i) \<and> \<not> writing (sv_thread (run k) i)" for i
    using fin(1) [of i] active_unfinished by blast
  with sys have free: "sys_writer (sv_locator (run k)) = None" "sys_readers (sv_locator (run k)) = {}"
    by (auto simp: system_ok_def)
  with sys have "\<exists>gps_ptr \<in> views g ords fi (ingest_envs envs) old. sys_loc (sv_locator (run k)) = published md b gps_ptr"
    unfolding system_ok_def by blast
  with fin free show ?thesis by blast
qed

theorem overlapping_serving_ends_witness:
  "\<exists>run k. run 0 = lone_start \<and> maximal (serve_step (\<lambda>_ n. n) sample_orders sample_medley) run \<and>
     sv_call (run k) 0 = CallDone \<and> finished (sv_thread (run k) 1)"
proof -
  obtain run where run: "run 0 = lone_start" "maximal (serve_step (\<lambda>_ n. n) sample_orders sample_medley) run"
    using maximal_exists [of lone_start] by blast
  have "{i. lone_envs i \<noteq> None} = {0}" "{i. lone_request i \<noteq> idle None} = {1}"
    by (auto simp: lone_envs_def lone_request_def idle_def)
  then have "finite {i. lone_envs i \<noteq> None}" "finite {i. lone_request i \<noteq> idle None}" by simp_all
  from overlapping_serving_ends [OF this lone_requests run] run show ?thesis by blast
qed

end
