(* ===== verification/Lone_Call.thy ===== *)
theory Lone_Call
  imports Serving_Progress
begin

text \<open>
  One call of \<open>Ingest\<close> at a time, in its atomic steps: it ends in what the function \<open>ingest\<close> computes,
  and until then its listener shows what it did before the call or what it will after it. And what a
  state of \<open>Serving_Overlap\<close> keeps when a call begins or a request arrives.
\<close>

section \<open>The steps of one call\<close>

definition lone_call :: "'l file_ingester \<Rightarrow> nat \<Rightarrow> 'e ingest_env \<Rightarrow> ('l, 'e) ingest_system" where
  "lone_call fi i env = \<lparr>is_fi = fi, is_calls = (\<lambda>_. CallDone)(i := CallStart env)\<rparr>"

definition no_calls :: "'l file_ingester \<Rightarrow> ('l, 'e) ingest_system" where
  "no_calls fi = \<lparr>is_fi = fi, is_calls = \<lambda>_. CallDone\<rparr>"

abbreviation run_call ::
  "growth \<Rightarrow> map_orders \<Rightarrow> ('l, 'e ingest_error) listener_method \<Rightarrow> nat \<Rightarrow> nat
    \<Rightarrow> ('l, 'e) ingest_system \<Rightarrow> ('l, 'e) ingest_system option" where
  "run_call g ords on_event n i s \<equiv> run_calls g ords on_event (replicate n i) s"

lemma advance_call_others:
  "advance_call g ords on_event i s = Some s' \<Longrightarrow> j \<noteq> i \<Longrightarrow> is_calls s' j = is_calls s j"
  by (auto simp: advance_call_def Let_def split: ingest_call.splits if_splits sum.splits)

lemma advance_call_Done: "is_calls s i = CallDone \<Longrightarrow> advance_call g ords on_event i s = None"
  by (simp add: advance_call_def Let_def)

lemma run_call_others:
  "run_call g ords on_event n i s = Some s' \<Longrightarrow> j \<noteq> i \<Longrightarrow> is_calls s' j = is_calls s j"
  by (induction n arbitrary: s) (auto split: option.splits dest: advance_call_others)

lemma run_call_more:
  assumes "run_call g ords on_event n i s = Some s'" and "advance_call g ords on_event i s' = Some s''"
  shows "run_call g ords on_event (Suc n) i s = Some s''"
proof -
  have "replicate (Suc n) i = replicate n i @ [i]" by (simp add: replicate_append_same)
  with assms show ?thesis by (simp only: run_calls_append) simp
qed

text \<open>While a call runs alone, the others have no steps.\<close>

lemma lone_step:
  assumes "run_call g ords on_event n i (lone_call fi i env) = Some s" and "istep g ords on_event s s'"
  shows "run_call g ords on_event (Suc n) i (lone_call fi i env) = Some s'"
proof -
  obtain j where j: "advance_call g ords on_event j s = Some s'" using assms(2) by (auto elim: istep.cases)
  have "is_calls s k = CallDone" if "k \<noteq> i" for k
    using run_call_others [OF assms(1) that] that by (simp add: lone_call_def)
  with j have "j = i" by (metis advance_call_Done option.distinct(1))
  with run_call_more [OF assms(1)] j show ?thesis by blast
qed

lemma no_step: "\<not> istep g ords on_event (no_calls fi) s"
  by (auto simp: no_calls_def advance_call_Done elim!: istep.cases)

text \<open>A call that has returned has run all its steps.\<close>

lemma run_call_prefix:
  assumes "run_call g ords on_event n i s = Some u" and "is_calls u i = CallDone"
    and "run_call g ords on_event m i s = Some t"
  shows "m \<le> n" and "run_call g ords on_event (n - m) i t = Some u"
proof -
  show le: "m \<le> n"
  proof (rule ccontr)
    assume "\<not> m \<le> n"
    then obtain k where "m = n + Suc k" by (metis add_Suc_right less_imp_Suc_add not_le)
    then have "replicate m i = replicate n i @ replicate (Suc k) i" by (simp only: replicate_add)
    with assms(1,3) have "run_call g ords on_event (Suc k) i u = Some t"
      by (simp only: run_calls_append option.case)
    with assms(2) show False by (simp add: advance_call_Done)
  qed
  then obtain k where "n = m + k" using le_iff_add by blast
  with assms(1,3) show "run_call g ords on_event (n - m) i t = Some u"
    by (simp add: replicate_add run_calls_append)
qed

lemma run_call_done_eq:
  assumes "run_call g ords on_event n i s = Some u" and "is_calls u i = CallDone"
    and "run_call g ords on_event m i s = Some t" and "is_calls t i = CallDone"
  shows "t = u"
proof -
  have "run_call g ords on_event (n - m) i t = Some u" using run_call_prefix(2) [OF assms(1-3)] .
  then show ?thesis using assms(4) by (cases "n - m") (simp_all add: advance_call_Done)
qed

section \<open>What its listener shows\<close>

fun past_listener :: "'e ingest_call \<Rightarrow> bool" where
  "past_listener (CallDispatch _ k) = (0 < k)"
| "past_listener CallDone = True"
| "past_listener _ = False"

lemma advance_call_listeners:
  assumes "advance_call g ords on_event i s = Some s'" and "length (fi_listeners (is_fi s)) = 1"
  shows "length (fi_listeners (is_fi s')) = 1"
    and "past_listener (is_calls s i) \<Longrightarrow> past_listener (is_calls s' i) \<and> fi_listeners (is_fi s') = fi_listeners (is_fi s)"
    and "\<not> past_listener (is_calls s' i) \<Longrightarrow> fi_listeners (is_fi s') = fi_listeners (is_fi s)"
  using assms
  by (auto simp: advance_call_def Let_def split: ingest_call.splits if_splits sum.splits)

lemma run_call_listeners:
  assumes "run_call g ords on_event n i s = Some s'" and "length (fi_listeners (is_fi s)) = 1"
  shows "length (fi_listeners (is_fi s')) = 1 \<and>
    (past_listener (is_calls s i) \<longrightarrow> past_listener (is_calls s' i) \<and> fi_listeners (is_fi s') = fi_listeners (is_fi s)) \<and>
    (\<not> past_listener (is_calls s' i) \<longrightarrow> fi_listeners (is_fi s') = fi_listeners (is_fi s))"
  using assms
proof (induction n arbitrary: s)
  case (Suc n)
  then obtain t where t: "advance_call g ords on_event i s = Some t" "run_call g ords on_event n i t = Some s'"
    by (auto split: option.splits)
  note one = advance_call_listeners [OF t(1) Suc.prems(2)]
  from Suc.IH [OF t(2) one(1)] one(2,3) show ?case by auto
qed simp

lemma lone_call_ends:
  assumes "ingest g ords env on_event fi = Inr fi'"
  shows "\<exists>n. run_call g ords on_event n i (lone_call fi i env) = Some (no_calls fi')"
proof -
  have "is_calls (lone_call fi i env) i = CallStart env" by (simp add: lone_call_def)
  from call_alone [OF this, of g ords on_event fi'] assms obtain n where
    "run_call g ords on_event n i (lone_call fi i env) =
      Some ((lone_call fi i env)\<lparr>is_fi := fi', is_calls := (is_calls (lone_call fi i env))(i := CallDone)\<rparr>)"
    by (auto simp: lone_call_def)
  then show ?thesis by (intro exI [of _ n]) (simp add: lone_call_def no_calls_def fun_upd_idem)
qed

lemma lone_call_result:
  assumes "ingest g ords env on_event fi = Inr fi'"
    and "run_call g ords on_event m i (lone_call fi i env) = Some s" and "is_calls s i = CallDone"
  shows "s = no_calls fi'"
proof -
  obtain n where "run_call g ords on_event n i (lone_call fi i env) = Some (no_calls fi')"
    using lone_call_ends [OF assms(1)] by blast
  from run_call_done_eq [OF this _ assms(2,3)] show ?thesis by (simp add: no_calls_def)
qed

lemma lone_call_shows:
  assumes "ingest g ords env on_event fi = Inr fi'" and "length (fi_listeners fi) = 1"
    and "run_call g ords on_event m i (lone_call fi i env) = Some s"
  shows "fi_listeners (is_fi s) = fi_listeners fi \<or> fi_listeners (is_fi s) = fi_listeners fi'"
proof -
  obtain n where n: "run_call g ords on_event n i (lone_call fi i env) = Some (no_calls fi')"
    using lone_call_ends [OF assms(1)] by blast
  have start: "length (fi_listeners (is_fi (lone_call fi i env))) = 1" using assms(2) by (simp add: lone_call_def)
  note here = run_call_listeners [OF assms(3) start]
  have "is_calls (no_calls fi' :: ('a, 'b) ingest_system) i = CallDone" by (simp add: no_calls_def)
  from run_call_prefix(2) [OF n this assms(3)]
  have "run_call g ords on_event (n - m) i s = Some (no_calls fi')" .
  from run_call_listeners [OF this] here show ?thesis
    by (auto simp: lone_call_def no_calls_def)
qed

section \<open>Calls that begin, requests that arrive\<close>

lemma system_ok_mono:
  assumes "system_ok md b U s" and "U \<subseteq> U'"
  shows "system_ok md b U' s"
proof -
  have "goroutine_ok md b U l t \<Longrightarrow> goroutine_ok md b U' l t" for l t
    using assms(2) by (cases t) auto
  with assms show ?thesis by (auto simp: system_ok_def)
qed

lemma overlap_ok_mono:
  assumes ok: "overlap_ok md b g ords fi E s" and "E \<subseteq> E'"
  shows "overlap_ok md b g ords fi E' s"
proof -
  let ?O = "offered_scans g ords fi E" and ?O' = "offered_scans g ords fi E'"
  have off: "?O \<subseteq> ?O'" using assms(2) unfolding offered_scans_def by blast
  have "call_ok g ords E ?O c \<Longrightarrow> call_ok g ords E' ?O' c" for c
    using assms(2) off by (cases c) auto
  moreover have sums: "insert (fi_checksum fi) (snd ` ?O) \<subseteq> insert (fi_checksum fi) (snd ` ?O')"
    using off by auto
  moreover have "L \<union> Some ` fst ` ?O \<subseteq> L \<union> Some ` fst ` ?O'" for L using off by auto
  then have "shown_ok md b (L \<union> Some ` fst ` ?O) ls \<Longrightarrow> shown_ok md b (L \<union> Some ` fst ` ?O') ls" for L ls
    unfolding shown_ok_def by (meson subsetD)
  ultimately show ?thesis
    using ok subsetD [OF sums, of "fi_checksum (is_fi s)"] by (simp only: overlap_ok_def Let_def) simp
qed

lemma finite_serving_mono:
  assumes "finite_serving md b g ords old fi E s" and "E \<subseteq> E'"
  shows "finite_serving md b g ords old fi E' s"
proof -
  have "offered_scans g ords fi E \<subseteq> offered_scans g ords fi E'"
    using assms(2) unfolding offered_scans_def by blast
  then have "views g ords fi E old \<subseteq> views g ords fi E' old" unfolding views_def by blast
  then have "system_ok md b (views g ords fi E' old) (sv_locator s)"
    using assms(1) system_ok_mono by (auto simp: finite_serving_def serving_ok_def)
  moreover have "overlap_ok md b g ords (with_listeners [published md b old] fi) E' (effective_calls md b s)"
    by (rule overlap_ok_mono [OF _ assms(2)]) (use assms(1) in \<open>simp add: finite_serving_def serving_ok_def\<close>)
  ultimately show ?thesis using assms(1) by (simp add: finite_serving_def serving_ok_def)
qed

lemma serving_begin:
  assumes ok: "finite_serving md b g ords old fi UNIV s"
    and "sv_call s j = CallDone" and "sv_thread s j = idle old"
  shows "finite_serving md b g ords old fi UNIV (set_call j (CallStart env) s)"
    and "effective_calls md b (set_call j (CallStart env) s) =
      (effective_calls md b s)\<lparr>is_calls := (is_calls (effective_calls md b s))(j := CallStart env)\<rparr>"
proof -
  let ?s = "set_call j (CallStart env) s" and ?t = "effective_calls md b s"
  have sv: "serving_ok md b g ords old fi UNIV s" using ok by (simp add: finite_serving_def)
  note D = serving_okD [OF sv]
  show eff: "effective_calls md b ?s = ?t\<lparr>is_calls := (is_calls ?t)(j := CallStart env)\<rparr>"
    unfolding set_call_def by (rule effective_calls_set) simp
  have "overlap_ok md b g ords (with_listeners [published md b old] fi) UNIV
      (?t\<lparr>is_fi := is_fi ?t, is_calls := (is_calls ?t)(j := CallStart env)\<rparr>)"
    using D(4) by (intro overlap_ok_call) (auto simp: overlap_ok_def Let_def)
  then have "overlap_ok md b g ords (with_listeners [published md b old] fi) UNIV (effective_calls md b ?s)"
    by (simp add: eff)
  moreover have "linked (sv_call ?s i) (sv_thread ?s i)" for i
    using D(3) [of i] assms(3) by (simp add: set_call_def linked_def idle_def)
  ultimately have "serving_ok md b g ords old fi UNIV ?s"
    using D(1,2) by (simp add: serving_ok_def set_call_def)
  moreover have "attached (sv_call ?s i) (sv_thread ?s i)" for i
    using ok assms(3) by (simp add: finite_serving_def set_call_def attached_def idle_def)
  moreover have "{i. left_of ?s i \<noteq> 0} \<subseteq> insert j {i. left_of s i \<noteq> 0}"
    by (auto simp: left_of_def set_call_def)
  then have "finite {i. left_of ?s i \<noteq> 0}" using ok by (auto simp: finite_serving_def intro: finite_subset)
  ultimately show "finite_serving md b g ords old fi UNIV ?s"
    using ok by (simp add: finite_serving_def) (simp add: set_call_def)
qed

text \<open>A call of \<open>FindString\<close> or \<open>Groups\<close> that has yet to get the lock.\<close>

fun is_question :: "'r goroutine \<Rightarrow> bool" where
  "is_question (FindStart _ _) = True"
| "is_question GroupsStart = True"
| "is_question _ = False"

lemma serving_arrive:
  fixes s :: "('b, 'r, 'e) serving"
  assumes ok: "finite_serving md b g ords old fi UNIV s"
    and "sv_call s j = CallDone" and "sv_thread s j = idle old" and "is_question t"
  shows "finite_serving md b g ords old fi UNIV (set_thread j t s)"
    and "effective_calls md b (set_thread j t s) = effective_calls md b s"
proof -
  let ?s = "set_thread j t s"
  have sv: "serving_ok md b g ords old fi UNIV s" using ok by (simp add: finite_serving_def)
  note D = serving_okD [OF sv]
  have t: "\<not> reading t" "\<not> writing t" "update_of t = None" "goroutine_ok md b U l t" "\<not> past_lock t" for U l
    using assms(4) by (cases t; simp)+
  have idle: "\<not> reading (sv_thread s j)" "\<not> writing (sv_thread s j)" "update_of (sv_thread s j) = None"
    using assms(3) by (simp_all add: idle_def)
  have sys: "system_ok md b (views g ords fi (UNIV :: 'e ingest_env set) old) (sv_locator ?s)"
    using system_ok_local [OF D(1) idle(2) t(2)] t(1,4) not_reader [OF D(1) idle(1)]
    by (simp add: set_thread_def)
  have "j \<notin> set_option (sys_writer (sv_locator s))"
    using D(1) idle(2) unfolding system_ok_def by blast
  then have "sys_writer (sv_locator s) \<noteq> Some j" by auto
  then show eff: "effective_calls md b ?s = effective_calls md b s"
    using assms(2) by (auto simp: effective_calls_def effective_def set_thread_def fun_eq_iff split: option.split)
  have "linked (sv_call ?s i) (sv_thread ?s i)" for i
    using D(3) [of i] t(3) by (simp add: set_thread_def linked_def)
  then have "serving_ok md b g ords old fi UNIV ?s"
    using serving_ok_stutter [OF sv eff sys] by (simp add: set_thread_def)
  moreover have "attached (sv_call ?s i) (sv_thread ?s i)" for i
    using ok assms(2) by (simp add: finite_serving_def set_thread_def attached_def)
  moreover have "writes_ok (sv_locator ?s)"
    using ok t(2) by (auto simp: finite_serving_def writes_ok_def set_thread_def)
  moreover have "finite (unfinished (sv_locator ?s))"
    using ok finite_subset [OF unfinished_set_thread [of j t s]] by (simp add: finite_serving_def)
  moreover have "left_of ?s = left_of s"
    using idle(3) t(3) by (auto simp: left_of_def set_thread_def fun_eq_iff)
  ultimately show "finite_serving md b g ords old fi UNIV ?s" using ok by (simp add: finite_serving_def)
qed

text \<open>When no call is under way nobody writes to the locator.\<close>

lemma no_writer:
  assumes "serving_ok md b g ords old fi E s" and "\<And>i. sv_call s i = CallDone"
  shows "sys_writer (sv_locator s) = None"
proof (rule ccontr)
  assume "sys_writer (sv_locator s) \<noteq> None"
  then obtain w where "sys_writer (sv_locator s) = Some w" by blast
  then have "writing (sv_thread s w)" using serving_okD(1) [OF assms(1)] by (auto simp: system_ok_def)
  then have "update_of (sv_thread s w) \<noteq> None" "\<not> returned (sv_thread s w)"
    by (cases "sv_thread s w"; simp)+
  with serving_okD(3) [OF assms(1), of w] assms(2) [of w] show False by (simp add: linked_def)
qed

end
