(* ===== verification/Dns_Requests.thy ===== *)
theory Dns_Requests
  imports Group_Records
begin

text \<open>
  DNS messages as far as the handlers read and write them, the functions of the DNS package
  they call, and the parsing of requests (\<open>ParseEndpointRequest\<close> in
  \<open>server/endpointHandler.go\<close>, \<open>ParseGroupRequest\<close> in \<open>server/groupHandler.go\<close>).

  The DNS package is a parameter: a record of the functions the server calls. \<open>'m\<close> is what a
  message holds besides its question, answer and response code, \<open>'e\<close> the package's errors.
\<close>

section \<open>Messages and the DNS package\<close>

record 'm msg =
  msg_question :: "rr list"
  msg_answer :: "rr list"
  msg_rcode :: nat
  msg_rest :: 'm

definition rcode_success :: nat where "rcode_success = 0"
definition rcode_refused :: nat where "rcode_refused = 5"

record ('m, 'e) dns_api =
  dn_trim :: "string \<Rightarrow> string \<Rightarrow> string"
  dn_join :: "string \<Rightarrow> string \<Rightarrow> string"
  dn_fqdn :: "string \<Rightarrow> string"
  dn_is_below :: "string \<Rightarrow> string \<Rightarrow> bool"
  dn_rr_to_type :: "rr \<Rightarrow> 16 word"
  dn_copy :: "'m msg \<Rightarrow> 'm msg"
  dn_set_reply :: "'m msg \<Rightarrow> 'm msg \<Rightarrow> 'm msg"
  dn_pack :: "'m msg \<Rightarrow> 'e + string"

section \<open>Splitting names\<close>

text \<open>\<open>strings.Split\<close> for a separator of one byte; the result is never empty.\<close>

fun split_loop :: "char \<Rightarrow> string \<Rightarrow> string \<Rightarrow> string list" where
  "split_loop sep cur [] = [cur]"
| "split_loop sep cur (c # cs) =
     (if c = sep then cur # split_loop sep [] cs else split_loop sep (cur @ [c]) cs)"

definition strings_split :: "string \<Rightarrow> char \<Rightarrow> string list" where
  "strings_split s sep = split_loop sep [] s"

fun strings_join :: "char \<Rightarrow> string list \<Rightarrow> string" where
  "strings_join sep [] = []"
| "strings_join sep [x] = x"
| "strings_join sep (x # y # ys) = x @ sep # strings_join sep (y # ys)"

lemma split_loop_nonempty: "split_loop sep cur s \<noteq> []"
  by (induction s arbitrary: cur) auto

lemma strings_split_nonempty [simp]: "strings_split s sep \<noteq> []"
  by (simp add: strings_split_def split_loop_nonempty)

lemma split_loop_piece:
  "sep \<notin> set x \<Longrightarrow> split_loop sep cur (x @ sep # s) = (cur @ x) # split_loop sep [] s"
  by (induction x arbitrary: cur) auto

lemma split_loop_last: "sep \<notin> set x \<Longrightarrow> split_loop sep cur x = [cur @ x]"
  by (induction x arbitrary: cur) auto

lemma split_join:
  "xs \<noteq> [] \<Longrightarrow> \<forall>x \<in> set xs. sep \<notin> set x \<Longrightarrow> strings_split (strings_join sep xs) sep = xs"
  by (induction sep xs rule: strings_join.induct)
    (simp_all add: strings_split_def split_loop_piece split_loop_last)

lemma join_Cons: "xs \<noteq> [] \<Longrightarrow> strings_join sep (x # xs) = x @ sep # strings_join sep xs"
  by (cases xs) simp_all

lemma join_split_loop: "strings_join sep (split_loop sep cur s) = cur @ s"
  by (induction s arbitrary: cur) (auto simp: join_Cons split_loop_nonempty)

lemma join_split: "strings_join sep (strings_split s sep) = s"
  by (simp add: strings_split_def join_split_loop)

lemma split_several_iff: "1 < length (strings_split s sep) \<longleftrightarrow> sep \<in> set s"
proof -
  have "1 < length (split_loop sep cur s) \<longleftrightarrow> sep \<in> set s" for cur
    by (induction s arbitrary: cur) (auto simp: split_loop_nonempty)
  then show ?thesis by (simp add: strings_split_def)
qed

lemma two_or_more: "1 < length xs \<Longrightarrow> xs ! 0 # xs ! 1 # drop 2 xs = xs"
  by (cases xs; cases "tl xs") auto

section \<open>Requests\<close>

record endpoint_request =
  er_name :: string
  er_groups :: "string list"
  er_prefix :: string
  er_object :: string
  er_extra :: "string list"
  er_rr_type :: "16 word"

definition parse_endpoint_request ::
  "('m, 'e) dns_api \<Rightarrow> rr \<Rightarrow> string \<Rightarrow> endpoint_request" where
  "parse_endpoint_request api question domain =
     (let request = \<lparr>er_name = hdr_name (rr_header question), er_groups = [], er_prefix = [],
            er_object = [], er_extra = [], er_rr_type = dn_rr_to_type api question\<rparr>;
          subdomain = dn_trim api (er_name request) domain;
          labels = strings_split subdomain (CHR ''.'');
          parts = strings_split (labels ! 0) (CHR ''-'');
          request = request\<lparr>er_groups := drop 1 labels\<rparr>
      in if 1 < length parts
         then request\<lparr>er_prefix := parts ! 0, er_object := parts ! 1, er_extra := drop 2 parts\<rparr>
         else request\<lparr>er_object := parts ! 0\<rparr>)"

record group_request =
  gr_name :: string
  gr_group :: string
  gr_rr_type :: "16 word"

definition parse_group_request :: "('m, 'e) dns_api \<Rightarrow> rr \<Rightarrow> string \<Rightarrow> group_request" where
  "parse_group_request api question domain =
     (let request = \<lparr>gr_name = hdr_name (rr_header question), gr_group = [],
            gr_rr_type = dn_rr_to_type api question\<rparr>;
          subdomain = dn_trim api (gr_name request) domain;
          labels = strings_split subdomain (CHR ''.'')
      in request\<lparr>gr_group := labels ! 0\<rparr>)"

text \<open>The name below a domain that a client writes to look up an object in some groups.\<close>

definition endpoint_label :: "string list \<Rightarrow> string" where
  "endpoint_label parts = strings_join (CHR ''-'') parts"

definition endpoint_subdomain :: "string list \<Rightarrow> string list \<Rightarrow> string" where
  "endpoint_subdomain parts groups = strings_join (CHR ''.'') (endpoint_label parts # groups)"

lemma set_strings_join: "set (strings_join sep xs) \<subseteq> insert sep (\<Union>x \<in> set xs. set x)"
  by (induction sep xs rule: strings_join.induct) auto

section \<open>Properties\<close>

text \<open>
  Property C36: the labels of a subdomain parse back. If the part of the question's name below
  the endpoint domain is written from hyphen-separated parts and group names, the request has
  the group names in order; a single part is the object, of several the first is the prefix,
  the second the object and the others are extra.
\<close>

theorem parse_endpoint_request_roundtrip:
  assumes "dn_trim api (hdr_name (rr_header question)) domain = endpoint_subdomain parts groups"
    and "parts \<noteq> []" and "\<forall>p \<in> set parts. CHR ''.'' \<notin> set p \<and> CHR ''-'' \<notin> set p"
    and "\<forall>g \<in> set groups. CHR ''.'' \<notin> set g"
  shows "parse_endpoint_request api question domain =
    \<lparr>er_name = hdr_name (rr_header question), er_groups = groups,
     er_prefix = (case parts of p # o' # _ \<Rightarrow> p | _ \<Rightarrow> []),
     er_object = (case parts of p # o' # _ \<Rightarrow> o' | [o'] \<Rightarrow> o' | [] \<Rightarrow> []),
     er_extra = drop 2 parts, er_rr_type = dn_rr_to_type api question\<rparr>"
proof -
  have "CHR ''.'' \<notin> set (endpoint_label parts)"
    using assms(3) set_strings_join [of "CHR ''-''" parts] by (auto simp: endpoint_label_def)
  then have labels: "strings_split (endpoint_subdomain parts groups) (CHR ''.'') = endpoint_label parts # groups"
    unfolding endpoint_subdomain_def using assms(4) by (intro split_join) auto
  have pieces: "strings_split (endpoint_label parts) (CHR ''-'') = parts"
    unfolding endpoint_label_def using assms(2,3) by (intro split_join) auto
  let ?r = "\<lparr>er_name = hdr_name (rr_header question), er_groups = groups, er_prefix = [],
    er_object = [], er_extra = [], er_rr_type = dn_rr_to_type api question\<rparr>"
  have "parse_endpoint_request api question domain =
      (if 1 < length parts
       then ?r\<lparr>er_prefix := parts ! 0, er_object := parts ! 1, er_extra := drop 2 parts\<rparr>
       else ?r\<lparr>er_object := parts ! 0\<rparr>)"
    by (simp add: parse_endpoint_request_def assms(1) labels pieces Let_def)
  then show ?thesis using assms(2) by (cases parts; cases "tl parts") auto
qed

theorem parse_endpoint_request_roundtrip_witness:
  "parse_endpoint_request
     \<lparr>dn_trim = \<lambda>name domain. take (length name - length domain - 1) name, dn_join = \<lambda>a b. a @ CHR ''.'' # b,
      dn_fqdn = \<lambda>d. d, dn_is_below = \<lambda>_ _. True, dn_rr_to_type = \<lambda>_. type_A, dn_copy = \<lambda>m. m,
      dn_set_reply = \<lambda>m (_ :: unit msg). m, dn_pack = \<lambda>_. Inl ()\<rparr>
     (A \<lparr>hdr_name = ''uuid-x1-y.red.blue.endpoint.'', hdr_ttl = 0, hdr_class = class_INET\<rparr> ZeroAddr)
     ''endpoint.'' =
   \<lparr>er_name = ''uuid-x1-y.red.blue.endpoint.'', er_groups = [''red'', ''blue''], er_prefix = ''uuid'',
    er_object = ''x1'', er_extra = [''y''], er_rr_type = type_A\<rparr>"
  by (subst parse_endpoint_request_roundtrip [of _ _ _ "[''uuid'', ''x1'', ''y'']" "[''red'', ''blue'']"])
    (simp_all add: endpoint_subdomain_def endpoint_label_def)

text \<open>
  Parsing is lossless. Joined again with hyphens and dots, the prefix, object and
  extra parts (or the object alone when the first label has no hyphen) and the groups are the
  subdomain that was parsed, whatever it is - the empty subdomain of the endpoint domain
  itself included, which asks for the empty object.
\<close>

lemma parse_endpoint_request_lossless:
  "let r = parse_endpoint_request api question domain;
       subdomain = dn_trim api (hdr_name (rr_header question)) domain
   in endpoint_subdomain
        (if CHR ''-'' \<in> set (hd (strings_split subdomain (CHR ''.'')))
         then er_prefix r # er_object r # er_extra r else [er_object r]) (er_groups r) = subdomain"
proof -
  define subdomain where "subdomain = dn_trim api (hdr_name (rr_header question)) domain"
  obtain l ls where labels: "strings_split subdomain (CHR ''.'') = l # ls"
    by (meson neq_Nil_conv strings_split_nonempty)
  have l: "endpoint_label (strings_split l (CHR ''-'')) = l"
    by (simp add: endpoint_label_def join_split)
  have sub: "strings_join (CHR ''.'') (l # ls) = subdomain"
    using join_split [of "CHR ''.''" subdomain] labels by simp
  show ?thesis
  proof (cases "1 < length (strings_split l (CHR ''-''))")
    case True
    then show ?thesis
      using labels l sub split_several_iff [of l "CHR ''-''"] two_or_more [OF True]
      by (simp add: Let_def parse_endpoint_request_def endpoint_subdomain_def flip: subdomain_def)
  next
    case False
    then obtain w where w: "strings_split l (CHR ''-'') = [w]"
      by (cases "strings_split l (CHR ''-'')"; cases "tl (strings_split l (CHR ''-''))") auto
    then have "w = l" using l by (simp add: endpoint_label_def)
    then show ?thesis
      using w labels sub split_several_iff [of l "CHR ''-''"]
      by (simp add: Let_def parse_endpoint_request_def endpoint_subdomain_def endpoint_label_def
        flip: subdomain_def)
  qed
qed

end
