(* ===== verification/Shuffle.thy ===== *)
theory Shuffle
  imports Hashy_Prelude
begin

text \<open>
  \<open>Shuffle\<close> (\<open>shuffle.go\<close>): the records of an answer in random order. The loop is that of
  \<open>rand.Shuffle\<close> of the standard library: from the last index down, each element is swapped
  with one at a random index not above it. The random source is a function \<open>r\<close> from the index
  of the step to the number drawn.
\<close>

definition swap_at :: "'a list \<Rightarrow> nat \<Rightarrow> nat \<Rightarrow> 'a list" where
  "swap_at xs i j = xs[i := xs ! j, j := xs ! i]"

fun shuffle_loop :: "(nat \<Rightarrow> nat) \<Rightarrow> nat \<Rightarrow> 'a list \<Rightarrow> 'a list" where
  "shuffle_loop r 0 xs = xs"
| "shuffle_loop r (Suc i) xs = shuffle_loop r i (swap_at xs (Suc i) (r (Suc i) mod (Suc i + 1)))"

definition shuffle :: "(nat \<Rightarrow> nat) \<Rightarrow> 'a list \<Rightarrow> 'a list" where
  "shuffle r rrs = shuffle_loop r (length rrs - 1) rrs"

lemma length_swap_at [simp]: "length (swap_at xs i j) = length xs"
  by (simp add: swap_at_def)

lemma mset_swap_at: "i < length xs \<Longrightarrow> j < length xs \<Longrightarrow> mset (swap_at xs i j) = mset xs"
  by (simp add: swap_at_def mset_swap)

lemma mset_shuffle_loop: "i < length xs \<Longrightarrow> mset (shuffle_loop r i xs) = mset xs"
proof (induction i arbitrary: xs)
  case (Suc i)
  have "r (Suc i) mod (Suc i + 1) < Suc i + 1" by (rule mod_less_divisor) simp
  then have "r (Suc i) mod (Suc i + 1) < length xs" using Suc.prems by linarith
  with Suc show ?case by (simp add: mset_swap_at)
qed simp

lemma mset_shuffle: "mset (shuffle r rrs) = mset rrs"
  by (cases rrs) (simp_all add: shuffle_def mset_shuffle_loop)

lemma shuffle_loop_cong:
  "(\<And>k. k \<le> i \<Longrightarrow> r k = r' k) \<Longrightarrow> shuffle_loop r i xs = shuffle_loop r' i xs"
  by (induction i arbitrary: xs) simp_all

text \<open>Elements behind the index are never moved again.\<close>

lemma mset_take_Suc: "i < length xs \<Longrightarrow> mset (take (Suc i) xs) = add_mset (xs ! i) (mset (take i xs))"
  by (simp add: take_Suc_conv_app_nth)

lemma swap_at_prefix:
  assumes "i < length xs" and "j \<le> i"
  shows "mset (take (Suc i) (swap_at xs i j)) = mset (take (Suc i) xs)"
    and "swap_at xs i j ! i = xs ! j" and "drop (Suc i) (swap_at xs i j) = drop (Suc i) xs"
proof -
  have "take (Suc i) (swap_at xs i j) = swap_at (take (Suc i) xs) i j"
    using assms by (simp add: swap_at_def take_update_swap nth_take)
  with assms show "mset (take (Suc i) (swap_at xs i j)) = mset (take (Suc i) xs)"
    by (simp add: mset_swap_at)
  show "swap_at xs i j ! i = xs ! j" using assms by (simp add: swap_at_def nth_list_update)
  show "drop (Suc i) (swap_at xs i j) = drop (Suc i) xs"
    using assms by (simp add: swap_at_def drop_update_cancel)
qed

lemma shuffle_loop_complete:
  assumes "i < length xs" and "length ys = length xs"
    and "mset (take (Suc i) ys) = mset (take (Suc i) xs)" and "drop (Suc i) ys = drop (Suc i) xs"
  shows "\<exists>r. shuffle_loop r i xs = ys"
  using assms
proof (induction i arbitrary: xs)
  case 0
  then have "take 1 ys = take 1 xs" by (cases xs; cases ys) simp_all
  with 0 show ?case by (metis One_nat_def append_take_drop_id shuffle_loop.simps(1))
next
  case (Suc i)
  have "ys ! Suc i \<in> set (take (Suc (Suc i)) xs)"
    unfolding mset_eq_setD [OF Suc.prems(3), symmetric]
    using Suc.prems(1,2) by (simp add: take_Suc_conv_app_nth)
  then obtain j where j: "j \<le> Suc i" "xs ! j = ys ! Suc i"
    by (auto simp: in_set_conv_nth less_Suc_eq_le)
  let ?xs = "swap_at xs (Suc i) j"
  note sw = swap_at_prefix [OF Suc.prems(1) j(1)]
  have "add_mset (ys ! Suc i) (mset (take (Suc i) ys)) = add_mset (?xs ! Suc i) (mset (take (Suc i) ?xs))"
    using Suc.prems(1-3) sw(1) by (simp add: mset_take_Suc flip: mset_take_Suc [of "Suc i"])
  then have "mset (take (Suc i) ys) = mset (take (Suc i) ?xs)" using sw(2) j(2) by simp
  moreover have "drop (Suc i) ys = drop (Suc i) ?xs"
    using Suc.prems sw(2,3) j(2) by (simp flip: Cons_nth_drop_Suc)
  ultimately obtain r where r: "shuffle_loop r i ?xs = ys"
    using Suc.IH [of ?xs] Suc.prems(1,2) by auto
  have "shuffle_loop (r(Suc i := j)) (Suc i) xs = shuffle_loop (r(Suc i := j)) i ?xs"
    using j(1) by simp
  also have "\<dots> = shuffle_loop r i ?xs" by (rule shuffle_loop_cong) simp
  finally show ?case using r by blast
qed

section \<open>Properties\<close>

text \<open>
  Shuffling loses, adds and changes no record, and it is a full shuffle: every
  arrangement of the records is the outcome for some random numbers.
\<close>

lemma shuffle_permutations: "range (\<lambda>r. shuffle r rrs) = {ys. mset ys = mset rrs}"
proof (cases "rrs = []")
  case False
  have "\<exists>r. shuffle r rrs = ys" if "mset ys = mset rrs" for ys
  proof -
    have len: "length ys = length rrs" using that by (rule mset_eq_length)
    show ?thesis
      unfolding shuffle_def using False len that by (intro shuffle_loop_complete) simp_all
  qed
  then show ?thesis by (fastforce simp: mset_shuffle)
qed (simp add: shuffle_def)

end
