(* ===== verification/Handlers.thy ===== *)
theory Handlers
  imports Dns_Requests Locator TTL Shuffle
begin

text \<open>
  The DNS handlers (\<open>server/handler.go\<close>, \<open>server/endpointHandler.go\<close>,
  \<open>server/groupHandler.go\<close>). A handler routes a request by its name to the endpoint or the
  group handler, which append records to the response.

  Handlers share a locator through a pointer, so a handler keeps an address and serving takes
  the memory \<open>mem\<close> from addresses to locators at that moment. A function that can panic returns
  the panic beside the response as it was left, because the deferred \<open>finish\<close> still sends it.
\<close>

section \<open>Construction\<close>

datatype handler_error = LocatorRequired | EndpointHandlerRequired | GroupHandlerRequired | LoggerRequired

text \<open>Five minutes.\<close>

definition default_zone_ttl :: int where
  "default_zone_ttl = 300000000000"

record endpoint_handler =
  eh_locator :: "nat option"
  eh_jitterer :: "ttl_jitterer option"

type_synonym endpoint_handler_option = "endpoint_handler \<Rightarrow> handler_error + endpoint_handler"

definition with_endpoint_locator :: "nat option \<Rightarrow> endpoint_handler_option" where
  "with_endpoint_locator loc eh = Inr (eh\<lparr>eh_locator := loc\<rparr>)"

definition with_endpoint_jitterer :: "ttl_jitterer option \<Rightarrow> endpoint_handler_option" where
  "with_endpoint_jitterer j eh = Inr (eh\<lparr>eh_jitterer := j\<rparr>)"

definition default_jitterer :: "(rat \<Rightarrow> 32 word) \<Rightarrow> (f32 \<Rightarrow> 32 word) \<Rightarrow> ttl_jitterer" where
  "default_jitterer impl fimpl =
     fst (new_ttl_jitterer fimpl (duration_to_seconds impl default_zone_ttl) (Finite32 0))"

definition new_endpoint_handler ::
  "(rat \<Rightarrow> 32 word) \<Rightarrow> (f32 \<Rightarrow> 32 word) \<Rightarrow> endpoint_handler_option list
    \<Rightarrow> handler_error + endpoint_handler" where
  "new_endpoint_handler impl fimpl opts =
     (case apply_options opts \<lparr>eh_locator = None, eh_jitterer = None\<rparr> of
        Inl err \<Rightarrow> Inl err
      | Inr eh \<Rightarrow>
          if eh_locator eh = None then Inl LocatorRequired
          else if eh_jitterer eh = None then Inr (eh\<lparr>eh_jitterer := Some (default_jitterer impl fimpl)\<rparr>)
          else Inr eh)"

record group_handler =
  gh_locator :: "nat option"
  gh_jitterer :: "ttl_jitterer option"

type_synonym group_handler_option = "group_handler \<Rightarrow> handler_error + group_handler"

definition with_group_locator :: "nat option \<Rightarrow> group_handler_option" where
  "with_group_locator loc gh = Inr (gh\<lparr>gh_locator := loc\<rparr>)"

definition with_group_jitterer :: "ttl_jitterer option \<Rightarrow> group_handler_option" where
  "with_group_jitterer j gh = Inr (gh\<lparr>gh_jitterer := j\<rparr>)"

definition new_group_handler ::
  "(rat \<Rightarrow> 32 word) \<Rightarrow> (f32 \<Rightarrow> 32 word) \<Rightarrow> group_handler_option list
    \<Rightarrow> handler_error + group_handler" where
  "new_group_handler impl fimpl opts =
     (case apply_options opts \<lparr>gh_locator = None, gh_jitterer = None\<rparr> of
        Inl err \<Rightarrow> Inl err
      | Inr gh \<Rightarrow>
          if gh_locator gh = None then Inl LocatorRequired
          else if gh_jitterer gh = None then Inr (gh\<lparr>gh_jitterer := Some (default_jitterer impl fimpl)\<rparr>)
          else Inr gh)"

section \<open>The endpoint handler\<close>

text \<open>\<open>r\<close> is the random word the TTL is drawn with, \<open>sh\<close> the random numbers of the shuffle.\<close>

definition serve_endpoints ::
  "('b, 'q, 'r) medley \<Rightarrow> (nat \<Rightarrow> ('b, 'r) locator) \<Rightarrow> endpoint_handler \<Rightarrow> 32 word \<Rightarrow> (nat \<Rightarrow> nat)
    \<Rightarrow> 'm msg \<Rightarrow> endpoint_request \<Rightarrow> panic option \<times> 'm msg" where
  "serve_endpoints md mem eh r sh response request =
     (case eh_locator eh of
        None \<Rightarrow> (Some NilDereference, response)
      | Some loc \<Rightarrow>
          (let endpoints = find_string md (mem loc) (er_object request) (er_groups request)
           in case located_len_rrs endpoints (er_rr_type request) of
                Inl p \<Rightarrow> (Some p, response)
              | Inr _ \<Rightarrow>
                  (case eh_jitterer eh of
                     None \<Rightarrow> (Some NilDereference, response)
                   | Some jitterer \<Rightarrow>
                       (let header = \<lparr>hdr_name = er_name request, hdr_ttl = jitter_ttl jitterer r,
                              hdr_class = class_INET\<rparr>
                        in case located_rrs endpoints (er_rr_type request) of
                             Inl p \<Rightarrow> (Some p, response)
                           | Inr rrs \<Rightarrow>
                               (None, response\<lparr>msg_answer :=
                                  shuffle sh (msg_answer response @ fill_headers header rrs)\<rparr>)))))"

section \<open>The group handler\<close>

text \<open>The loop that gives every record of the sequence the response's header.\<close>

definition answer_groups ::
  "group_handler \<Rightarrow> 32 word \<Rightarrow> 'm msg \<Rightarrow> group_request \<Rightarrow> ('v group \<times> rr) list
    \<Rightarrow> panic option \<times> 'm msg" where
  "answer_groups gh r response request rrs =
     (case gh_jitterer gh of
        None \<Rightarrow> (Some NilDereference, response)
      | Some jitterer \<Rightarrow>
          (let header = \<lparr>hdr_name = gr_name request, hdr_ttl = jitter_ttl jitterer r,
                 hdr_class = class_INET\<rparr>
           in (None, response\<lparr>msg_answer := msg_answer response @ fill_headers header rrs\<rparr>)))"

definition serve_groups ::
  "(nat \<Rightarrow> ('b, 'r) locator) \<Rightarrow> group_handler \<Rightarrow> 32 word \<Rightarrow> 'm msg \<Rightarrow> group_request
    \<Rightarrow> panic option \<times> 'm msg" where
  "serve_groups mem gh r response request =
     (if gr_rr_type request \<noteq> type_TXT then (None, response\<lparr>msg_rcode := rcode_refused\<rparr>)
      else
        (case gh_locator gh of
           None \<Rightarrow> (Some NilDereference, response)
         | Some loc \<Rightarrow>
             (case locator_groups (mem loc) of
                None \<Rightarrow> (Some NilDereference, response)
              | Some gps \<Rightarrow>
                  if 0 < length (gr_group request) then
                    (case groups_get gps (gr_group request) of
                       Inl p \<Rightarrow> (Some p, response)
                     | Inr None \<Rightarrow> (None, response)
                     | Inr (Some g) \<Rightarrow>
                         answer_groups gh r response request (group_rrs g (gr_rr_type request)))
                  else answer_groups gh r response request (groups_rrs gps (gr_rr_type request)))))"

section \<open>The main handler\<close>

definition default_zone_domain :: string where
  "default_zone_domain = ''hashy.net''"

definition endpoint_label_name :: string where
  "endpoint_label_name = ''endpoint''"

definition group_label_name :: string where
  "group_label_name = ''group''"

text \<open>\<open>'l\<close> is the logger.\<close>

record 'l handler =
  h_logger :: "'l option"
  h_zone_domain :: string
  h_endpoint_domain :: string
  h_endpoint_handler :: "endpoint_handler option"
  h_group_domain :: string
  h_group_handler :: "group_handler option"

type_synonym 'l handler_option = "'l handler \<Rightarrow> handler_error + 'l handler"

definition with_logger :: "'l option \<Rightarrow> 'l handler_option" where
  "with_logger base h = Inr (h\<lparr>h_logger := base\<rparr>)"

definition with_zone_domain :: "('m, 'e) dns_api \<Rightarrow> string \<Rightarrow> 'l handler_option" where
  "with_zone_domain api d h = Inr (h\<lparr>h_zone_domain := dn_fqdn api d\<rparr>)"

definition with_endpoint_handler :: "endpoint_handler option \<Rightarrow> 'l handler_option" where
  "with_endpoint_handler eh h = Inr (h\<lparr>h_endpoint_handler := eh\<rparr>)"

definition with_group_handler :: "group_handler option \<Rightarrow> 'l handler_option" where
  "with_group_handler gh h = Inr (h\<lparr>h_group_handler := gh\<rparr>)"

definition zero_handler :: "'l handler" where
  "zero_handler =
     \<lparr>h_logger = None, h_zone_domain = [], h_endpoint_domain = [], h_endpoint_handler = None,
      h_group_domain = [], h_group_handler = None\<rparr>"

definition new_handler ::
  "('m, 'e) dns_api \<Rightarrow> 'l handler_option list \<Rightarrow> handler_error + 'l handler" where
  "new_handler api opts =
     (case apply_options opts zero_handler of
        Inl err \<Rightarrow> Inl err
      | Inr h \<Rightarrow>
          if h_endpoint_handler h = None then Inl EndpointHandlerRequired
          else if h_group_handler h = None then Inl GroupHandlerRequired
          else if h_logger h = None then Inl LoggerRequired
          else
            (let h = (if length (h_zone_domain h) = 0 then h\<lparr>h_zone_domain := default_zone_domain\<rparr> else h);
                 h = h\<lparr>h_endpoint_domain := dn_join api endpoint_label_name (h_zone_domain h)\<rparr>;
                 h = h\<lparr>h_group_domain := dn_join api group_label_name (h_zone_domain h)\<rparr>
             in Inr h))"

text \<open>\<open>nop\<close> is the logger that discards everything.\<close>

definition clone_handler :: "'l \<Rightarrow> 'l handler \<Rightarrow> 'l option \<Rightarrow> 'l handler" where
  "clone_handler nop h logger =
     (let clone = h\<lparr>h_logger := logger\<rparr>
      in if h_logger clone = None then clone\<lparr>h_logger := Some nop\<rparr> else clone)"

section \<open>Serving a request\<close>

definition start_operation :: "('m, 'e) dns_api \<Rightarrow> 'm msg \<Rightarrow> 'm msg" where
  "start_operation api original =
     (let response = dn_copy api original;
          response = response\<lparr>msg_rcode := rcode_success\<rparr>
      in dn_set_reply api response original)"

definition get_question :: "'m msg \<Rightarrow> 'm msg \<Rightarrow> rr option \<times> 'm msg" where
  "get_question original response =
     (if length (msg_question original) \<noteq> 1 then (None, response\<lparr>msg_rcode := rcode_refused\<rparr>)
      else if hdr_class (rr_header (msg_question original ! 0)) \<noteq> class_INET
        then (None, response\<lparr>msg_rcode := rcode_refused\<rparr>)
      else (Some (msg_question original ! 0), response))"

definition unhandled :: "'m msg \<Rightarrow> 'm msg" where
  "unhandled response = response\<lparr>msg_rcode := rcode_refused\<rparr>"

text \<open>What \<open>finish\<close> writes to the client: nothing when the response cannot be packed.\<close>

definition finish :: "('m, 'e) dns_api \<Rightarrow> 'm msg \<Rightarrow> string option" where
  "finish api response = (case dn_pack api response of Inl err \<Rightarrow> None | Inr bytes \<Rightarrow> Some bytes)"

definition route ::
  "('b, 'q, 'r) medley \<Rightarrow> ('m, 'e) dns_api \<Rightarrow> (nat \<Rightarrow> ('b, 'r) locator) \<Rightarrow> 'l handler
    \<Rightarrow> 32 word \<Rightarrow> (nat \<Rightarrow> nat) \<Rightarrow> 'm msg \<Rightarrow> rr \<Rightarrow> panic option \<times> 'm msg" where
  "route md api mem h r sh response question =
     (if dn_is_below api (h_endpoint_domain h) (hdr_name (rr_header question)) then
        (case h_endpoint_handler h of
           None \<Rightarrow> (Some NilDereference, response)
         | Some eh \<Rightarrow> serve_endpoints md mem eh r sh response
             (parse_endpoint_request api question (h_endpoint_domain h)))
      else if dn_is_below api (h_group_domain h) (hdr_name (rr_header question)) then
        (case h_group_handler h of
           None \<Rightarrow> (Some NilDereference, response)
         | Some gh \<Rightarrow> serve_groups mem gh r response
             (parse_group_request api question (h_group_domain h)))
      else (None, unhandled response))"

text \<open>The result: the panic that goes on after \<open>finish\<close>, if any, the response, and the bytes sent.\<close>

definition serve_dns ::
  "('b, 'q, 'r) medley \<Rightarrow> ('m, 'e) dns_api \<Rightarrow> (nat \<Rightarrow> ('b, 'r) locator) \<Rightarrow> 'l handler
    \<Rightarrow> 32 word \<Rightarrow> (nat \<Rightarrow> nat) \<Rightarrow> 'm msg \<Rightarrow> panic option \<times> 'm msg \<times> string option" where
  "serve_dns md api mem h r sh original =
     (let response = start_operation api original;
          (question, response) = get_question original response;
          (panic, response) = (case question of
             None \<Rightarrow> (None, response)
           | Some q \<Rightarrow> route md api mem h r sh response q)
      in (panic, response, finish api response))"

end
