(* ===== verification/Servers.thy ===== *)
theory Servers
  imports Configuration Handlers
begin

text \<open>
  The DNS servers and their bundle (\<open>server/servers.go\<close>, \<open>server/bundle.go\<close>). A server object
  belongs to the DNS package; kept here are the fields hashy sets, and the object that package
  creates is a parameter \<open>fresh\<close>. \<open>'l\<close> is the logger.
\<close>

section \<open>Servers\<close>

record 'l server =
  srv_addr :: string
  srv_net :: string
  srv_udp_size :: int
  srv_max_tcp_queries :: int
  srv_read_timeout :: int
  srv_idle_timeout :: int
  srv_reuse_port :: bool
  srv_reuse_addr :: bool
  srv_handler :: "'l handler option"

datatype server_error = BadUDPNetwork | BadTCPNetwork | DuplicateServer string

definition new_udp_server :: "'l server \<Rightarrow> udp_config \<Rightarrow> server_error + 'l server" where
  "new_udp_server fresh cfg =
     (let s = fresh;
          s = (if 0 < length (udp_address cfg) then s\<lparr>srv_addr := udp_address cfg\<rparr> else s)
      in if udp_network cfg \<notin> {''udp'', ''udp4'', ''udp6'', []} then Inl BadUDPNetwork
         else
           (let s = (if udp_network cfg = [] then s\<lparr>srv_net := ''udp''\<rparr> else s\<lparr>srv_net := udp_network cfg\<rparr>);
                s = (if 0 < udp_size cfg then s\<lparr>srv_udp_size := udp_size cfg\<rparr> else s);
                s = (if 0 < udp_read_timeout cfg then s\<lparr>srv_read_timeout := udp_read_timeout cfg\<rparr> else s);
                s = (if 0 < udp_idle_timeout cfg then s\<lparr>srv_idle_timeout := udp_idle_timeout cfg\<rparr> else s);
                s = s\<lparr>srv_reuse_port := udp_reuse_port cfg\<rparr>;
                s = s\<lparr>srv_reuse_addr := udp_reuse_port cfg\<rparr>
            in Inr s))"

definition new_tcp_server :: "'l server \<Rightarrow> tcp_config \<Rightarrow> server_error + 'l server" where
  "new_tcp_server fresh cfg =
     (let s = fresh;
          s = (if 0 < length (tcp_address cfg) then s\<lparr>srv_addr := tcp_address cfg\<rparr> else s)
      in if tcp_network cfg \<notin> {''tcp'', ''tcp4'', ''tcp6'', []} then Inl BadTCPNetwork
         else
           (let s = (if tcp_network cfg = [] then s\<lparr>srv_net := ''tcp''\<rparr> else s\<lparr>srv_net := tcp_network cfg\<rparr>);
                s = (if 0 < tcp_max_queries cfg then s\<lparr>srv_max_tcp_queries := tcp_max_queries cfg\<rparr> else s);
                s = (if 0 < tcp_read_timeout cfg then s\<lparr>srv_read_timeout := tcp_read_timeout cfg\<rparr> else s);
                s = (if 0 < tcp_idle_timeout cfg then s\<lparr>srv_idle_timeout := tcp_idle_timeout cfg\<rparr> else s);
                s = s\<lparr>srv_reuse_port := tcp_reuse_port cfg\<rparr>;
                s = s\<lparr>srv_reuse_addr := tcp_reuse_port cfg\<rparr>
            in Inr s))"

section \<open>Bundles\<close>

record 'l info =
  info_name :: string
  info_server :: "'l server"
  info_logger :: "'l option"

type_synonym 'l server_bundle = "(string, 'l info) gomap"

definition bundle_add ::
  "'l server_bundle \<Rightarrow> string \<Rightarrow> 'l server \<Rightarrow> 'l server_bundle \<times> server_error option" where
  "bundle_add m name server =
     (let info = \<lparr>info_name = name, info_server = server, info_logger = None\<rparr>
      in case m of
           None \<Rightarrow> (Some [(info_name info, info)], None)
         | Some ps \<Rightarrow>
             if map_of ps (info_name info) \<noteq> None then (m, Some (DuplicateServer (info_name info)))
             else (Some (AList.update (info_name info) info ps), None))"

text \<open>\<open>NewServerLogger\<close>: \<open>with_server\<close> is what the logging packages make of parent, name and server.\<close>

definition new_server_logger ::
  "('l \<Rightarrow> string \<Rightarrow> string \<Rightarrow> string \<Rightarrow> 'l) \<Rightarrow> 'l \<Rightarrow> string \<Rightarrow> 'l server \<Rightarrow> 'l" where
  "new_server_logger with_server parent server_name server =
     with_server parent server_name (srv_addr server) (srv_net server)"

text \<open>Ranging over the bundle and storing back a changed entry under each key.\<close>

definition bundle_update ::
  "(string list \<Rightarrow> string list) \<Rightarrow> (string \<Rightarrow> 'l info \<Rightarrow> 'l info) \<Rightarrow> 'l server_bundle \<Rightarrow> 'l server_bundle" where
  "bundle_update ord f m =
     (case m of None \<Rightarrow> None
      | Some ps \<Rightarrow> Some (fold (\<lambda>name qs. AList.update name (f name (the (map_of qs name))) qs)
          (range_keys ord (map fst ps)) ps))"

definition use_logger ::
  "('l \<Rightarrow> string \<Rightarrow> string \<Rightarrow> string \<Rightarrow> 'l) \<Rightarrow> (string list \<Rightarrow> string list) \<Rightarrow> 'l \<Rightarrow> 'l server_bundle \<Rightarrow> 'l server_bundle" where
  "use_logger with_server ord parent m =
     bundle_update ord (\<lambda>name info.
       info\<lparr>info_logger := Some (new_server_logger with_server parent name (info_server info))\<rparr>) m"

definition use_handler ::
  "'l \<Rightarrow> (string list \<Rightarrow> string list) \<Rightarrow> 'l handler \<Rightarrow> 'l server_bundle \<Rightarrow> 'l server_bundle" where
  "use_handler nop ord base m =
     bundle_update ord (\<lambda>name info.
       info\<lparr>info_server := (info_server info)\<lparr>srv_handler :=
         Some (clone_handler nop base (info_logger info))\<rparr>\<rparr>) m"

text \<open>The loops of \<open>NewBundle\<close>: \<open>make_server\<close> creates the server of a name.\<close>

fun add_servers ::
  "(string \<Rightarrow> server_error + 'l server) \<Rightarrow> string list \<Rightarrow> 'l server_bundle \<Rightarrow> 'l server_bundle \<times> server_error option" where
  "add_servers make_server [] servers = (servers, None)"
| "add_servers make_server (name # names) servers =
     (case make_server name of
        Inl err \<Rightarrow> (servers, Some err)
      | Inr server \<Rightarrow>
          (case bundle_add servers name server of
             (servers, Some err) \<Rightarrow> (servers, Some err)
           | (servers, None) \<Rightarrow> add_servers make_server names servers))"

definition new_bundle ::
  "('l \<Rightarrow> string \<Rightarrow> string \<Rightarrow> string \<Rightarrow> 'l) \<Rightarrow> 'l server \<Rightarrow> (string list \<Rightarrow> string list) \<Rightarrow> dns_config \<Rightarrow> 'l
    \<Rightarrow> 'l server_bundle \<times> server_error option" where
  "new_bundle with_server fresh ord cfg parent =
     (case add_servers (\<lambda>name. new_udp_server fresh (the (gomap_lookup (dc_udp cfg) name)))
             (range_keys ord (gomap_keys (dc_udp cfg))) (Some []) of
        (servers, Some err) \<Rightarrow> (servers, Some err)
      | (servers, None) \<Rightarrow>
          (case add_servers (\<lambda>name. new_tcp_server fresh (the (gomap_lookup (dc_tcp cfg) name)))
                  (range_keys ord (gomap_keys (dc_tcp cfg))) servers of
             (servers, Some err) \<Rightarrow> (servers, Some err)
           | (servers, None) \<Rightarrow> (use_logger with_server ord parent servers, None)))"

text \<open>
  The lifecycle hook that runs a server: \<open>listen\<close> is the result of \<open>ListenAndServe\<close>. The
  deferred shutdown of the whole application is the second component.
\<close>

definition info_start :: "('l server \<Rightarrow> 'e option) \<Rightarrow> 'l info \<Rightarrow> 'e option \<times> bool" where
  "info_start listen i = (listen (info_server i), True)"

text \<open>The servers whose hooks are registered, in the order of registration.\<close>

definition bind_to_lifecycle :: "(string list \<Rightarrow> string list) \<Rightarrow> 'l server_bundle \<Rightarrow> 'l info list" where
  "bind_to_lifecycle ord m = map (\<lambda>name. the (gomap_lookup m name)) (range_keys ord (gomap_keys m))"

section \<open>What the operations keep\<close>

lemma bundle_add_spec:
  "gomap_wf m \<Longrightarrow> bundle_add m name server = (m', err) \<Longrightarrow>
     gomap_wf m' \<and> (err = None \<longleftrightarrow> name \<notin> set (gomap_keys m)) \<and>
     (err = None \<longrightarrow> set (gomap_keys m') = insert name (set (gomap_keys m)) \<and>
        (\<forall>n. gomap_lookup m' n = (if n = name
           then Some \<lparr>info_name = name, info_server = server, info_logger = None\<rparr> else gomap_lookup m n)))"
  by (cases m)
    (simp_all add: bundle_add_def Let_def map_of_eq_None_iff split: if_splits,
     (clarsimp simp: update_conv' distinct_update)+)

definition plain_info :: "string \<Rightarrow> 'l server \<Rightarrow> 'l info" where
  "plain_info name server = \<lparr>info_name = name, info_server = server, info_logger = None\<rparr>"

lemma add_servers_spec:
  assumes "gomap_wf m" and "distinct names" and "add_servers make_server names m = (m', err)"
  shows "gomap_wf m'"
    and "err = None \<longleftrightarrow> (\<forall>n \<in> set names. \<not> isl (make_server n)) \<and> set names \<inter> set (gomap_keys m) = {}"
    and "err = None \<Longrightarrow> gomap_lookup m' n =
      (if n \<in> set names then Some (plain_info n (projr (make_server n))) else gomap_lookup m n)"
    and "err = None \<Longrightarrow> set (gomap_keys m') = set names \<union> set (gomap_keys m)"
proof -
  have "gomap_wf m' \<and>
      (err = None \<longleftrightarrow> (\<forall>n \<in> set names. \<not> isl (make_server n)) \<and> set names \<inter> set (gomap_keys m) = {}) \<and>
      (err = None \<longrightarrow> (\<forall>n. gomap_lookup m' n =
         (if n \<in> set names then Some (plain_info n (projr (make_server n))) else gomap_lookup m n)) \<and>
       set (gomap_keys m') = set names \<union> set (gomap_keys m))"
    using assms
  proof (induction names arbitrary: m)
    case (Cons name names)
    show ?case
    proof (cases "make_server name")
      case (Inl e)
      with Cons.prems show ?thesis by auto
    next
      case (Inr server)
      obtain m1 err1 where add: "bundle_add m name server = (m1, err1)" by fastforce
      note spec = bundle_add_spec [OF Cons.prems(1) add]
      show ?thesis
      proof (cases err1)
        case None
        have "add_servers make_server names m1 = (m', err)" using Cons.prems(3) Inr add None by simp
        from Cons.IH [OF _ _ this] spec None Cons.prems(2) Inr show ?thesis
          by (auto simp: plain_info_def)
      next
        case (Some e)
        with Cons.prems(3) Inr add spec show ?thesis by auto
      qed
    qed
  qed simp
  then show "gomap_wf m'"
    and "err = None \<longleftrightarrow> (\<forall>n \<in> set names. \<not> isl (make_server n)) \<and> set names \<inter> set (gomap_keys m) = {}"
    and "err = None \<Longrightarrow> gomap_lookup m' n =
      (if n \<in> set names then Some (plain_info n (projr (make_server n))) else gomap_lookup m n)"
    and "err = None \<Longrightarrow> set (gomap_keys m') = set names \<union> set (gomap_keys m)"
    by blast+
qed

lemma bundle_update_lookup:
  assumes "gomap_wf m"
  shows "gomap_lookup (bundle_update ord f m) n = map_option (f n) (gomap_lookup m n)"
proof (cases m)
  case (Some ps)
  have fold: "map_of (fold (\<lambda>name qs. AList.update name (f name (the (map_of qs name))) qs) ks qs) n =
      (if n \<in> set ks then Some (f n (the (map_of qs n))) else map_of qs n)"
    if "distinct ks" for ks qs
    using that by (induction ks arbitrary: qs) (auto simp: update_conv')
  have "distinct (range_keys ord (map fst ps))" using assms Some by simp
  with fold [OF this] Some show ?thesis
    using map_of_eq_None_iff [of ps n] by (cases "map_of ps n") (simp_all add: bundle_update_def)
qed (simp add: bundle_update_def)

lemma bundle_update_wf:
  assumes "gomap_wf m"
  shows "gomap_wf (bundle_update ord f m)"
proof (cases m)
  case (Some ps)
  have "distinct (map fst (fold (\<lambda>name qs. AList.update name (f name (the (map_of qs name))) qs) ks qs))"
    if "distinct (map fst qs)" for ks qs
    using that by (induction ks arbitrary: qs) (simp_all add: distinct_update)
  with assms Some show ?thesis by (simp add: bundle_update_def gomap_wf_def)
qed (simp add: bundle_update_def)

lemma new_bundle_wf:
  assumes "gomap_wf (dc_udp cfg)" and "gomap_wf (dc_tcp cfg)"
    and "new_bundle with_server fresh ord cfg parent = (servers, None)"
  shows "gomap_wf servers"
proof -
  let ?udp = "\<lambda>n. new_udp_server fresh (the (gomap_lookup (dc_udp cfg) n))"
  let ?tcp = "\<lambda>n. new_tcp_server fresh (the (gomap_lookup (dc_tcp cfg) n))"
  obtain m1 err1 where udp: "add_servers ?udp (range_keys ord (gomap_keys (dc_udp cfg))) (Some []) = (m1, err1)"
    by fastforce
  obtain m2 err2 where tcp: "add_servers ?tcp (range_keys ord (gomap_keys (dc_tcp cfg))) m1 = (m2, err2)"
    by fastforce
  have "servers = use_logger with_server ord parent m2"
    using assms(3) udp tcp by (auto simp: new_bundle_def split: option.splits)
  moreover have "gomap_wf m2"
    using add_servers_spec(1) [OF add_servers_spec(1) [OF _ _ udp] _ tcp] assms(1,2) by (simp add: gomap_wf_def)
  ultimately show ?thesis by (simp add: use_logger_def bundle_update_wf)
qed

section \<open>Properties\<close>

text \<open>
  A UDP server is only made for the networks udp, udp4, udp6 and blank (which is
  udp); a blank address and sizes or timeouts that are not positive keep the DNS package's
  defaults. \<open>ReuseAddr\<close> of the server is the configuration's \<open>ReusePort\<close>: the configured
  \<open>reuseAddr\<close> has no effect.
\<close>

lemma new_udp_server_spec:
  "new_udp_server fresh cfg =
    (if udp_network cfg \<in> {''udp'', ''udp4'', ''udp6'', []}
     then Inr (fresh\<lparr>srv_addr := (if udp_address cfg = [] then srv_addr fresh else udp_address cfg),
       srv_net := (if udp_network cfg = [] then ''udp'' else udp_network cfg),
       srv_udp_size := (if 0 < udp_size cfg then udp_size cfg else srv_udp_size fresh),
       srv_read_timeout := (if 0 < udp_read_timeout cfg then udp_read_timeout cfg else srv_read_timeout fresh),
       srv_idle_timeout := (if 0 < udp_idle_timeout cfg then udp_idle_timeout cfg else srv_idle_timeout fresh),
       srv_reuse_port := udp_reuse_port cfg, srv_reuse_addr := udp_reuse_port cfg\<rparr>)
     else Inl BadUDPNetwork) \<and>
   new_udp_server fresh (cfg\<lparr>udp_reuse_addr := b\<rparr>) = new_udp_server fresh cfg"
  by (cases fresh) (auto simp: new_udp_server_def Let_def)

text \<open>
  A bundle is built exactly if every configured network is valid and no name is
  used for both a UDP and a TCP server, whatever order the maps are ranged over in; it then
  holds one server for every configured name, made from that name's configuration, with a
  logger of its own.
\<close>

lemma new_bundle_spec:
  assumes "gomap_wf (dc_udp cfg)" and "gomap_wf (dc_tcp cfg)"
    and "new_bundle with_server fresh ord cfg parent = (servers, err)"
  shows "(err = None \<longleftrightarrow>
      (\<forall>n \<in> set (gomap_keys (dc_udp cfg)). \<not> isl (new_udp_server fresh (the (gomap_lookup (dc_udp cfg) n)))) \<and>
      (\<forall>n \<in> set (gomap_keys (dc_tcp cfg)). \<not> isl (new_tcp_server fresh (the (gomap_lookup (dc_tcp cfg) n)))) \<and>
      set (gomap_keys (dc_udp cfg)) \<inter> set (gomap_keys (dc_tcp cfg)) = {}) \<and>
    (err = None \<longrightarrow> (\<forall>n. gomap_lookup servers n =
      map_option (\<lambda>s. \<lparr>info_name = n, info_server = s,
          info_logger = Some (new_server_logger with_server parent n s)\<rparr>)
        (case (gomap_lookup (dc_udp cfg) n, gomap_lookup (dc_tcp cfg) n) of
           (_, Some c) \<Rightarrow> Some (projr (new_tcp_server fresh c))
         | (Some c, None) \<Rightarrow> Some (projr (new_udp_server fresh c))
         | (None, None) \<Rightarrow> None)))"
proof -
  let ?udp = "\<lambda>n. new_udp_server fresh (the (gomap_lookup (dc_udp cfg) n))"
  let ?tcp = "\<lambda>n. new_tcp_server fresh (the (gomap_lookup (dc_tcp cfg) n))"
  let ?us = "range_keys ord (gomap_keys (dc_udp cfg))" and ?ts = "range_keys ord (gomap_keys (dc_tcp cfg))"
  obtain m1 err1 where udp: "add_servers ?udp ?us (Some []) = (m1, err1)" by fastforce
  obtain m2 err2 where tcp: "add_servers ?tcp ?ts m1 = (m2, err2)" by fastforce
  have dist: "distinct ?us" "distinct ?ts" using assms(1,2) by (simp_all add: gomap_wf_def)
  have empty: "gomap_wf (Some [])" by simp
  note u = add_servers_spec [OF empty dist(1) udp]
  note t = add_servers_spec [OF u(1) dist(2) tcp]
  have res: "(servers, err) =
      (if err1 \<noteq> None then (m1, err1) else if err2 \<noteq> None then (m2, err2)
       else (use_logger with_server ord parent m2, None))"
    using assms(3) udp tcp by (auto simp: new_bundle_def split: option.splits)
  have iff: "err = None \<longleftrightarrow> (\<forall>n \<in> set ?us. \<not> isl (?udp n)) \<and> (\<forall>n \<in> set ?ts. \<not> isl (?tcp n)) \<and>
      set ?us \<inter> set ?ts = {}"
    using res u(2,4) t(2) by (cases err1; cases err2) auto
  have "gomap_lookup servers n = map_option (\<lambda>s. \<lparr>info_name = n, info_server = s,
        info_logger = Some (new_server_logger with_server parent n s)\<rparr>)
      (case (gomap_lookup (dc_udp cfg) n, gomap_lookup (dc_tcp cfg) n) of
         (_, Some c) \<Rightarrow> Some (projr (new_tcp_server fresh c))
       | (Some c, None) \<Rightarrow> Some (projr (new_udp_server fresh c))
       | (None, None) \<Rightarrow> None)" if none: "err = None" for n
  proof -
    have e: "err1 = None" "err2 = None" "servers = use_logger with_server ord parent m2"
      using res none by (cases err1; cases err2; simp)+
    show ?thesis
      using gomap_lookup_None_iff [of "dc_udp cfg" n] gomap_lookup_None_iff [of "dc_tcp cfg" n]
      by (auto simp: e(3) use_logger_def bundle_update_lookup [OF t(1)] t(3) [OF e(2)] u(3) [OF e(1)]
        plain_info_def split: option.split)
  qed
  with iff show ?thesis by simp
qed

definition sample_dns :: dns_config where
  "sample_dns =
     \<lparr>dc_zone = \<lparr>zc_domain = ''hashy.net'', zc_ttl = 600000000000, zc_ttl_jitter = Finite32 0\<rparr>,
      dc_udp = Some [(''dns'', \<lparr>udp_address = '':53'', udp_network = [], udp_size = 512, udp_read_timeout = 0,
        udp_idle_timeout = 0, udp_reuse_port = False, udp_reuse_addr = True\<rparr>)],
      dc_tcp = Some [(''dns'', \<lparr>tcp_address = '':53'', tcp_network = ''tcp4'', tcp_max_queries = 0,
        tcp_read_timeout = 0, tcp_idle_timeout = 0, tcp_reuse_port = False, tcp_reuse_addr = False\<rparr>)]\<rparr>"

definition sample_server :: "string server" where
  "sample_server =
     \<lparr>srv_addr = '':53'', srv_net = ''udp'', srv_udp_size = 512, srv_max_tcp_queries = 0, srv_read_timeout = 0,
      srv_idle_timeout = 0, srv_reuse_port = False, srv_reuse_addr = False, srv_handler = None\<rparr>"

text \<open>
  After \<open>UseHandler\<close> every server of a bundle answers with its own clone of the base
  handler, which logs with that server's logger; nothing else changes, and every server of the
  bundle is bound to the lifecycle exactly once.
\<close>

lemma use_handler_spec:
  assumes "gomap_wf m"
  shows "gomap_lookup (use_handler nop ord base m) n =
      map_option (\<lambda>i. i\<lparr>info_server := (info_server i)\<lparr>srv_handler :=
        Some (base\<lparr>h_logger := Some (case info_logger i of None \<Rightarrow> nop | Some l \<Rightarrow> l)\<rparr>)\<rparr>\<rparr>) (gomap_lookup m n) \<and>
    mset (bind_to_lifecycle ord m) = mset (map (\<lambda>k. the (gomap_lookup m k)) (gomap_keys m))"
proof -
  have "clone_handler nop base l = base\<lparr>h_logger := Some (case l of None \<Rightarrow> nop | Some x \<Rightarrow> x)\<rparr>" for l
    by (cases l) (simp_all add: clone_handler_def Let_def)
  then show ?thesis
    using assms by (simp add: use_handler_def bundle_update_lookup bind_to_lifecycle_def gomap_wf_def)
qed

end
