(* ===== verification/Log_Fields.thy ===== *)
theory Log_Fields
  imports Servers
begin

text \<open>
  The log fields (\<open>hashyzap/request.go\<close>, \<open>hashyzap/rr.go\<close>, \<open>hashyzap/server.go\<close>) and the loggers
  derived with them. The zap package is a parameter: the record of the field constructors and
  logger methods that hashy calls. \<open>'f\<close> is a field, \<open>'l\<close> a logger.
\<close>

section \<open>The logging package\<close>

record rr_marshaler =
  om_rr :: rr

record ('f, 'l) zap_api =
  zap_string :: "string \<Rightarrow> string \<Rightarrow> 'f"
  zap_uint16 :: "string \<Rightarrow> 16 word \<Rightarrow> 'f"
  zap_uint32 :: "string \<Rightarrow> 32 word \<Rightarrow> 'f"
  zap_bool :: "string \<Rightarrow> bool \<Rightarrow> 'f"
  zap_int :: "string \<Rightarrow> int \<Rightarrow> 'f"
  zap_skip :: 'f
  zap_dict :: "string \<Rightarrow> 'f list \<Rightarrow> 'f"
  zap_object :: "string \<Rightarrow> rr_marshaler \<Rightarrow> 'f"
  zap_with :: "'l \<Rightarrow> 'f list \<Rightarrow> 'l"
  zap_named :: "'l \<Rightarrow> string \<Rightarrow> 'l"
  zap_nop :: 'l

text \<open>The parts of a message that are only logged, and the DNS package's names for types and classes.\<close>

record 'm message_view =
  mv_id :: "'m msg \<Rightarrow> 16 word"
  mv_udp_size :: "'m msg \<Rightarrow> 16 word"
  mv_recursion_desired :: "'m msg \<Rightarrow> bool"

record dns_names =
  name_of_type :: "16 word \<Rightarrow> string"
  name_of_class :: "16 word \<Rightarrow> string"

section \<open>Records\<close>

text \<open>
  What the marshaler of a record does to an encoder: \<open>add\<close> is the encoder's \<open>AddString\<close>. It
  reports no error.
\<close>

definition marshal_log_object ::
  "('m, 'e) dns_api \<Rightarrow> dns_names \<Rightarrow> ('enc \<Rightarrow> string \<Rightarrow> string \<Rightarrow> 'enc) \<Rightarrow> rr_marshaler \<Rightarrow> 'enc
    \<Rightarrow> 'enc \<times> 'err option" where
  "marshal_log_object api names add om enc =
     (let header = rr_header (om_rr om);
          enc = add enc ''name'' (hdr_name header);
          enc = add enc ''type'' (name_of_type names (dn_rr_to_type api (om_rr om)));
          enc = add enc ''class'' (name_of_class names (hdr_class header))
      in (enc, None))"

definition rr_field :: "('f, 'l) zap_api \<Rightarrow> string \<Rightarrow> rr \<Rightarrow> 'f" where
  "rr_field zap field_name r = zap_object zap field_name \<lparr>om_rr = r\<rparr>"

section \<open>Requests and servers\<close>

definition request_field :: "('f, 'l) zap_api \<Rightarrow> 'm message_view \<Rightarrow> string \<Rightarrow> 'm msg \<Rightarrow> 'f" where
  "request_field zap view field_name request =
     (let question_field =
            (if 0 < length (msg_question request) then rr_field zap ''question'' (msg_question request ! 0)
             else zap_skip zap)
      in zap_dict zap field_name
           [zap_uint16 zap ''id'' (mv_id view request),
            zap_uint16 zap ''udpSize'' (mv_udp_size view request),
            zap_bool zap ''recursionDesired'' (mv_recursion_desired view request),
            zap_int zap ''questionCount'' (int (length (msg_question request))),
            question_field])"

definition server_field :: "('f, 'l) zap_api \<Rightarrow> string \<Rightarrow> string \<Rightarrow> string \<Rightarrow> string \<Rightarrow> 'f" where
  "server_field zap field_name server_name addr net =
     zap_dict zap field_name
       [zap_string zap ''name'' server_name, zap_string zap ''addr'' addr, zap_string zap ''net'' net]"

section \<open>Derived loggers\<close>

text \<open>What \<open>NewServerLogger\<close> passes on: the parameter \<open>with_server\<close> of \<open>new_server_logger\<close>.\<close>

definition logger_with_server :: "('f, 'l) zap_api \<Rightarrow> 'l \<Rightarrow> string \<Rightarrow> string \<Rightarrow> string \<Rightarrow> 'l" where
  "logger_with_server zap parent server_name addr net =
     zap_with zap parent [server_field zap ''server'' server_name addr net]"

text \<open>The logger of one request, which the handlers are given.\<close>

definition operation_logger :: "('f, 'l) zap_api \<Rightarrow> 'm message_view \<Rightarrow> 'l \<Rightarrow> 'm msg \<Rightarrow> 'l" where
  "operation_logger zap view base original =
     zap_with zap base [request_field zap view ''request'' original]"

text \<open>The logger that \<open>WithLocatorLogger\<close> and \<open>WithIngestLogger\<close> store.\<close>

definition locator_logger :: "('f, 'l) zap_api \<Rightarrow> 'l option \<Rightarrow> 'l" where
  "locator_logger zap base =
     (let base = (case base of None \<Rightarrow> zap_nop zap | Some l \<Rightarrow> l) in zap_named zap base ''locator'')"

definition ingest_logger :: "('f, 'l) zap_api \<Rightarrow> 'l option \<Rightarrow> 'l" where
  "ingest_logger zap base =
     (let base = (case base of None \<Rightarrow> zap_nop zap | Some l \<Rightarrow> l) in zap_named zap base ''fileIngester'')"

section \<open>Entries\<close>

datatype level = DebugLevel | InfoLevel | ErrorLevel

text \<open>An entry keeps the logger it was written with.\<close>

record ('f, 'l) log_entry =
  le_logger :: 'l
  le_level :: level
  le_message :: string
  le_fields :: "'f list"

definition log_at :: "level \<Rightarrow> 'l \<Rightarrow> string \<Rightarrow> 'f list \<Rightarrow> ('f, 'l) log_entry" where
  "log_at level logger message fs =
     \<lparr>le_logger = logger, le_level = level, le_message = message, le_fields = fs\<rparr>"

lemma log_at_simps [simp]:
  "le_logger (log_at lv l m fs) = l"
  "le_level (log_at lv l m fs) = lv"
  "le_message (log_at lv l m fs) = m"
  "le_fields (log_at lv l m fs) = fs"
  by (simp_all add: log_at_def)

text \<open>
  The further fields that entries are written with: errors (\<open>'e\<close>), durations between two points in
  time (\<open>'t\<close>) and records as strings.
\<close>

record ('f, 'l, 'e, 't) log_api = "('f, 'l) zap_api" +
  zap_error :: "'e \<Rightarrow> 'f"
  zap_duration :: "string \<Rightarrow> 't \<Rightarrow> 't \<Rightarrow> 'f"
  zap_stringer :: "string \<Rightarrow> rr \<Rightarrow> 'f"

text \<open>\<open>zap.Error\<close>: a nil error is a field that adds nothing.\<close>

definition error_field :: "('f, 'l, 'e, 't) log_api \<Rightarrow> 'e option \<Rightarrow> 'f" where
  "error_field zap err = (case err of None \<Rightarrow> zap_skip zap | Some e \<Rightarrow> zap_error zap e)"

lemma error_field_simps [simp]:
  "error_field zap None = zap_skip zap"
  "error_field zap (Some e) = zap_error zap e"
  by (simp_all add: error_field_def)

end
