(* ===== verification/Ingest_Checker.thy ===== *)
theory Ingest_Checker
  imports Hashy_Prelude Step_Systems
begin

text \<open>
  The ingest checker (\<open>service/ingester.go\<close>): a background goroutine that calls \<open>Ingest\<close> on
  every tick of a timer, started and stopped under a mutex.

  The mutex makes \<open>Start\<close> and \<open>Stop\<close> atomic, so each is a function of the state. The
  goroutines are a step relation: a goroutine waits in \<open>select\<close> for its context or its ticker.
  When both are ready Go picks either, so a tick can win against a cancelled context.
\<close>

section \<open>Construction\<close>

record 'i ingest_checker =
  ic_interval :: int
  ic_ingester :: "'i option"

datatype checker_error = IngesterRequired

type_synonym 'i checker_option = "'i ingest_checker \<Rightarrow> checker_error + 'i ingest_checker"

text \<open>Ten minutes.\<close>

definition default_check_interval :: int where
  "default_check_interval = 600000000000"

definition with_check_interval :: "int \<Rightarrow> 'i checker_option" where
  "with_check_interval v ic = Inr (ic\<lparr>ic_interval := v\<rparr>)"

definition with_ingester :: "'i option \<Rightarrow> 'i checker_option" where
  "with_ingester i ic = Inr (ic\<lparr>ic_ingester := i\<rparr>)"

definition new_ingest_checker :: "'i checker_option list \<Rightarrow> checker_error + 'i ingest_checker" where
  "new_ingest_checker opts =
     (case apply_options opts \<lparr>ic_interval = 0, ic_ingester = None\<rparr> of
        Inl err \<Rightarrow> Inl err
      | Inr ic \<Rightarrow>
          (let ic = (if ic_interval ic \<le> 0 then ic\<lparr>ic_interval := default_check_interval\<rparr> else ic)
           in if ic_ingester ic = None then Inl IngesterRequired else Inr ic))"

section \<open>Starting, stopping, running\<close>

datatype worker = Selecting | Ingesting | Returned

text \<open>
  \<open>cs_cancel\<close> is the field \<open>cancelFunc\<close>: the number of the context it cancels. Goroutine \<open>k\<close>
  runs with context \<open>k\<close>; \<open>cs_cancelled\<close> are the cancelled contexts.
\<close>

record checker_state =
  cs_cancel :: "nat option"
  cs_workers :: "worker list"
  cs_cancelled :: "nat set"

definition checker_zero :: checker_state where
  "checker_zero = \<lparr>cs_cancel = None, cs_workers = [], cs_cancelled = {}\<rparr>"

definition checker_start :: "checker_state \<Rightarrow> checker_state" where
  "checker_start s =
     (if cs_cancel s = None
      then s\<lparr>cs_cancel := Some (length (cs_workers s)), cs_workers := cs_workers s @ [Selecting]\<rparr>
      else s)"

definition checker_stop :: "checker_state \<Rightarrow> checker_state" where
  "checker_stop s =
     (case cs_cancel s of
        None \<Rightarrow> s
      | Some k \<Rightarrow> s\<lparr>cs_cancelled := insert k (cs_cancelled s), cs_cancel := None\<rparr>)"

inductive worker_step :: "checker_state \<Rightarrow> checker_state \<Rightarrow> bool" where
  tick:
    "k < length (cs_workers s) \<Longrightarrow> cs_workers s ! k = Selecting \<Longrightarrow>
     worker_step s (s\<lparr>cs_workers := (cs_workers s)[k := Ingesting]\<rparr>)"
| ingested:
    "k < length (cs_workers s) \<Longrightarrow> cs_workers s ! k = Ingesting \<Longrightarrow>
     worker_step s (s\<lparr>cs_workers := (cs_workers s)[k := Selecting]\<rparr>)"
| context_done:
    "k < length (cs_workers s) \<Longrightarrow> cs_workers s ! k = Selecting \<Longrightarrow> k \<in> cs_cancelled s \<Longrightarrow>
     worker_step s (s\<lparr>cs_workers := (cs_workers s)[k := Returned]\<rparr>)"

inductive checker_step :: "checker_state \<Rightarrow> checker_state \<Rightarrow> bool" where
  start: "checker_step s (checker_start s)"
| stop: "checker_step s (checker_stop s)"
| worker: "worker_step s s' \<Longrightarrow> checker_step s s'"

inductive_cases checker_stepE: "checker_step s s'"
inductive_cases worker_stepE: "worker_step s s'"

abbreviation checker_reachable :: "checker_state \<Rightarrow> bool" where
  "checker_reachable s \<equiv> checker_step\<^sup>*\<^sup>* checker_zero s"

section \<open>The invariant\<close>

text \<open>The only context that is not cancelled is the one \<open>cancelFunc\<close> cancels.\<close>

definition checker_inv :: "checker_state \<Rightarrow> bool" where
  "checker_inv s \<longleftrightarrow>
     cs_cancelled s = {..<length (cs_workers s)} - set_option (cs_cancel s) \<and>
     set_option (cs_cancel s) \<subseteq> {..<length (cs_workers s)} \<and>
     (\<forall>k < length (cs_workers s). cs_workers s ! k = Returned \<longrightarrow> k \<in> cs_cancelled s)"

lemma checker_inv_zero: "checker_inv checker_zero"
  by (simp add: checker_inv_def checker_zero_def)

lemma checker_inv_start: "checker_inv s \<Longrightarrow> checker_inv (checker_start s)"
  by (auto simp: checker_inv_def checker_start_def nth_append less_Suc_eq)

lemma checker_inv_stop: "checker_inv s \<Longrightarrow> checker_inv (checker_stop s)"
  by (auto simp: checker_inv_def checker_stop_def split: option.split)

lemma checker_inv_worker: "worker_step s s' \<Longrightarrow> checker_inv s \<Longrightarrow> checker_inv s'"
  by (induction rule: worker_step.induct) (auto simp: checker_inv_def nth_list_update)

lemma checker_inv_step: "checker_step s s' \<Longrightarrow> checker_inv s \<Longrightarrow> checker_inv s'"
  by (auto elim!: checker_stepE intro: checker_inv_start checker_inv_stop checker_inv_worker)

interpretation checker: step_system checker_step checker_inv
  by unfold_locales (rule checker_inv_step)

lemma checker_inv_reachable: "checker_reachable s \<Longrightarrow> checker_inv s"
  using checker_inv_zero by (rule checker.steps_inv [rotated])

section \<open>Termination of a stopped goroutine\<close>

lemma worker_can_finish:
  assumes "k < length (cs_workers s)" and "k \<in> cs_cancelled s"
  shows "worker_step\<^sup>*\<^sup>* s (s\<lparr>cs_workers := (cs_workers s)[k := Returned]\<rparr>)"
proof (cases "cs_workers s ! k")
  case Selecting
  with context_done [OF assms(1) _ assms(2)] show ?thesis by auto
next
  case Ingesting
  let ?s1 = "s\<lparr>cs_workers := (cs_workers s)[k := Selecting]\<rparr>"
  have "worker_step s ?s1" using assms(1) Ingesting by (rule ingested)
  moreover have "worker_step ?s1 (?s1\<lparr>cs_workers := (cs_workers ?s1)[k := Returned]\<rparr>)"
    using assms by (intro context_done) simp_all
  ultimately show ?thesis by (auto intro: rtranclp.rtrancl_into_rtrancl)
next
  case Returned
  then have "(cs_workers s)[k := Returned] = cs_workers s" by (metis list_update_id)
  then show ?thesis by simp
qed

lemma all_can_finish:
  assumes "{..<length (cs_workers s)} \<subseteq> cs_cancelled s"
  shows "\<exists>s'. worker_step\<^sup>*\<^sup>* s s' \<and> cs_workers s' = replicate (length (cs_workers s)) Returned"
proof -
  have "\<exists>s'. worker_step\<^sup>*\<^sup>* s s' \<and> cs_cancelled s' = cs_cancelled s \<and>
      length (cs_workers s') = length (cs_workers s) \<and> (\<forall>k < n. cs_workers s' ! k = Returned)"
    if "n \<le> length (cs_workers s)" for n
    using that
  proof (induction n)
    case (Suc n)
    then obtain s1 where s1: "worker_step\<^sup>*\<^sup>* s s1" "cs_cancelled s1 = cs_cancelled s"
      "length (cs_workers s1) = length (cs_workers s)" "\<forall>k < n. cs_workers s1 ! k = Returned" by auto
    have "worker_step\<^sup>*\<^sup>* s1 (s1\<lparr>cs_workers := (cs_workers s1)[n := Returned]\<rparr>)"
      using Suc.prems s1(2,3) assms by (intro worker_can_finish) (auto simp: subset_iff)
    with s1 Suc.prems show ?case
      by (intro exI [of _ "s1\<lparr>cs_workers := (cs_workers s1)[n := Returned]\<rparr>"])
        (auto simp: less_Suc_eq nth_list_update)
  qed auto
  from this [OF order_refl] obtain s' where "worker_step\<^sup>*\<^sup>* s s'"
    "length (cs_workers s') = length (cs_workers s)"
    "\<forall>k < length (cs_workers s). cs_workers s' ! k = Returned"
    by blast
  then show ?thesis by (intro exI [of _ s']) (simp add: list_eq_iff_nth_eq)
qed

section \<open>Properties\<close>

text \<open>
  An ingest checker is only constructed with an ingester; a missing or
  non-positive interval becomes ten minutes.
\<close>

lemma new_ingest_checker_configured:
  "new_ingest_checker [with_ingester i, with_check_interval v] =
    (case i of
       None \<Rightarrow> Inl IngesterRequired
     | Some _ \<Rightarrow> Inr \<lparr>ic_interval = (if v \<le> 0 then 600000000000 else v), ic_ingester = i\<rparr>)"
  by (cases i)
    (auto simp: new_ingest_checker_def with_ingester_def with_check_interval_def
      default_check_interval_def Let_def)

text \<open>
  In every reachable state at most one goroutine has a context that is not
  cancelled, there is one exactly while the checker is started, and it has not returned;
  starting a started and stopping a stopped checker change nothing.
\<close>

lemma checker_one_uncancelled:
  assumes "checker_reachable s"
  shows "{k. k < length (cs_workers s) \<and> k \<notin> cs_cancelled s} = set_option (cs_cancel s) \<and>
    (\<forall>k. cs_cancel s = Some k \<longrightarrow> cs_workers s ! k \<noteq> Returned) \<and>
    checker_start (checker_start s) = checker_start s \<and> checker_stop (checker_stop s) = checker_stop s"
proof -
  have inv: "checker_inv s" using assms by (rule checker_inv_reachable)
  then have "{k. k < length (cs_workers s) \<and> k \<notin> cs_cancelled s} = set_option (cs_cancel s)"
    by (auto simp: checker_inv_def)
  moreover have "cs_workers s ! k \<noteq> Returned" if "cs_cancel s = Some k" for k
    using inv that by (auto simp: checker_inv_def)
  moreover have "checker_start (checker_start s) = checker_start s"
    by (simp add: checker_start_def)
  moreover have "checker_stop (checker_stop s) = checker_stop s"
    by (simp add: checker_stop_def split: option.split)
  ultimately show ?thesis by blast
qed

text \<open>
  After \<open>Stop\<close> every goroutine the checker ever started can run to its end, in at
  most two steps of its own (the rest of an \<open>Ingest\<close> call and the context's case of \<open>select\<close>).
\<close>

lemma checker_stop_drains:
  assumes "checker_reachable s"
  shows "\<exists>s'. worker_step\<^sup>*\<^sup>* (checker_stop s) s' \<and>
    cs_workers s' = replicate (length (cs_workers s)) Returned"
proof -
  have "checker_inv (checker_stop s)" using assms by (intro checker_inv_stop checker_inv_reachable)
  then have "{..<length (cs_workers (checker_stop s))} \<subseteq> cs_cancelled (checker_stop s)"
    by (auto simp: checker_inv_def checker_stop_def split: option.splits)
  from all_can_finish [OF this] show ?thesis by (simp add: checker_stop_def split: option.splits)
qed

text \<open>
  Property C39: \<open>Stop\<close> does not wait for the goroutine, so a stop followed by a start can leave
  two goroutines that ingest at the same time, although the type's comment promises a single
  background goroutine.
\<close>

theorem checker_two_ingesting:
  "checker_reachable \<lparr>cs_cancel = Some 1, cs_workers = [Ingesting, Ingesting], cs_cancelled = {0}\<rparr>"
proof -
  let ?s1 = "\<lparr>cs_cancel = Some 0, cs_workers = [Selecting], cs_cancelled = {}\<rparr>"
  let ?s2 = "\<lparr>cs_cancel = Some 0, cs_workers = [Ingesting], cs_cancelled = {}\<rparr>"
  let ?s3 = "\<lparr>cs_cancel = None, cs_workers = [Ingesting], cs_cancelled = {0}\<rparr>"
  let ?s4 = "\<lparr>cs_cancel = Some 1, cs_workers = [Ingesting, Selecting], cs_cancelled = {0}\<rparr>"
  let ?s5 = "\<lparr>cs_cancel = Some 1, cs_workers = [Ingesting, Ingesting], cs_cancelled = {0}\<rparr>"
  have c1: "checker_step checker_zero ?s1"
    using start [of checker_zero] by (simp add: checker_start_def checker_zero_def)
  have c2: "checker_step ?s1 ?s2" using tick [of 0 ?s1] by (simp add: worker)
  have c3: "checker_step ?s2 ?s3" using stop [of ?s2] by (simp add: checker_stop_def)
  have c4: "checker_step ?s3 ?s4" using start [of ?s3] by (simp add: checker_start_def)
  have c5: "checker_step ?s4 ?s5" using tick [of 1 ?s4] by (simp add: worker)
  note into = converse_rtranclp_into_rtranclp [where r = checker_step]
  have "checker_step\<^sup>*\<^sup>* ?s4 ?s5" using c5 by (rule r_into_rtranclp)
  from into [OF c1 into [OF c2 into [OF c3 into [OF c4 this]]]] show ?thesis .
qed

end
