(* ===== verification/Wiring.thy ===== *)
theory Wiring
  imports Log_Fields Ingest_Overlap Ingest_Checker
begin

text \<open>
  How the program is put together: the constructors that \<open>config/provide.go\<close>,
  \<open>service/provide.go\<close>, \<open>server/provide.go\<close> and \<open>cmd/hashy/commandLine.go\<close> register with the
  dependency injector (fx), the functions they have it invoke, and the start-up that results.

  The injector is used by its documented behaviour: a constructor is called at most once, after
  the constructors of its parameters, and only when the next invoked function needs its value; the
  invoked functions run in the order in which they were registered, each once its parameters exist;
  the first error ends the start-up. The order of constructors is not fixed beyond that, so
  start-up is a step relation (\<open>fx_step\<close>).

  There is one locator. Its state lives with the ingester, whose only listener it is, once the
  ingester has been constructed (\<open>app_locator\<close>); the handlers know it by its address \<open>0\<close>.
\<close>

section \<open>The world outside\<close>

text \<open>
  \<open>'c\<close> is the logging configuration, \<open>'u\<close> the errors of the configuration and logging packages.
  \<open>ex_fresh\<close> is what \<open>dns.NewServer\<close> returns, \<open>ex_range\<close> the order in which Go ranges over a bundle.
\<close>

record ('b, 'q, 'r, 'm, 'e, 'l, 'f, 'c, 'x, 'u) externals =
  ex_medley :: "('b, 'q, 'r) medley"
  ex_builder :: 'b
  ex_dns :: "('m, 'e) dns_api"
  ex_zap :: "('f, 'l) zap_api"
  ex_impl :: "rat \<Rightarrow> 32 word"
  ex_fimpl :: "f32 \<Rightarrow> 32 word"
  ex_fresh :: "'l server"
  ex_unmarshal :: "'u + 'c main_config"
  ex_build_logger :: "'c \<Rightarrow> 'u + 'l"
  ex_level :: "'c \<Rightarrow> string"
  ex_set_level :: "'c \<Rightarrow> string \<Rightarrow> 'c"
  ex_debug_level :: string
  ex_info_level :: string
  ex_env :: "'x ingest_env"
  ex_growth :: growth
  ex_orders :: map_orders
  ex_range :: "string list \<Rightarrow> string list"

datatype 'u start_error =
    ConfigError 'u
  | LoggingError 'u
  | CheckerError checker_error
  | JitterError ttl_error
  | HandlerError handler_error
  | ServerError server_error
  | StartPanic panic

section \<open>The constructors\<close>

type_synonym ('b, 'r) ingester_state = "('b, 'r) locator file_ingester"

definition provide_main ::
  "('b, 'q, 'r, 'm, 'e, 'l, 'f, 'c, 'x, 'u) externals \<Rightarrow> 'u start_error + 'c main_config" where
  "provide_main ex = map_sum ConfigError id (ex_unmarshal ex)"

text \<open>The configuration as the decorators of the command line leave it.\<close>

definition decorate_sallust ::
  "('b, 'q, 'r, 'm, 'e, 'l, 'f, 'c, 'x, 'u) externals \<Rightarrow> command_line \<Rightarrow> 'c \<Rightarrow> 'c" where
  "decorate_sallust ex cl cfg =
     ex_set_level ex cfg (decorate_level (ex_debug_level ex) (ex_info_level ex) cl (ex_level ex cfg))"

definition provide_base_logger ::
  "('b, 'q, 'r, 'm, 'e, 'l, 'f, 'c, 'x, 'u) externals \<Rightarrow> 'c \<Rightarrow> 'u start_error + 'l" where
  "provide_base_logger ex cfg = map_sum LoggingError id (ex_build_logger ex cfg)"

text \<open>The logger fx itself writes its events to.\<close>

definition fx_logger :: "('f, 'l) zap_api \<Rightarrow> command_line \<Rightarrow> 'l \<Rightarrow> 'l" where
  "fx_logger zap cl l = (if cl_verbose cl then l else zap_nop zap)"

text \<open>
  The locator, which is also the one member of the group of ingest listeners. The loggers that the
  locator and the ingester are given are \<open>locator_logger\<close> and \<open>ingest_logger\<close>; nothing reads them
  but the log, so their records do not hold them and the options that set them are left out.
\<close>

definition provide_locator ::
  "('b, 'q, 'r, 'm, 'e, 'l, 'f, 'c, 'x, 'u) externals \<Rightarrow> groups_config
    \<Rightarrow> unit + ('b, 'r) locator \<times> ('b, 'r) locator list" where
  "provide_locator ex gcfg =
     (case new_locator (ex_builder ex) [with_vnodes (ex_medley ex) (gc_vnodes gcfg)] of
        Inl err \<Rightarrow> Inl err
      | Inr loc \<Rightarrow> Inr (loc, [loc]))"

definition provide_file_ingester ::
  "('b, 'q, 'r, 'm, 'e, 'l, 'f, 'c, 'x, 'u) externals \<Rightarrow> groups_config \<Rightarrow> ('b, 'r) locator list
    \<Rightarrow> unit + ('b, 'r) ingester_state" where
  "provide_file_ingester ex gcfg listeners =
     new_file_ingester (ex_impl ex) (ex_env ex)
       [with_groups_config (ex_impl ex) (ex_env ex) gcfg, with_ingest_listeners listeners]"

text \<open>The checker's ingester is the one file ingester; its hooks are appended on success only.\<close>

datatype hook = CheckerHook | ServerHook string

definition provide_ingest_checker ::
  "groups_config \<Rightarrow> hook list \<Rightarrow> 'u start_error + unit ingest_checker \<times> hook list" where
  "provide_ingest_checker gcfg hooks =
     (case new_ingest_checker [with_ingester (Some ()), with_check_interval (gc_check_interval gcfg)] of
        Inl err \<Rightarrow> Inl (CheckerError err)
      | Inr ic \<Rightarrow> Inr (ic, hooks @ [CheckerHook]))"

definition provide_jitterer ::
  "('b, 'q, 'r, 'm, 'e, 'l, 'f, 'c, 'x, 'u) externals \<Rightarrow> zone_config \<Rightarrow> 'u start_error + ttl_jitterer" where
  "provide_jitterer ex zcfg =
     (case new_ttl_jitterer (ex_fimpl ex) (duration_to_seconds (ex_impl ex) (zc_ttl zcfg)) (zc_ttl_jitter zcfg) of
        (j, None) \<Rightarrow> Inr j
      | (j, Some err) \<Rightarrow> Inl (JitterError err))"

text \<open>The address of the locator.\<close>

definition the_locator :: nat where
  "the_locator = 0"

definition provide_endpoint_handler ::
  "('b, 'q, 'r, 'm, 'e, 'l, 'f, 'c, 'x, 'u) externals \<Rightarrow> ttl_jitterer \<Rightarrow> 'u start_error + endpoint_handler" where
  "provide_endpoint_handler ex jitterer =
     map_sum HandlerError id (new_endpoint_handler (ex_impl ex) (ex_fimpl ex)
       [with_endpoint_locator (Some the_locator), with_endpoint_jitterer (Some jitterer)])"

definition provide_group_handler ::
  "('b, 'q, 'r, 'm, 'e, 'l, 'f, 'c, 'x, 'u) externals \<Rightarrow> ttl_jitterer \<Rightarrow> 'u start_error + group_handler" where
  "provide_group_handler ex jitterer =
     map_sum HandlerError id (new_group_handler (ex_impl ex) (ex_fimpl ex)
       [with_group_locator (Some the_locator), with_group_jitterer (Some jitterer)])"

definition provide_handler ::
  "('b, 'q, 'r, 'm, 'e, 'l, 'f, 'c, 'x, 'u) externals \<Rightarrow> zone_config \<Rightarrow> 'l \<Rightarrow> endpoint_handler
    \<Rightarrow> group_handler \<Rightarrow> 'u start_error + 'l handler" where
  "provide_handler ex zcfg base eh gh =
     map_sum HandlerError id (new_handler (ex_dns ex)
       [with_zone_domain (ex_dns ex) (zc_domain zcfg), with_logger (Some base),
        with_endpoint_handler (Some eh), with_group_handler (Some gh)])"

definition provide_bundle ::
  "('b, 'q, 'r, 'm, 'e, 'l, 'f, 'c, 'x, 'u) externals \<Rightarrow> dns_config \<Rightarrow> 'l \<Rightarrow> 'l handler \<Rightarrow> hook list
    \<Rightarrow> 'u start_error + 'l server_bundle \<times> hook list" where
  "provide_bundle ex dcfg parent base hooks =
     (case new_bundle (logger_with_server (ex_zap ex)) (ex_fresh ex) (ex_range ex) dcfg parent of
        (b, Some err) \<Rightarrow> Inl (ServerError err)
      | (b, None) \<Rightarrow>
          (let b = use_handler (zap_nop (ex_zap ex)) (ex_range ex) base b
           in Inr (b, hooks @ map (\<lambda>i. ServerHook (info_name i)) (bind_to_lifecycle (ex_range ex) b))))"

section \<open>Start-up\<close>

datatype component =
    MainConfig | BaseLogger | TheLocator | Ingester | Checker | Jitterer | EndpointPart | GroupPart
  | BaseHandler | ServerBundle

record ('b, 'r, 'l, 'c, 'u) app =
  ap_config :: "'c main_config option"
  ap_logger :: "'l option"
  ap_locator :: "(('b, 'r) locator \<times> ('b, 'r) locator list) option"
  ap_ingester :: "('b, 'r) ingester_state option"
  ap_checker :: "unit ingest_checker option"
  ap_jitterer :: "ttl_jitterer option"
  ap_endpoint :: "endpoint_handler option"
  ap_group :: "group_handler option"
  ap_handler :: "'l handler option"
  ap_bundle :: "'l server_bundle option"
  ap_hooks :: "hook list"
  ap_invoked :: nat
  ap_error :: "'u start_error option"

definition new_app :: "('b, 'r, 'l, 'c, 'u) app" where
  "new_app =
     \<lparr>ap_config = None, ap_logger = None, ap_locator = None, ap_ingester = None, ap_checker = None,
      ap_jitterer = None, ap_endpoint = None, ap_group = None, ap_handler = None, ap_bundle = None,
      ap_hooks = [], ap_invoked = 0, ap_error = None\<rparr>"

fun built :: "('b, 'r, 'l, 'c, 'u) app \<Rightarrow> component \<Rightarrow> bool" where
  "built s MainConfig \<longleftrightarrow> ap_config s \<noteq> None"
| "built s BaseLogger \<longleftrightarrow> ap_logger s \<noteq> None"
| "built s TheLocator \<longleftrightarrow> ap_locator s \<noteq> None"
| "built s Ingester \<longleftrightarrow> ap_ingester s \<noteq> None"
| "built s Checker \<longleftrightarrow> ap_checker s \<noteq> None"
| "built s Jitterer \<longleftrightarrow> ap_jitterer s \<noteq> None"
| "built s EndpointPart \<longleftrightarrow> ap_endpoint s \<noteq> None"
| "built s GroupPart \<longleftrightarrow> ap_group s \<noteq> None"
| "built s BaseHandler \<longleftrightarrow> ap_handler s \<noteq> None"
| "built s ServerBundle \<longleftrightarrow> ap_bundle s \<noteq> None"

text \<open>The parameters of the constructors; the projections of the configuration count as \<open>MainConfig\<close>.\<close>

fun params :: "component \<Rightarrow> component list" where
  "params MainConfig = []"
| "params BaseLogger = [MainConfig]"
| "params TheLocator = [BaseLogger, MainConfig]"
| "params Ingester = [BaseLogger, MainConfig, TheLocator]"
| "params Checker = [BaseLogger, MainConfig, Ingester]"
| "params Jitterer = [MainConfig, BaseLogger]"
| "params EndpointPart = [TheLocator, Jitterer]"
| "params GroupPart = [TheLocator, Jitterer]"
| "params BaseHandler = [MainConfig, BaseLogger, EndpointPart, GroupPart]"
| "params ServerBundle = [MainConfig, BaseLogger, BaseHandler]"

text \<open>The values of the parameters, for a state in which they are built.\<close>

definition app_groups :: "command_line \<Rightarrow> ('b, 'r, 'l, 'c, 'u) app \<Rightarrow> groups_config" where
  "app_groups cl s = decorate_groups cl (provide_groups (the (ap_config s)))"

definition app_dns :: "('b, 'r, 'l, 'c, 'u) app \<Rightarrow> dns_config" where
  "app_dns s = provide_dns (the (ap_config s))"

definition app_zone :: "('b, 'r, 'l, 'c, 'u) app \<Rightarrow> zone_config" where
  "app_zone s = provide_zone (app_dns s)"

text \<open>
  One constructor call. The constructors of the locator and of the ingester cannot fail, so the
  left summand of their results is empty in practice (\<open>provide_locator_eq\<close>, \<open>provide_file_ingester_eq\<close>).
\<close>

fun construct ::
  "('b, 'q, 'r, 'm, 'e, 'l, 'f, 'c, 'x, 'u) externals \<Rightarrow> command_line \<Rightarrow> component
    \<Rightarrow> ('b, 'r, 'l, 'c, 'u) app \<Rightarrow> ('b, 'r, 'l, 'c, 'u) app" where
  "construct ex cl MainConfig s =
     (case provide_main ex of
        Inl err \<Rightarrow> s\<lparr>ap_error := Some err\<rparr> | Inr m \<Rightarrow> s\<lparr>ap_config := Some m\<rparr>)"
| "construct ex cl BaseLogger s =
     (case provide_base_logger ex (decorate_sallust ex cl (provide_logging (the (ap_config s)))) of
        Inl err \<Rightarrow> s\<lparr>ap_error := Some err\<rparr> | Inr l \<Rightarrow> s\<lparr>ap_logger := Some l\<rparr>)"
| "construct ex cl TheLocator s =
     (case provide_locator ex (app_groups cl s) of
        Inl _ \<Rightarrow> s | Inr loc \<Rightarrow> s\<lparr>ap_locator := Some loc\<rparr>)"
| "construct ex cl Ingester s =
     (case provide_file_ingester ex (app_groups cl s) (snd (the (ap_locator s))) of
        Inl _ \<Rightarrow> s | Inr fi \<Rightarrow> s\<lparr>ap_ingester := Some fi\<rparr>)"
| "construct ex cl Checker s =
     (case provide_ingest_checker (app_groups cl s) (ap_hooks s) of
        Inl err \<Rightarrow> s\<lparr>ap_error := Some err\<rparr>
      | Inr (ic, hooks) \<Rightarrow> s\<lparr>ap_checker := Some ic, ap_hooks := hooks\<rparr>)"
| "construct ex cl Jitterer s =
     (case provide_jitterer ex (app_zone s) of
        Inl err \<Rightarrow> s\<lparr>ap_error := Some err\<rparr> | Inr j \<Rightarrow> s\<lparr>ap_jitterer := Some j\<rparr>)"
| "construct ex cl EndpointPart s =
     (case provide_endpoint_handler ex (the (ap_jitterer s)) of
        Inl err \<Rightarrow> s\<lparr>ap_error := Some err\<rparr> | Inr eh \<Rightarrow> s\<lparr>ap_endpoint := Some eh\<rparr>)"
| "construct ex cl GroupPart s =
     (case provide_group_handler ex (the (ap_jitterer s)) of
        Inl err \<Rightarrow> s\<lparr>ap_error := Some err\<rparr> | Inr gh \<Rightarrow> s\<lparr>ap_group := Some gh\<rparr>)"
| "construct ex cl BaseHandler s =
     (case provide_handler ex (app_zone s) (the (ap_logger s)) (the (ap_endpoint s)) (the (ap_group s)) of
        Inl err \<Rightarrow> s\<lparr>ap_error := Some err\<rparr> | Inr h \<Rightarrow> s\<lparr>ap_handler := Some h\<rparr>)"
| "construct ex cl ServerBundle s =
     (case provide_bundle ex (app_dns s) (the (ap_logger s)) (the (ap_handler s)) (ap_hooks s) of
        Inl err \<Rightarrow> s\<lparr>ap_error := Some err\<rparr>
      | Inr (b, hooks) \<Rightarrow> s\<lparr>ap_bundle := Some b, ap_hooks := hooks\<rparr>)"

text \<open>
  The invoked functions in the order of their registration: the initial ingest, the checker, the
  servers, and the log line with the configuration file.
\<close>

fun invoke_params :: "nat \<Rightarrow> component list" where
  "invoke_params 0 = [Ingester]"
| "invoke_params (Suc 0) = [Checker]"
| "invoke_params (Suc (Suc 0)) = [ServerBundle]"
| "invoke_params _ = [BaseLogger]"

text \<open>The initial ingest runs with the background context, which is never cancelled.\<close>

definition initial_env :: "('b, 'q, 'r, 'm, 'e, 'l, 'f, 'c, 'x, 'u) externals \<Rightarrow> 'x ingest_env" where
  "initial_env ex = (ex_env ex)\<lparr>env_ctx_err := \<lambda>_. None\<rparr>"

definition initial_ingest ::
  "('b, 'q, 'r, 'm, 'e, 'l, 'f, 'c, 'x, 'u) externals \<Rightarrow> ('b, 'r) ingester_state
    \<Rightarrow> panic + ('b, 'r) ingester_state" where
  "initial_ingest ex fi =
     ingest (ex_growth ex) (ex_orders ex) (initial_env ex) (on_ingest (ex_medley ex)) fi"

definition run_invoke ::
  "('b, 'q, 'r, 'm, 'e, 'l, 'f, 'c, 'x, 'u) externals \<Rightarrow> ('b, 'r, 'l, 'c, 'u) app \<Rightarrow> ('b, 'r, 'l, 'c, 'u) app" where
  "run_invoke ex s =
     (if ap_invoked s = 0 then
        (case initial_ingest ex (the (ap_ingester s)) of
           Inl p \<Rightarrow> s\<lparr>ap_error := Some (StartPanic p)\<rparr>
         | Inr fi \<Rightarrow> s\<lparr>ap_ingester := Some fi, ap_invoked := 1\<rparr>)
      else s\<lparr>ap_invoked := Suc (ap_invoked s)\<rparr>)"

text \<open>What the invoked function number \<open>k\<close> needs, directly or as a parameter of a constructor.\<close>

inductive needed :: "nat \<Rightarrow> component \<Rightarrow> bool" for k where
  direct: "c \<in> set (invoke_params k) \<Longrightarrow> needed k c"
| indirect: "needed k c \<Longrightarrow> d \<in> set (params c) \<Longrightarrow> needed k d"

inductive fx_step ::
  "('b, 'q, 'r, 'm, 'e, 'l, 'f, 'c, 'x, 'u) externals \<Rightarrow> command_line \<Rightarrow> ('b, 'r, 'l, 'c, 'u) app
    \<Rightarrow> ('b, 'r, 'l, 'c, 'u) app \<Rightarrow> bool"
  for ex cl
where
  construct:
    "ap_error s = None \<Longrightarrow> ap_invoked s < 4 \<Longrightarrow> needed (ap_invoked s) c \<Longrightarrow> \<not> built s c \<Longrightarrow>
     \<forall>d \<in> set (params c). built s d \<Longrightarrow>
     fx_step ex cl s (construct ex cl c s)"
| invoke:
    "ap_error s = None \<Longrightarrow> ap_invoked s < 4 \<Longrightarrow> \<forall>d \<in> set (invoke_params (ap_invoked s)). built s d \<Longrightarrow>
     fx_step ex cl s (run_invoke ex s)"

inductive_cases fx_stepE: "fx_step ex cl s s'"

text \<open>The locator as the handlers see it.\<close>

definition app_locator :: "('b, 'r, 'l, 'c, 'u) app \<Rightarrow> ('b, 'r) locator" where
  "app_locator s =
     (case ap_ingester s of
        None \<Rightarrow> fst (the (ap_locator s))
      | Some fi \<Rightarrow> hd (fi_listeners fi))"

section \<open>The reference start-up\<close>

text \<open>
  What a start-up comes to: its error or the parts of the running program.
\<close>

record ('b, 'r, 'l, 'c) booted =
  bt_config :: "'c main_config"
  bt_logger :: 'l
  bt_ingester :: "('b, 'r) ingester_state"
  bt_checker :: "unit ingest_checker"
  bt_jitterer :: ttl_jitterer
  bt_handler :: "'l handler"
  bt_bundle :: "'l server_bundle"
  bt_hooks :: "hook list"

definition outcome :: "('b, 'r, 'l, 'c, 'u) app \<Rightarrow> 'u start_error + ('b, 'r, 'l, 'c) booted" where
  "outcome s =
     (case ap_error s of
        Some err \<Rightarrow> Inl err
      | None \<Rightarrow>
          Inr \<lparr>bt_config = the (ap_config s), bt_logger = the (ap_logger s),
            bt_ingester = the (ap_ingester s), bt_checker = the (ap_checker s),
            bt_jitterer = the (ap_jitterer s), bt_handler = the (ap_handler s),
            bt_bundle = the (ap_bundle s), bt_hooks = ap_hooks s\<rparr>)"

text \<open>The same constructors in one fixed order.\<close>

definition boot ::
  "('b, 'q, 'r, 'm, 'e, 'l, 'f, 'c, 'x, 'u) externals \<Rightarrow> command_line
    \<Rightarrow> 'u start_error + ('b, 'r, 'l, 'c) booted" where
  "boot ex cl =
     (case provide_main ex of Inl err \<Rightarrow> Inl err | Inr m \<Rightarrow>
     (case provide_base_logger ex (decorate_sallust ex cl (provide_logging m)) of Inl err \<Rightarrow> Inl err | Inr l \<Rightarrow>
     (case provide_jitterer ex (provide_zone (provide_dns m)) of Inl err \<Rightarrow> Inl err | Inr j \<Rightarrow>
     (let gcfg = decorate_groups cl (provide_groups m);
          loc = zero_locator (md_vnodes (ex_medley ex) (ex_builder ex) (gc_vnodes gcfg));
          fi = projr (provide_file_ingester ex gcfg [loc]);
          ic = \<lparr>ic_interval = (if gc_check_interval gcfg \<le> 0 then default_check_interval
                 else gc_check_interval gcfg), ic_ingester = Some ()\<rparr>;
          eh = \<lparr>eh_locator = Some the_locator, eh_jitterer = Some j\<rparr>;
          gh = \<lparr>gh_locator = Some the_locator, gh_jitterer = Some j\<rparr>;
          h = projr (provide_handler ex (provide_zone (provide_dns m)) l eh gh :: 'u start_error + 'l handler)
      in case provide_bundle ex (provide_dns m) l h [CheckerHook] of
           Inl err \<Rightarrow> Inl err
         | Inr (b, hooks) \<Rightarrow>
             Inr \<lparr>bt_config = m, bt_logger = l, bt_ingester = projr (initial_ingest ex fi), bt_checker = ic,
               bt_jitterer = j, bt_handler = h, bt_bundle = b, bt_hooks = hooks\<rparr>))))"

end
