(* ===== verification/Handler_Properties.thy ===== *)
theory Handler_Properties
  imports Handlers
begin

text \<open>
  What the handlers answer: the records of an endpoint and of a group response, the panics,
  and the response code of every request.
\<close>

section \<open>The endpoint handler\<close>

text \<open>The records an endpoint contributes to a response.\<close>

definition endpoint_records :: "header \<Rightarrow> 16 word \<Rightarrow> addr list endpoint \<Rightarrow> rr list" where
  "endpoint_records h t e =
     (if t = type_A then map (A h) (ep_ip4 e)
      else if t = type_AAAA then map (AAAA h) (ep_ip6 e) else [])"

lemma fill_headers_located:
  "map_sum id (fill_headers h) (located_rrs (map Some es) t) =
     Inr (concat (map (endpoint_records h t) es))"
  by (simp add: located_rrs_def located_seq_some fill_headers_def empty_rrs_def endpoint_records_def [abs_def]
    map_concat comp_def)

lemma located_rrs_isl:
  "isl (located_rrs le t) \<longleftrightarrow> (t = type_A \<or> t = type_AAAA) \<and> None \<in> set le"
  by (simp add: located_rrs_def located_seq_isl)

lemma jitter_ttl_bounds:
  "jitter_wf j \<Longrightarrow> fst (jitter_range j) \<le> jitter_ttl j r \<and> jitter_ttl j r \<le> snd (jitter_range j)"
  using jt.draw_ge [of j r] jt.draw_le [of j r] by simp

lemma serve_endpoints_some:
  assumes "eh_locator eh = Some loc" and "eh_jitterer eh = Some j"
    and "find_string md (mem loc) (er_object request) (er_groups request) = map Some es"
  shows "serve_endpoints md mem eh r sh response request =
    (None, response\<lparr>msg_answer := shuffle sh (msg_answer response @
       concat (map (endpoint_records \<lparr>hdr_name = er_name request, hdr_ttl = jitter_ttl j r,
         hdr_class = class_INET\<rparr> (er_rr_type request)) es))\<rparr>)"
proof -
  obtain rrs where rrs: "located_rrs (map Some es) (er_rr_type request) = Inr rrs"
    using fill_headers_located [of undefined es "er_rr_type request"]
    by (cases "located_rrs (map Some es) (er_rr_type request)") auto
  moreover have "fill_headers h rrs = concat (map (endpoint_records h (er_rr_type request)) es)" for h
    using fill_headers_located [of h es "er_rr_type request"] rrs by simp
  ultimately show ?thesis
    using assms lrr.len_rrs [of "map Some es" "er_rr_type request"]
    by (simp add: serve_endpoints_def)
qed

lemma serve_endpoints_panic:
  assumes "eh_locator eh = Some loc" and "eh_jitterer eh = Some j"
  shows "fst (serve_endpoints md mem eh r sh response request) \<noteq> None \<longleftrightarrow>
    isl (located_rrs (find_string md (mem loc) (er_object request) (er_groups request)) (er_rr_type request))"
  using assms
    lrr.len_rrs [of "find_string md (mem loc) (er_object request) (er_groups request)" "er_rr_type request"]
  by (cases "located_rrs (find_string md (mem loc) (er_object request) (er_groups request)) (er_rr_type request)")
    (simp_all add: serve_endpoints_def)

lemma serve_endpoints_panic_response:
  "fst (serve_endpoints md mem eh r sh response request) \<noteq> None \<Longrightarrow>
     snd (serve_endpoints md mem eh r sh response request) = response"
  by (simp add: serve_endpoints_def Let_def split: option.splits sum.splits)

lemma serve_endpoints_nil:
  assumes "eh_locator eh = Some loc" and "eh_jitterer eh = Some j"
    and "None \<in> set (find_string md (mem loc) (er_object request) (er_groups request))"
    and "er_rr_type request = type_A \<or> er_rr_type request = type_AAAA"
  shows "\<exists>p. serve_endpoints md mem eh r sh response request = (Some p, response)"
proof -
  have "fst (serve_endpoints md mem eh r sh response request) \<noteq> None"
    unfolding serve_endpoints_panic [OF assms(1,2)] using assms(3,4) by (simp add: located_rrs_isl)
  with serve_endpoints_panic_response [OF this] show ?thesis by (auto simp: prod_eq_iff)
qed

lemma serve_endpoints_rcode: "msg_rcode (snd (serve_endpoints md mem eh r sh response request)) = msg_rcode response"
  by (simp add: serve_endpoints_def Let_def split: option.split sum.split)

section \<open>The group handler\<close>

definition group_answer :: "addr list groups \<Rightarrow> string \<Rightarrow> (addr list group \<times> rr) list" where
  "group_answer gps n =
     (if n = [] then groups_rrs gps type_TXT
      else (case List.find (\<lambda>g. grp_name g = n) (gps_all gps) of
              None \<Rightarrow> [] | Some g \<Rightarrow> group_rrs g type_TXT))"

lemma serve_groups_rcode:
  assumes "gr_rr_type request = type_TXT"
  shows "msg_rcode (snd (serve_groups mem gh r response request)) = msg_rcode response"
  using assms by (simp add: serve_groups_def answer_groups_def Let_def split: option.split sum.split)

section \<open>The response code\<close>

text \<open>The reply keeps the code it is given, or sets the successful one.\<close>

definition replies_successful :: "('m, 'e) dns_api \<Rightarrow> bool" where
  "replies_successful api \<longleftrightarrow>
     (\<forall>m original. msg_rcode (dn_set_reply api m original) = msg_rcode m \<or>
        msg_rcode (dn_set_reply api m original) = rcode_success)"

text \<open>The requests hashy answers.\<close>

definition answerable :: "('m, 'e) dns_api \<Rightarrow> 'l handler \<Rightarrow> 'm msg \<Rightarrow> bool" where
  "answerable api h original =
     (case msg_question original of
        [q] \<Rightarrow> hdr_class (rr_header q) = class_INET \<and>
          (dn_is_below api (h_endpoint_domain h) (hdr_name (rr_header q)) \<or>
           dn_is_below api (h_group_domain h) (hdr_name (rr_header q)) \<and> dn_rr_to_type api q = type_TXT)
      | _ \<Rightarrow> False)"

lemma start_operation_rcode:
  "replies_successful api \<Longrightarrow> msg_rcode (start_operation api original) = rcode_success"
  by (auto simp: replies_successful_def start_operation_def Let_def dest!: spec)

lemma route_rcode:
  assumes "h_group_handler h = Some gh" and "h_endpoint_handler h = Some eh"
  shows "msg_rcode (snd (route md api mem h r sh response q)) =
    (if dn_is_below api (h_endpoint_domain h) (hdr_name (rr_header q)) \<or>
        dn_is_below api (h_group_domain h) (hdr_name (rr_header q)) \<and> dn_rr_to_type api q = type_TXT
     then msg_rcode response else rcode_refused)"
proof -
  have type: "gr_rr_type (parse_group_request api q d) = dn_rr_to_type api q" for d
    by (simp add: parse_group_request_def Let_def)
  have "msg_rcode (snd (serve_groups mem gh r response (parse_group_request api q d))) =
      (if dn_rr_to_type api q = type_TXT then msg_rcode response else rcode_refused)" for d
    using serve_groups_rcode [of "parse_group_request api q d" mem gh r response]
    by (cases "dn_rr_to_type api q = type_TXT") (simp_all add: type, simp add: serve_groups_def type)
  with assms show ?thesis by (simp add: route_def serve_endpoints_rcode unhandled_def)
qed

section \<open>Properties\<close>

text \<open>
  Property C17: when the rings yield endpoints, the endpoint handler adds to the answer, in
  random order and nothing else, the addresses of the requested family of every endpoint, each
  as a record with the question's name, class IN, and one TTL drawn from the configured range;
  for other record types it adds nothing. The response code stays.
\<close>

theorem endpoint_answer:
  assumes "eh_locator eh = Some loc" and "eh_jitterer eh = Some j" and "jitter_wf j"
    and "find_string md (mem loc) (er_object request) (er_groups request) = map Some es"
  shows "\<exists>response' ttl. serve_endpoints md mem eh r sh response request = (None, response') \<and>
    fst (jitter_range j) \<le> ttl \<and> ttl \<le> snd (jitter_range j) \<and>
    mset (msg_answer response') = mset (msg_answer response) +
      mset (concat (map (endpoint_records \<lparr>hdr_name = er_name request, hdr_ttl = ttl,
        hdr_class = class_INET\<rparr> (er_rr_type request)) es)) \<and>
    msg_rcode response' = msg_rcode response"
  using serve_endpoints_some [where r = r and sh = sh and response = response and md = md and mem = mem
      and request = request, OF assms(1,2,4)]
    jitter_ttl_bounds [OF assms(3), of r]
  by (intro exI [of _ "snd (serve_endpoints md mem eh r sh response request)"] exI [of _ "jitter_ttl j r"])
    (simp add: mset_shuffle)

text \<open>A request for the addresses of an object, for the witnesses.\<close>

definition sample_request :: endpoint_request where
  "sample_request = \<lparr>er_name = ''x.endpoint.'', er_groups = [], er_prefix = [], er_object = ''x'',
     er_extra = [], er_rr_type = type_A\<rparr>"

definition sample_jitterer :: ttl_jitterer where
  "sample_jitterer = \<lparr>jitter_base = 540, jitter_choose = 121\<rparr>"

lemma sample_find:
  "find_string sample_medley (published sample_medley 0 (Some sample_groups)) ''x'' [] = map Some [sample_endpoint]"
  by (simp add: find_string_map rings_def published_def sample_groups_def sample_medley_def
    build_ring_def sample_endpoint_def)

theorem endpoint_answer_witness:
  "\<exists>response' ttl. serve_endpoints sample_medley (\<lambda>_. published sample_medley 0 (Some sample_groups))
      \<lparr>eh_locator = Some 0, eh_jitterer = Some sample_jitterer\<rparr> 7 (\<lambda>n. n)
      \<lparr>msg_question = [], msg_answer = [], msg_rcode = 0, msg_rest = ()\<rparr> sample_request = (None, response') \<and>
    540 \<le> ttl \<and> ttl \<le> 660 \<and>
    msg_answer response' = [A \<lparr>hdr_name = ''x.endpoint.'', hdr_ttl = ttl, hdr_class = class_INET\<rparr> (IPv4 1)]"
  using endpoint_answer [where eh = "\<lparr>eh_locator = Some 0, eh_jitterer = Some sample_jitterer\<rparr>"
      and mem = "\<lambda>_. published sample_medley 0 (Some sample_groups)" and es = "[sample_endpoint]"
      and request = sample_request and md = sample_medley and r = 7 and sh = "\<lambda>n. n"
      and response = "\<lparr>msg_question = [], msg_answer = [], msg_rcode = 0, msg_rest = ()\<rparr>"
      and loc = 0 and j = sample_jitterer]
    sample_find
  by (auto simp: sample_request_def sample_jitterer_def jitter_wf_def jitter_range_def
    endpoint_records_def sample_endpoint_def)

text \<open>
  Property C40: the endpoint handler, configured with a locator and a jitterer, panics exactly when
  a ring yields a nil endpoint and addresses are asked for (type A or AAAA). Whenever it panics, it has left
  the response as it was.
\<close>

theorem endpoint_panics_on_nil:
  assumes "eh_locator eh = Some loc" and "eh_jitterer eh = Some j"
  shows "(fst (serve_endpoints md mem eh r sh response request) \<noteq> None \<longleftrightarrow>
      (er_rr_type request = type_A \<or> er_rr_type request = type_AAAA) \<and>
      None \<in> set (find_string md (mem loc) (er_object request) (er_groups request))) \<and>
    (fst (serve_endpoints md mem eh r sh response request) \<noteq> None \<longrightarrow>
      snd (serve_endpoints md mem eh r sh response request) = response)"
proof
  show "fst (serve_endpoints md mem eh r sh response request) \<noteq> None \<longleftrightarrow>
      (er_rr_type request = type_A \<or> er_rr_type request = type_AAAA) \<and>
      None \<in> set (find_string md (mem loc) (er_object request) (er_groups request))"
    unfolding serve_endpoints_panic [OF assms] by (simp add: located_rrs_isl)
qed (blast intro: serve_endpoints_panic_response)

theorem endpoint_panics_on_nil_witness:
  "\<exists>p. serve_endpoints sample_medley
      (\<lambda>_. published sample_medley 0 (Some \<lparr>gps_by_name = Some [(''g'', 0)],
        gps_all = [\<lparr>grp_name = ''g'', grp_services = [''s.''], grp_endpoints = []\<rparr>]\<rparr>))
      \<lparr>eh_locator = Some 0, eh_jitterer = Some sample_jitterer\<rparr> 7 (\<lambda>n. n)
      \<lparr>msg_question = [], msg_answer = [], msg_rcode = 0, msg_rest = ()\<rparr> sample_request =
    (Some p, \<lparr>msg_question = [], msg_answer = [], msg_rcode = 0, msg_rest = ()\<rparr>)"
proof -
  let ?mem = "\<lambda>_ :: nat. published sample_medley 0 (Some \<lparr>gps_by_name = Some [(''g'', 0)],
    gps_all = [\<lparr>grp_name = ''g'', grp_services = [''s.''], grp_endpoints = []\<rparr>]\<rparr>)"
  have "None \<in> set (find_string sample_medley (?mem 0) (er_object sample_request) (er_groups sample_request))"
    by (simp add: sample_request_def find_string_map rings_def published_def sample_medley_def build_ring_def)
  with endpoint_panics_on_nil [of "\<lparr>eh_locator = Some 0, eh_jitterer = Some sample_jitterer\<rparr>" 0 sample_jitterer
      sample_medley ?mem 7 "\<lambda>n. n" "\<lparr>msg_question = [], msg_answer = [], msg_rcode = 0, msg_rest = ()\<rparr>" sample_request]
  show ?thesis by (auto simp: sample_request_def prod_eq_iff)
qed

text \<open>
  Property C19: the group handler, configured with a locator and a jitterer, refuses everything but
  TXT. For TXT the answer depends on the groups in the locator. Before the first groups have been
  published it is a panic, with the response as it was. Afterwards, the groups' index naming every
  group by its position as \<open>Build\<close> makes it, the handler appends the records of the named group,
  nothing for a name that is no group, and the records of all groups, in order, for the group domain
  itself.
\<close>

theorem group_answer_spec:
  assumes "gh_locator gh = Some loc" and "gh_jitterer gh = Some j"
    and "\<forall>gps. locator_groups (mem loc) = Some gps \<longrightarrow> groups_wf gps"
  shows "serve_groups mem gh r response request =
    (if gr_rr_type request \<noteq> type_TXT then (None, response\<lparr>msg_rcode := rcode_refused\<rparr>)
     else (case locator_groups (mem loc) of
         None \<Rightarrow> (Some NilDereference, response)
       | Some gps \<Rightarrow> (None, response\<lparr>msg_answer := msg_answer response @
           fill_headers \<lparr>hdr_name = gr_name request, hdr_ttl = jitter_ttl j r, hdr_class = class_INET\<rparr>
             (group_answer gps (gr_group request))\<rparr>)))"
  using assms
  by (auto simp: serve_groups_def answer_groups_def group_answer_def groups_get_wf fill_headers_def
    split: option.split)

theorem group_answer_spec_witness:
  "serve_groups (\<lambda>_. published sample_medley 0 (Some sample_groups))
     \<lparr>gh_locator = Some 0, gh_jitterer = Some \<lparr>jitter_base = 300, jitter_choose = 0\<rparr>\<rparr> 0
     \<lparr>msg_question = [], msg_answer = [], msg_rcode = 0, msg_rest = ()\<rparr>
     \<lparr>gr_name = ''g.group.'', gr_group = ''g'', gr_rr_type = type_TXT\<rparr> =
   (None, \<lparr>msg_question = [],
      msg_answer = map (TXT \<lparr>hdr_name = ''g.group.'', hdr_ttl = 300, hdr_class = class_INET\<rparr>)
        [[''g s.''], [''g t.'']],
      msg_rcode = 0, msg_rest = ()\<rparr>)"
  by (subst group_answer_spec [of _ 0 "\<lparr>jitter_base = 300, jitter_choose = 0\<rparr>"])
    (simp_all add: locator_groups_def sample_ok, simp add: group_answer_def sample_groups_def
      group_rrs_def group_txt_def fill_headers_def jitter_ttl_def sample_endpoint_def original_name_def)

text \<open>
  Until the first groups have been published, every TXT question to the group
  handler makes it panic (the nil \<open>Groups\<close> is dereferenced); the response is sent as it is.
\<close>

lemma group_panics_before_first_update:
  "serve_groups (\<lambda>_. zero_locator b) \<lparr>gh_locator = Some loc, gh_jitterer = Some j\<rparr> r response
     \<lparr>gr_name = n, gr_group = g, gr_rr_type = type_TXT\<rparr> = (Some NilDereference, response)"
  by (simp add: serve_groups_def locator_groups_def zero_locator_def)

text \<open>
  Property C18: a request is refused exactly when it does not have one question, the question
  is not of class IN, its name lies below neither domain, or it asks below the group domain
  for anything but TXT; every other request is answered with success.
\<close>

theorem serve_dns_rcode:
  assumes "h_endpoint_handler h = Some eh" and "h_group_handler h = Some gh"
    and "replies_successful api"
  shows "msg_rcode (fst (snd (serve_dns md api mem h r sh original))) =
    (if answerable api h original then rcode_success else rcode_refused)"
proof -
  have "rcode_refused \<noteq> rcode_success" by (simp add: rcode_refused_def rcode_success_def)
  then show ?thesis
    using start_operation_rcode [OF assms(3), of original]
    by (cases "msg_question original"; cases "tl (msg_question original)")
      (auto simp: serve_dns_def get_question_def answerable_def Let_def split_def
        route_rcode [OF assms(2,1)])
qed

definition sample_api :: "(unit, unit) dns_api" where
  "sample_api =
     \<lparr>dn_trim = \<lambda>name domain. take (length name - length domain - 1) name,
      dn_join = \<lambda>a b. a @ CHR ''.'' # b, dn_fqdn = \<lambda>d. d @ ''.'',
      dn_is_below = \<lambda>parent child. drop (length child - length parent) child = parent,
      dn_rr_to_type = \<lambda>rr. case rr of A _ _ \<Rightarrow> type_A | TXT _ _ \<Rightarrow> type_TXT | _ \<Rightarrow> 0,
      dn_copy = \<lambda>m. m, dn_set_reply = \<lambda>m _. m\<lparr>msg_answer := []\<rparr>, dn_pack = \<lambda>_. Inr []\<rparr>"

definition sample_handler :: "unit handler" where
  "sample_handler =
     \<lparr>h_logger = Some (), h_zone_domain = ''hashy.net.'', h_endpoint_domain = ''endpoint.hashy.net.'',
      h_endpoint_handler = Some \<lparr>eh_locator = Some 0, eh_jitterer = Some sample_jitterer\<rparr>,
      h_group_domain = ''group.hashy.net.'',
      h_group_handler = Some \<lparr>gh_locator = Some 0, gh_jitterer = Some sample_jitterer\<rparr>\<rparr>"

definition sample_query :: "rr \<Rightarrow> unit msg" where
  "sample_query q = \<lparr>msg_question = [q], msg_answer = [], msg_rcode = 0, msg_rest = ()\<rparr>"

theorem serve_dns_rcode_witness:
  "msg_rcode (fst (snd (serve_dns sample_medley sample_api
     (\<lambda>_. published sample_medley 0 (Some sample_groups)) sample_handler 0 (\<lambda>n. n)
     (sample_query (A \<lparr>hdr_name = ''g.group.hashy.net.'', hdr_ttl = 0, hdr_class = class_INET\<rparr> ZeroAddr)))))
   = rcode_refused"
  by (subst serve_dns_rcode)
    (simp_all add: sample_handler_def sample_api_def replies_successful_def answerable_def sample_query_def)

text \<open>
  The handler the server builds from its configuration serves the subdomains
  \<open>endpoint\<close> and \<open>group\<close> of the fully qualified zone domain; the default zone domain, which is
  used as it is, only replaces a domain whose qualified form is empty. A clone for a server
  differs from it in the logger alone.
\<close>

lemma handler_configured:
  "new_handler api [with_zone_domain api d, with_logger (Some base), with_endpoint_handler (Some eh),
     with_group_handler (Some gh)] =
   (let zone = (if dn_fqdn api d = [] then ''hashy.net'' else dn_fqdn api d)
    in Inr \<lparr>h_logger = Some base, h_zone_domain = zone,
      h_endpoint_domain = dn_join api ''endpoint'' zone, h_endpoint_handler = Some eh,
      h_group_domain = dn_join api ''group'' zone, h_group_handler = Some gh\<rparr>) \<and>
   clone_handler nop h (Some l) = h\<lparr>h_logger := Some l\<rparr> \<and>
   clone_handler nop h None = h\<lparr>h_logger := Some nop\<rparr>"
  by (simp add: new_handler_def with_zone_domain_def with_logger_def with_endpoint_handler_def
    with_group_handler_def zero_handler_def default_zone_domain_def endpoint_label_name_def
    group_label_name_def clone_handler_def Let_def)

end
