(* ===== verification/Answer_Types.thy ===== *)
theory Answer_Types
  imports Handler_Properties
begin

text \<open>
  Type soundness of the responses (\<open>server/handler.go\<close> and the handlers it routes to): whatever
  the request, the locator and the random numbers, a response differs from the prepared reply
  only in its code and its answer, and each record added to the answer has the type, name and
  class that were asked for.
\<close>

fun rr_type_is :: "16 word \<Rightarrow> rr \<Rightarrow> bool" where
  "rr_type_is t (A _ _) \<longleftrightarrow> t = type_A"
| "rr_type_is t (AAAA _ _) \<longleftrightarrow> t = type_AAAA"
| "rr_type_is t (TXT _ _) \<longleftrightarrow> t = type_TXT"
| "rr_type_is t _ \<longleftrightarrow> False"

lemma rr_type_set_header [simp]: "rr_type_is t (set_rr_header h rr) = rr_type_is t rr"
  by (cases rr) simp_all

text \<open>The records a handler may add for a question.\<close>

definition answers_to :: "string \<Rightarrow> 16 word \<Rightarrow> 32 word \<Rightarrow> rr set" where
  "answers_to name t ttl =
     {rr. rr_header rr = \<lparr>hdr_name = name, hdr_ttl = ttl, hdr_class = class_INET\<rparr> \<and> rr_type_is t rr}"

lemma fill_headers_typed:
  assumes "\<forall>(e, rr) \<in> set xs. rr_type_is t rr"
  shows "set (fill_headers \<lparr>hdr_name = name, hdr_ttl = ttl, hdr_class = class_INET\<rparr> xs) \<subseteq> answers_to name t ttl"
  using assms by (auto simp: fill_headers_def answers_to_def)

lemma located_seq_typed:
  assumes "\<And>e rr. rr \<in> set (f e) \<Longrightarrow> rr_type_is t rr"
  shows "located_seq f le = Inr xs \<Longrightarrow> \<forall>(e, rr) \<in> set xs. rr_type_is t rr"
proof (induction le arbitrary: xs)
  case (Cons p le)
  then show ?case
    by (cases p; cases "located_seq f le") (auto dest: assms)
qed simp

lemma located_rrs_typed: "located_rrs le t = Inr xs \<Longrightarrow> \<forall>(e, rr) \<in> set xs. rr_type_is t rr"
  by (cases "t = type_A"; cases "t = type_AAAA"; simp add: located_rrs_def empty_rrs_def)
    (rule located_seq_typed; auto)+

lemma group_rrs_typed: "\<forall>(e, rr) \<in> set (group_rrs g type_TXT). rr_type_is type_TXT rr"
  by (auto simp: group_rrs_def group_txt_def)

text \<open>What a handler may make of a response: only the answer grows, and only by such records.\<close>

definition well_typed_reply :: "'m msg \<Rightarrow> string \<Rightarrow> 16 word \<Rightarrow> 'm msg \<Rightarrow> bool" where
  "well_typed_reply response name t response' \<longleftrightarrow>
     (\<exists>ttl answer code. response' = response\<lparr>msg_answer := answer, msg_rcode := code\<rparr> \<and>
        set answer \<subseteq> set (msg_answer response) \<union> answers_to name t ttl \<and>
        set (msg_answer response) \<subseteq> set answer \<and> code \<in> {msg_rcode response, rcode_refused})"

lemma well_typed_same [simp]: "well_typed_reply response name t response"
  unfolding well_typed_reply_def
  by (intro exI [of _ undefined] exI [of _ "msg_answer response"] exI [of _ "msg_rcode response"]) simp

lemma well_typed_refused [simp]: "well_typed_reply response name t (response\<lparr>msg_rcode := rcode_refused\<rparr>)"
  unfolding well_typed_reply_def
  by (intro exI [of _ undefined] exI [of _ "msg_answer response"] exI [of _ rcode_refused]) simp

lemma well_typed_answer:
  assumes "set answer = set (msg_answer response) \<union> set (fill_headers \<lparr>hdr_name = name, hdr_ttl = ttl,
      hdr_class = class_INET\<rparr> xs)" and "\<forall>(e, rr) \<in> set xs. rr_type_is t rr"
  shows "well_typed_reply response name t (response\<lparr>msg_answer := answer\<rparr>)"
  unfolding well_typed_reply_def using fill_headers_typed [OF assms(2), of name ttl] assms(1)
  by (intro exI [of _ ttl] exI [of _ answer] exI [of _ "msg_rcode response"]) auto

lemma serve_endpoints_typed:
  "well_typed_reply response (er_name request) (er_rr_type request)
     (snd (serve_endpoints md mem eh r sh response request))"
proof -
  have "well_typed_reply response (er_name request) (er_rr_type request)
      (response\<lparr>msg_answer := shuffle sh (msg_answer response @ fill_headers
         \<lparr>hdr_name = er_name request, hdr_ttl = ttl, hdr_class = class_INET\<rparr> rrs)\<rparr>)"
    if "located_rrs endpoints (er_rr_type request) = Inr rrs" for endpoints rrs ttl
    using that by (intro well_typed_answer [where ttl = ttl and xs = rrs])
      (simp_all add: located_rrs_typed mset_eq_setD [OF mset_shuffle])
  then show ?thesis by (simp add: serve_endpoints_def Let_def split: option.split sum.split)
qed

lemma answer_groups_typed:
  assumes "\<forall>(e, rr) \<in> set xs. rr_type_is t rr"
  shows "well_typed_reply response (gr_name request) t (snd (answer_groups gh r response request xs))"
proof (cases "gh_jitterer gh")
  case (Some j)
  have "well_typed_reply response (gr_name request) t (response\<lparr>msg_answer := msg_answer response @
      fill_headers \<lparr>hdr_name = gr_name request, hdr_ttl = jitter_ttl j r, hdr_class = class_INET\<rparr> xs\<rparr>)"
    by (rule well_typed_answer [OF _ assms]) simp
  with Some show ?thesis by (simp add: answer_groups_def)
qed (simp add: answer_groups_def)

lemma serve_groups_typed:
  "well_typed_reply response (gr_name request) (gr_rr_type request)
     (snd (serve_groups mem gh r response request))"
proof -
  have all: "\<forall>(e, rr) \<in> set (groups_rrs gps type_TXT). rr_type_is type_TXT rr" for gps :: "addr list groups"
    using group_rrs_typed by (fastforce simp: groups_rrs_def)
  show ?thesis
    by (simp add: serve_groups_def answer_groups_typed [OF group_rrs_typed] answer_groups_typed [OF all]
      split: option.split sum.split)
qed

lemma route_typed:
  "well_typed_reply response (hdr_name (rr_header q)) (dn_rr_to_type api q)
     (snd (route md api mem h r sh response q))"
proof -
  have parsed: "er_name (parse_endpoint_request api q d) = hdr_name (rr_header q)"
    "er_rr_type (parse_endpoint_request api q d) = dn_rr_to_type api q"
    "gr_name (parse_group_request api q d) = hdr_name (rr_header q)"
    "gr_rr_type (parse_group_request api q d) = dn_rr_to_type api q" for d
    by (simp_all add: parse_endpoint_request_def parse_group_request_def Let_def)
  note endpoints = serve_endpoints_typed [of response "parse_endpoint_request api q d" for d, simplified parsed]
    and groups = serve_groups_typed [of response "parse_group_request api q d" for d, simplified parsed]
  show ?thesis
    by (simp add: route_def unhandled_def endpoints groups split: option.split)
qed

section \<open>Properties\<close>

text \<open>
  Property C20: responses are well-typed. Whatever the request and whether or not a handler
  panics, the response that is packed and sent is the prepared reply with possibly another
  response code and a longer answer. Every record that was added answers the one question of
  the request: it has that question's type and name, the class IN, and all have the same TTL;
  a request that does not have exactly one question gets no records.
\<close>

theorem served_records_typed:
  "let reply = start_operation api original;
       (panic, response, bytes) = serve_dns md api mem h r sh original
   in bytes = finish api response \<and>
      (case msg_question original of
         [q] \<Rightarrow> well_typed_reply reply (hdr_name (rr_header q)) (dn_rr_to_type api q) response
       | _ \<Rightarrow> response = reply\<lparr>msg_rcode := rcode_refused\<rparr>)"
proof -
  have "well_typed_reply reply (hdr_name (rr_header q)) (dn_rr_to_type api q)
      (snd (route md api mem h r sh reply q))" for reply q
    by (rule route_typed)
  then show ?thesis
    by (cases "msg_question original"; cases "tl (msg_question original)")
      (auto simp: serve_dns_def get_question_def Let_def split_def)
qed

end
