(* ===== verification/Start_Up.thy ===== *)
theory Start_Up
  imports Wiring Answer_Types
begin

text \<open>
  Start-up (the injector's run over the constructors of \<open>Wiring\<close>): it ends, and whatever order
  the constructors run in, it ends in the state that the reference start-up \<open>boot\<close> describes.
\<close>

section \<open>What the constructors return\<close>

lemma provide_locator_eq:
  "provide_locator ex gcfg =
    (let loc = zero_locator (md_vnodes (ex_medley ex) (ex_builder ex) (gc_vnodes gcfg)) in Inr (loc, [loc]))"
  by (simp add: provide_locator_def new_locator_def with_vnodes_def zero_locator_def Let_def)

lemma provide_file_ingester_ok: "\<exists>fi. provide_file_ingester ex gcfg ls = Inr fi \<and> fi_listeners fi = ls \<and>
    \<not> fi_first fi"
  by (simp add: provide_file_ingester_def new_file_ingester_configured Let_def)

lemma provide_ingest_checker_eq:
  "provide_ingest_checker gcfg hooks =
    Inr (\<lparr>ic_interval = (if gc_check_interval gcfg \<le> 0 then default_check_interval
       else gc_check_interval gcfg), ic_ingester = Some ()\<rparr>, hooks @ [CheckerHook])"
  by (simp add: provide_ingest_checker_def new_ingest_checker_configured default_check_interval_def)

lemma provide_endpoint_handler_eq:
  "provide_endpoint_handler ex j = Inr \<lparr>eh_locator = Some the_locator, eh_jitterer = Some j\<rparr>"
  by (simp add: provide_endpoint_handler_def new_endpoint_handler_def with_endpoint_locator_def
    with_endpoint_jitterer_def)

lemma provide_group_handler_eq:
  "provide_group_handler ex j = Inr \<lparr>gh_locator = Some the_locator, gh_jitterer = Some j\<rparr>"
  by (simp add: provide_group_handler_def new_group_handler_def with_group_locator_def
    with_group_jitterer_def)

lemma provide_handler_eq:
  "provide_handler ex zcfg l eh gh =
    (let zone = (if dn_fqdn (ex_dns ex) (zc_domain zcfg) = [] then ''hashy.net''
       else dn_fqdn (ex_dns ex) (zc_domain zcfg))
     in Inr \<lparr>h_logger = Some l, h_zone_domain = zone,
       h_endpoint_domain = dn_join (ex_dns ex) ''endpoint'' zone, h_endpoint_handler = Some eh,
       h_group_domain = dn_join (ex_dns ex) ''group'' zone, h_group_handler = Some gh\<rparr>)"
  by (simp add: provide_handler_def handler_configured Let_def)

text \<open>The hooks of a bundle come after those that are there already.\<close>

lemma provide_bundle_hooks:
  "provide_bundle ex dcfg l h hooks =
     map_sum id (\<lambda>(b, hs). (b, hooks @ hs)) (provide_bundle ex dcfg l h [])"
  by (simp add: provide_bundle_def Let_def split: prod.split option.split)

section \<open>One component is built at a time\<close>

fun same_value ::
  "('b, 'r, 'l, 'c, 'u) app \<Rightarrow> ('b, 'r, 'l, 'c, 'u) app \<Rightarrow> component \<Rightarrow> bool" where
  "same_value s t MainConfig \<longleftrightarrow> ap_config t = ap_config s"
| "same_value s t BaseLogger \<longleftrightarrow> ap_logger t = ap_logger s"
| "same_value s t TheLocator \<longleftrightarrow> ap_locator t = ap_locator s"
| "same_value s t Ingester \<longleftrightarrow> ap_ingester t = ap_ingester s"
| "same_value s t Checker \<longleftrightarrow> ap_checker t = ap_checker s"
| "same_value s t Jitterer \<longleftrightarrow> ap_jitterer t = ap_jitterer s"
| "same_value s t EndpointPart \<longleftrightarrow> ap_endpoint t = ap_endpoint s"
| "same_value s t GroupPart \<longleftrightarrow> ap_group t = ap_group s"
| "same_value s t BaseHandler \<longleftrightarrow> ap_handler t = ap_handler s"
| "same_value s t ServerBundle \<longleftrightarrow> ap_bundle t = ap_bundle s"

lemma construct_frame: "d \<noteq> c \<Longrightarrow> same_value s (construct ex cl c s) d"
  by (cases c; cases d; simp split: sum.split prod.split)

lemma construct_invoked: "ap_invoked (construct ex cl c s) = ap_invoked s"
  by (cases c; simp split: sum.split prod.split)

lemma same_value_built: "same_value s t c \<Longrightarrow> built t c = built s c"
  by (cases c) simp_all

text \<open>The value of a built component is what its constructor returns for the values of its parameters.\<close>

fun made ::
  "('b, 'q, 'r, 'm, 'e, 'l, 'f, 'c, 'x, 'u) externals \<Rightarrow> command_line \<Rightarrow> ('b, 'r, 'l, 'c, 'u) app
    \<Rightarrow> component \<Rightarrow> bool" where
  "made ex cl s MainConfig \<longleftrightarrow> provide_main ex = Inr (the (ap_config s))"
| "made ex cl s BaseLogger \<longleftrightarrow>
     provide_base_logger ex (decorate_sallust ex cl (provide_logging (the (ap_config s)))) = Inr (the (ap_logger s))"
| "made ex cl s TheLocator \<longleftrightarrow> provide_locator ex (app_groups cl s) = Inr (the (ap_locator s))"
| "made ex cl s Ingester \<longleftrightarrow>
     (\<exists>fi. provide_file_ingester ex (app_groups cl s) (snd (the (ap_locator s))) = Inr fi \<and>
        (if ap_invoked s = 0 then ap_ingester s = Some fi
         else initial_ingest ex fi = Inr (the (ap_ingester s))))"
| "made ex cl s Checker \<longleftrightarrow>
     map_sum id fst (provide_ingest_checker (app_groups cl s) [] :: 'u start_error + unit ingest_checker \<times> hook list) =
       Inr (the (ap_checker s))"
| "made ex cl s Jitterer \<longleftrightarrow> provide_jitterer ex (app_zone s) = Inr (the (ap_jitterer s))"
| "made ex cl s EndpointPart \<longleftrightarrow> provide_endpoint_handler ex (the (ap_jitterer s)) = Inr (the (ap_endpoint s))"
| "made ex cl s GroupPart \<longleftrightarrow> provide_group_handler ex (the (ap_jitterer s)) = Inr (the (ap_group s))"
| "made ex cl s BaseHandler \<longleftrightarrow>
     provide_handler ex (app_zone s) (the (ap_logger s)) (the (ap_endpoint s)) (the (ap_group s)) =
       Inr (the (ap_handler s))"
| "made ex cl s ServerBundle \<longleftrightarrow>
     map_sum id fst (provide_bundle ex (app_dns s) (the (ap_logger s)) (the (ap_handler s)) []) =
       Inr (the (ap_bundle s))"

lemma made_cong:
  assumes "same_value s t c" and "\<forall>d \<in> set (params c). same_value s t d" and "ap_invoked t = ap_invoked s"
  shows "made ex cl t c = made ex cl s c"
  using assms by (cases c) (simp_all add: app_groups_def app_zone_def app_dns_def)

lemma construct_made:
  assumes "\<not> built s c" and "ap_invoked s = 0 \<or> c \<noteq> Ingester" and "ap_error (construct ex cl c s) = None"
  shows "built (construct ex cl c s) c \<and> made ex cl (construct ex cl c s) c"
proof (cases c)
  case Ingester
  with assms(1,2) show ?thesis
    using provide_file_ingester_ok [of ex "app_groups cl s" "snd (the (ap_locator s))"]
    by (auto simp: app_groups_def)
next
  case ServerBundle
  with assms show ?thesis
    using provide_bundle_hooks [of ex "app_dns s" "the (ap_logger s)" "the (ap_handler s)" "ap_hooks s"]
    by (cases "provide_bundle ex (app_dns s) (the (ap_logger s)) (the (ap_handler s)) []")
      (auto simp: app_dns_def)
qed (use assms in \<open>auto simp: app_groups_def app_zone_def app_dns_def provide_locator_eq Let_def
    provide_ingest_checker_eq split: sum.splits\<close>)

section \<open>The invariant\<close>

definition bundle_hooks ::
  "('b, 'q, 'r, 'm, 'e, 'l, 'f, 'c, 'x, 'u) externals \<Rightarrow> 'l server_bundle \<Rightarrow> hook list" where
  "bundle_hooks ex m = map (\<lambda>i. ServerHook (info_name i)) (bind_to_lifecycle (ex_range ex) m)"

definition hooks_ok ::
  "('b, 'q, 'r, 'm, 'e, 'l, 'f, 'c, 'x, 'u) externals \<Rightarrow> ('b, 'r, 'l, 'c, 'u) app \<Rightarrow> bool" where
  "hooks_ok ex s \<longleftrightarrow>
     ap_hooks s = (if built s Checker then [CheckerHook] else []) @
       (case ap_bundle s of None \<Rightarrow> [] | Some m \<Rightarrow> bundle_hooks ex m) \<and>
     (built s ServerBundle \<longrightarrow> built s Checker)"

definition app_ok ::
  "('b, 'q, 'r, 'm, 'e, 'l, 'f, 'c, 'x, 'u) externals \<Rightarrow> command_line \<Rightarrow> ('b, 'r, 'l, 'c, 'u) app \<Rightarrow> bool" where
  "app_ok ex cl s \<longleftrightarrow>
     (\<forall>c. built s c \<longrightarrow> (\<forall>d \<in> set (params c). built s d) \<and> made ex cl s c) \<and>
     hooks_ok ex s \<and> ap_invoked s \<le> 4 \<and>
     (\<forall>k < ap_invoked s. \<forall>c \<in> set (invoke_params k). built s c) \<and>
     (\<forall>err. ap_error s = Some err \<longrightarrow> boot ex cl = Inl err)"

text \<open>Only the third invoked function needs the servers, and only the second the checker.\<close>

lemma not_param [simp]: "ServerBundle \<notin> set (params c)"
  by (cases c) simp_all

lemma needed_bundle: "needed k ServerBundle \<Longrightarrow> k = 2"
proof (erule needed.cases)
  fix c assume "ServerBundle = c" and "c \<in> set (invoke_params k)"
  then show "k = 2" by (cases k rule: invoke_params.cases) auto
qed auto

lemma new_app_fields [simp]: "ap_error new_app = None" "ap_invoked new_app = 0"
  by (simp_all add: new_app_def)

lemma new_app_built [simp]: "\<not> built new_app c"
  by (cases c) (simp_all add: new_app_def)

lemma app_ok_new: "app_ok ex cl new_app"
  by (simp add: app_ok_def hooks_ok_def) (simp add: new_app_def)

text \<open>An error that a constructor reports is the error of the reference start-up.\<close>

lemma construct_error:
  assumes ok: "app_ok ex cl s" and deps: "\<forall>d \<in> set (params c). built s d" and "ap_error s = None"
    and err: "ap_error (construct ex cl c s) = Some err"
  shows "boot ex cl = Inl err"
proof -
  have made: "made ex cl s d" and closed: "\<forall>d' \<in> set (params d). built s d'" if "built s d" for d
    using ok that by (simp_all add: app_ok_def)
  have config: "provide_main ex = Inr (the (ap_config s))" if "built s MainConfig"
    using made [OF that] by simp
  have logger: "provide_base_logger ex (decorate_sallust ex cl (provide_logging (the (ap_config s)))) =
      Inr (the (ap_logger s))" if "built s BaseLogger"
    using made [OF that] by simp
  show ?thesis
  proof (cases c)
    case MainConfig
    with err assms(3) show ?thesis by (auto simp: boot_def split: sum.splits)
  next
    case BaseLogger
    with err assms(3) deps config show ?thesis by (auto simp: boot_def split: sum.splits)
  next
    case Jitterer
    with err assms(3) deps config logger show ?thesis
      by (auto simp: boot_def app_zone_def app_dns_def split: sum.splits)
  next
    case ServerBundle
    have b: "built s MainConfig" "built s BaseLogger" "built s BaseHandler" using deps ServerBundle by simp_all
    have e: "built s EndpointPart" "built s GroupPart" using closed [OF b(3)] by simp_all
    have j: "built s Jitterer" using closed [OF e(1)] by simp
    have parts: "provide_jitterer ex (app_zone s) = Inr (the (ap_jitterer s))"
      "the (ap_endpoint s) = \<lparr>eh_locator = Some the_locator, eh_jitterer = ap_jitterer s\<rparr>"
      "the (ap_group s) = \<lparr>gh_locator = Some the_locator, gh_jitterer = ap_jitterer s\<rparr>"
      "provide_handler ex (app_zone s) (the (ap_logger s)) (the (ap_endpoint s)) (the (ap_group s)) =
        Inr (the (ap_handler s))"
      using made [OF j] made [OF e(1)] made [OF e(2)] made [OF b(3)] j
      by (auto simp: provide_endpoint_handler_eq provide_group_handler_eq)
    have "provide_bundle ex (app_dns s) (the (ap_logger s)) (the (ap_handler s)) [] = Inl err"
      using err assms(3) ServerBundle
        provide_bundle_hooks [of ex "app_dns s" "the (ap_logger s)" "the (ap_handler s)" "ap_hooks s"]
      by (cases "provide_bundle ex (app_dns s) (the (ap_logger s)) (the (ap_handler s)) []") auto
    then have "provide_bundle ex (app_dns s) (the (ap_logger s)) (the (ap_handler s)) [CheckerHook] = Inl err"
      using provide_bundle_hooks [of ex "app_dns s" "the (ap_logger s)" "the (ap_handler s)" "[CheckerHook]"] by simp
    with config [OF b(1)] logger [OF b(2)] parts j show ?thesis
      by (auto simp: boot_def app_zone_def app_dns_def Let_def)
  qed (use err assms(3) in \<open>auto simp: provide_locator_eq provide_ingest_checker_eq provide_endpoint_handler_eq
      provide_group_handler_eq provide_handler_eq Let_def split: sum.splits\<close>)
qed

lemma construct_built:
  assumes "ap_error (construct ex cl c s) = None" and "\<not> built s c" and "ap_invoked s = 0 \<or> c \<noteq> Ingester"
  shows "built (construct ex cl c s) d \<longleftrightarrow> d = c \<or> built s d"
  using construct_made [OF assms(2,3,1)] construct_frame [of d c s ex cl]
  by (cases "d = c") (auto dest: same_value_built)

lemma construct_hooks:
  assumes "hooks_ok ex s" and "\<not> built s c" and "ap_error (construct ex cl c s) = None"
    and "c = ServerBundle \<longrightarrow> built s Checker"
  shows "hooks_ok ex (construct ex cl c s)"
proof (cases c)
  case ServerBundle
  with assms show ?thesis
    by (auto simp: hooks_ok_def provide_bundle_def bundle_hooks_def Let_def split: prod.splits option.splits sum.splits)
qed (use assms in \<open>auto simp: hooks_ok_def provide_ingest_checker_eq split: sum.splits\<close>)

lemma failed_construct_same:
  assumes "ap_error s = None" and "ap_error (construct ex cl c s) = Some err"
  shows "construct ex cl c s = s\<lparr>ap_error := Some err\<rparr>"
  using assms by (cases c) (auto split: sum.splits prod.splits)

lemma app_ok_failed:
  assumes ok: "app_ok ex cl s" and boot: "boot ex cl = Inl err"
  shows "app_ok ex cl (s\<lparr>ap_error := Some err\<rparr>)"
proof -
  have b: "built (s\<lparr>ap_error := Some err\<rparr>) d = built s d" for d by (cases d) simp_all
  have m: "made ex cl (s\<lparr>ap_error := Some err\<rparr>) d = made ex cl s d" for d
    by (cases d) (simp_all add: app_groups_def app_zone_def app_dns_def)
  have "hooks_ok ex (s\<lparr>ap_error := Some err\<rparr>)" using ok by (simp add: app_ok_def hooks_ok_def)
  with ok boot show ?thesis by (simp add: app_ok_def b m)
qed

lemma app_ok_construct:
  assumes ok: "app_ok ex cl s" and "ap_error s = None" and new: "\<not> built s c"
    and need: "needed (ap_invoked s) c" and deps: "\<forall>d \<in> set (params c). built s d"
  shows "app_ok ex cl (construct ex cl c s)"
proof (cases "ap_error (construct ex cl c s)")
  case (Some err)
  show ?thesis
    unfolding failed_construct_same [OF assms(2) Some]
    by (rule app_ok_failed [OF ok construct_error [OF ok deps assms(2) Some]])
next
  case None
  let ?t = "construct ex cl c s"
  have invoked: "\<forall>k < ap_invoked s. \<forall>d \<in> set (invoke_params k). built s d"
    using ok unfolding app_ok_def by blast
  have inv: "ap_invoked s = 0 \<or> c \<noteq> Ingester" using spec [OF invoked, of 0] new by auto
  note b = construct_built [OF None new inv]
  have "c = ServerBundle \<longrightarrow> built s Checker"
    using spec [OF invoked, of "Suc 0"] needed_bundle [of "ap_invoked s"] need by auto
  then have hooks: "hooks_ok ex ?t" using construct_hooks [OF _ new None] ok by (simp add: app_ok_def)
  have "(\<forall>d' \<in> set (params d). built ?t d') \<and> made ex cl ?t d" if "built ?t d" for d
  proof (cases "d = c")
    case True
    with construct_made [OF new inv None] deps show ?thesis by (simp add: b)
  next
    case False
    with that have d: "\<forall>d' \<in> set (params d). built s d'" "made ex cl s d" using ok by (simp_all add: b app_ok_def)
    have "\<forall>d' \<in> set (params d). same_value s ?t d'"
    proof
      fix d' assume "d' \<in> set (params d)"
      with d(1) new have "d' \<noteq> c" by auto
      then show "same_value s ?t d'" by (rule construct_frame)
    qed
    from made_cong [OF construct_frame [OF False] this construct_invoked, where ex = ex and cl = cl] d
    show ?thesis by (simp add: b)
  qed
  moreover have "\<forall>k < ap_invoked s. \<forall>d \<in> set (invoke_params k). built ?t d" using invoked by (simp add: b)
  ultimately show ?thesis
    using ok None hooks by (simp add: app_ok_def construct_invoked)
qed

text \<open>The initial ingest returns: its only listener is a locator.\<close>

lemma initial_ingest_ok:
  assumes "fi_listeners fi = [zero_locator b]"
  shows "\<exists>fi'. initial_ingest ex fi = Inr fi' \<and> fi_listeners fi' =
    [case scan (initial_env ex) fi of
       Inl err \<Rightarrow> zero_locator b
     | Inr (rrs, bytes) \<Rightarrow>
         if changed fi bytes
         then published (ex_medley ex) b (Some (build_from (ex_growth ex) (ex_orders ex) (fi_domain fi) rrs))
         else zero_locator b]"
proof -
  have "\<forall>l \<in> set (fi_listeners fi). is_published (ex_medley ex) b l"
    using assms by (simp add: is_published_def published_def)
  from ingest_locators [OF this, of "ex_growth ex" "ex_orders ex" "initial_env ex"] show ?thesis
    unfolding initial_ingest_def assms by (cases "scan (initial_env ex) fi") (auto split: prod.splits)
qed

lemma app_okD:
  assumes "app_ok ex cl s" and "built s c"
  shows "\<forall>d \<in> set (params c). built s d" and "made ex cl s c"
  using assms by (simp_all add: app_ok_def)

lemma made_locator:
  assumes "app_ok ex cl s" and "built s TheLocator"
  shows "the (ap_locator s) =
    (let loc = zero_locator (md_vnodes (ex_medley ex) (ex_builder ex) (gc_vnodes (app_groups cl s))) in (loc, [loc]))"
  using app_okD(2) [OF assms] by (simp add: provide_locator_eq Let_def)

lemma made_ingester:
  assumes "app_ok ex cl s" and "built s Ingester"
  shows "\<exists>fi b. b = md_vnodes (ex_medley ex) (ex_builder ex) (gc_vnodes (app_groups cl s)) \<and>
    snd (the (ap_locator s)) = [zero_locator b] \<and>
    provide_file_ingester ex (app_groups cl s) [zero_locator b] = Inr fi \<and>
    fi_listeners fi = [zero_locator b] \<and> \<not> fi_first fi \<and>
    (if ap_invoked s = 0 then ap_ingester s = Some fi else initial_ingest ex fi = Inr (the (ap_ingester s)))"
proof -
  have "built s TheLocator" using app_okD(1) [OF assms] by simp
  from made_locator [OF assms(1) this] have loc: "snd (the (ap_locator s)) =
      [zero_locator (md_vnodes (ex_medley ex) (ex_builder ex) (gc_vnodes (app_groups cl s)))]"
    by (simp add: Let_def)
  obtain fi where fi: "provide_file_ingester ex (app_groups cl s) (snd (the (ap_locator s))) = Inr fi"
    "fi_listeners fi = snd (the (ap_locator s))" "\<not> fi_first fi"
    using provide_file_ingester_ok by blast
  have "if ap_invoked s = 0 then ap_ingester s = Some fi else initial_ingest ex fi = Inr (the (ap_ingester s))"
    using app_okD(2) [OF assms] fi(1) by simp
  with fi loc show ?thesis by auto
qed

lemma invoke_ingest:
  assumes ok: "app_ok ex cl s" and "ap_invoked s = 0" and ing: "built s Ingester"
  shows "\<exists>fi'. run_invoke ex s = s\<lparr>ap_ingester := Some fi', ap_invoked := 1\<rparr> \<and>
    made ex cl (s\<lparr>ap_ingester := Some fi', ap_invoked := 1\<rparr>) Ingester"
proof -
  obtain fi b where fi: "snd (the (ap_locator s)) = [zero_locator b]"
    "provide_file_ingester ex (app_groups cl s) [zero_locator b] = Inr fi"
    "fi_listeners fi = [zero_locator b]" "ap_ingester s = Some fi"
    using made_ingester [OF ok ing] assms(2) by auto
  obtain fi' where fi': "initial_ingest ex fi = Inr fi'" using initial_ingest_ok [OF fi(3), of ex] by blast
  have "run_invoke ex s = s\<lparr>ap_ingester := Some fi', ap_invoked := 1\<rparr>"
    using assms(2) fi(4) fi' by (simp add: run_invoke_def)
  moreover have "made ex cl (s\<lparr>ap_ingester := Some fi', ap_invoked := 1\<rparr>) Ingester"
    using fi(1,2) fi' by (simp add: app_groups_def)
  ultimately show ?thesis by blast
qed

lemma app_ok_invoke:
  assumes ok: "app_ok ex cl s" and "ap_error s = None" and "ap_invoked s < 4"
    and deps: "\<forall>d \<in> set (invoke_params (ap_invoked s)). built s d"
  shows "app_ok ex cl (run_invoke ex s) \<and> ap_invoked (run_invoke ex s) = Suc (ap_invoked s) \<and>
    (\<forall>d. built (run_invoke ex s) d = built s d) \<and> ap_error (run_invoke ex s) = None"
proof (cases "ap_invoked s = 0")
  case True
  with deps have ing: "built s Ingester" by simp
  obtain fi' where t: "run_invoke ex s = s\<lparr>ap_ingester := Some fi', ap_invoked := 1\<rparr>"
    and m: "made ex cl (s\<lparr>ap_ingester := Some fi', ap_invoked := 1\<rparr>) Ingester"
    using invoke_ingest [OF ok True ing] by blast
  let ?t = "s\<lparr>ap_ingester := Some fi', ap_invoked := 1\<rparr>"
  have b: "built ?t d = built s d" for d using ing by (cases d) simp_all
  have "made ex cl ?t d" if "built s d" for d
  proof (cases "d = Ingester")
    case False
    have "made ex cl s d" using app_okD(2) [OF ok that] .
    with False show ?thesis by (cases d) (simp_all add: app_groups_def app_zone_def app_dns_def)
  qed (use m in simp)
  moreover have "hooks_ok ex ?t" using ok by (simp add: app_ok_def hooks_ok_def)
  ultimately have "app_ok ex cl ?t"
    using app_okD(1) [OF ok] ing assms(2) unfolding app_ok_def b by simp
  with t b assms(2) True show ?thesis by simp
next
  case False
  let ?t = "s\<lparr>ap_invoked := Suc (ap_invoked s)\<rparr>"
  have t: "run_invoke ex s = ?t" using False by (simp add: run_invoke_def)
  have b: "built ?t d = built s d" for d by (cases d) simp_all
  have m: "made ex cl ?t d = made ex cl s d" for d
    using False by (cases d) (simp_all add: app_groups_def app_zone_def app_dns_def)
  have "hooks_ok ex ?t" using ok by (simp add: app_ok_def hooks_ok_def)
  moreover have "\<forall>k < Suc (ap_invoked s). \<forall>c \<in> set (invoke_params k). built s c"
    using ok deps by (auto simp: app_ok_def less_Suc_eq)
  ultimately have "app_ok ex cl ?t" using ok assms(2,3) unfolding app_ok_def b m by simp
  with t b assms(2) show ?thesis by simp
qed


section \<open>Every run of start-up\<close>

lemma fx_step_ok:
  assumes "app_ok ex cl s" and "fx_step ex cl s s'"
  shows "app_ok ex cl s'"
  using assms(2,1) by cases (simp_all add: app_ok_construct app_ok_invoke)

text \<open>What is left to do: the constructors not yet called and the functions not yet invoked.\<close>

definition all_components :: "component list" where
  "all_components =
     [MainConfig, BaseLogger, TheLocator, Ingester, Checker, Jitterer, EndpointPart, GroupPart,
      BaseHandler, ServerBundle]"

definition start_left :: "('b, 'r, 'l, 'c, 'u) app \<Rightarrow> nat" where
  "start_left s =
     (if ap_error s = None then length (filter (\<lambda>c. \<not> built s c) all_components) + (4 - ap_invoked s) else 0)"

lemma in_all_components [simp]: "c \<in> set all_components"
  by (cases c) (simp_all add: all_components_def)

lemma start_left_new [simp]: "start_left new_app = 14"
  by (simp add: start_left_def del: built.simps) (simp add: all_components_def)

lemma fewer_left:
  assumes "\<And>d. P d \<Longrightarrow> Q d" and "c \<in> set xs" and "Q c" and "\<not> P c"
  shows "length (filter P xs) < length (filter Q xs)"
  using assms(2)
proof (induction xs)
  case (Cons x xs)
  have "length (filter P xs) \<le> length (filter Q xs)" for xs
    using assms(1) by (induction xs) auto
  from this [of xs] Cons show ?case using assms(1) [of x] assms(3,4) by auto
qed simp

lemma fx_step_decreases:
  assumes ok: "app_ok ex cl s" and step: "fx_step ex cl s s'"
  shows "start_left s' < start_left s"
  using step
proof cases
  case (construct c)
  show ?thesis
  proof (cases "ap_error s'")
    case None
    with construct ok have inv: "ap_invoked s = 0 \<or> c \<noteq> Ingester" by (auto simp: app_ok_def)
    note b = construct_built [OF _ construct(5) inv]
    have "length (filter (\<lambda>d. \<not> built s' d) all_components) < length (filter (\<lambda>d. \<not> built s d) all_components)"
      using None construct(1,5) by (intro fewer_left [of _ _ c]) (simp_all add: b)
    with None construct(1,2) show ?thesis by (simp add: start_left_def construct_invoked)
  next
    case (Some err)
    with construct(2,3) show ?thesis by (simp add: start_left_def)
  qed
next
  case invoke
  with app_ok_invoke [OF ok invoke(2-)] show ?thesis by (simp add: start_left_def)
qed

interpretation fx: bounded_system "fx_step ex cl" "app_ok ex cl" start_left for ex cl
  by unfold_locales (rule fx_step_ok fx_step_decreases; assumption)+

lemma fx_steps_ok: "(fx_step ex cl)\<^sup>*\<^sup>* new_app s \<Longrightarrow> app_ok ex cl s"
  using app_ok_new by (rule fx.steps_inv [rotated])

lemma start_left_steps:
  assumes "(fx_step ex cl ^^ n) new_app s"
  shows "app_ok ex cl s \<and> start_left s + n \<le> 14"
  using fx.count_inv [OF assms app_ok_new] fx.bounded [OF assms app_ok_new] by simp

text \<open>As long as no error is reported and not everything is invoked, there is a step.\<close>

fun depth :: "component \<Rightarrow> nat" where
  "depth MainConfig = 0"
| "depth BaseLogger = 1"
| "depth TheLocator = 2"
| "depth Ingester = 3"
| "depth Checker = 4"
| "depth Jitterer = 2"
| "depth EndpointPart = 3"
| "depth GroupPart = 3"
| "depth BaseHandler = 4"
| "depth ServerBundle = 5"

lemma params_depth: "d \<in> set (params c) \<Longrightarrow> depth d < depth c"
  by (cases c) auto

lemma first_unbuilt:
  assumes "needed k c" and "\<not> built s c"
  shows "\<exists>d. needed k d \<and> \<not> built s d \<and> (\<forall>e \<in> set (params d). built s e)"
  using assms
proof (induction "depth c" arbitrary: c rule: less_induct)
  case less
  show ?case
  proof (cases "\<forall>e \<in> set (params c). built s e")
    case False
    then obtain e where "e \<in> set (params c)" "\<not> built s e" by blast
    with less show ?thesis using params_depth needed.indirect by blast
  qed (use less.prems in blast)
qed

lemma fx_progress:
  assumes "ap_error s = None" and "ap_invoked s < 4"
  shows "\<exists>s'. fx_step ex cl s s'"
proof (cases "\<forall>d \<in> set (invoke_params (ap_invoked s)). built s d")
  case True
  with assms show ?thesis using fx_step.invoke by blast
next
  case False
  then obtain c where "needed (ap_invoked s) c" "\<not> built s c" using needed.direct by blast
  from first_unbuilt [OF this] assms show ?thesis using fx_step.construct by blast
qed

lemma fx_stuck: "(\<nexists>s'. fx_step ex cl s s') \<longleftrightarrow> ap_error s \<noteq> None \<or> 4 \<le> ap_invoked s"
  using fx_progress [of s ex cl] by (metis fx_stepE not_le)

text \<open>A finished start-up without an error has everything built.\<close>

lemma all_built:
  assumes ok: "app_ok ex cl s" and "4 \<le> ap_invoked s"
  shows "built s c"
proof -
  have inv: "\<forall>k < ap_invoked s. \<forall>c \<in> set (invoke_params k). built s c" using ok unfolding app_ok_def by blast
  have ing: "built s Ingester" using spec [OF inv, of 0] assms(2) by simp
  have chk: "built s Checker" using spec [OF inv, of "Suc 0"] assms(2) by simp
  have sb: "built s ServerBundle" using spec [OF inv, of "Suc (Suc 0)"] assms(2) by simp
  have h: "built s BaseHandler" using app_okD(1) [OF ok sb] by simp
  have e: "built s EndpointPart" "built s GroupPart" using app_okD(1) [OF ok h] by simp_all
  have "built s Jitterer" using app_okD(1) [OF ok e(1)] by simp
  with ing chk sb h e app_okD(1) [OF ok ing] show ?thesis by (cases c) simp_all
qed


lemma finished_outcome:
  assumes ok: "app_ok ex cl s" and stuck: "\<nexists>s'. fx_step ex cl s s'"
  shows "outcome s = boot ex cl"
proof (cases "ap_error s")
  case (Some err)
  with ok have "boot ex cl = Inl err" by (simp add: app_ok_def)
  with Some show ?thesis by (simp add: outcome_def)
next
  case None
  with stuck [unfolded fx_stuck] have "4 \<le> ap_invoked s" by simp
  note built = all_built [OF ok this] and invoked = this
  note made = app_okD(2) [OF ok built]
  obtain fi b where fi: "b = md_vnodes (ex_medley ex) (ex_builder ex) (gc_vnodes (app_groups cl s))"
    "provide_file_ingester ex (app_groups cl s) [zero_locator b] = Inr fi"
    "initial_ingest ex fi = Inr (the (ap_ingester s))"
    using made_ingester [OF ok built [of Ingester]] invoked by auto
  have eh: "the (ap_endpoint s) = \<lparr>eh_locator = Some the_locator, eh_jitterer = Some (the (ap_jitterer s))\<rparr>"
    "the (ap_group s) = \<lparr>gh_locator = Some the_locator, gh_jitterer = Some (the (ap_jitterer s))\<rparr>"
    using made [of EndpointPart] made [of GroupPart]
    by (simp_all add: provide_endpoint_handler_eq provide_group_handler_eq)
  have hooks: "ap_hooks s = CheckerHook # bundle_hooks ex (the (ap_bundle s))"
    using ok built [of Checker] built [of ServerBundle] by (auto simp: app_ok_def hooks_ok_def)
  obtain hs where b: "provide_bundle ex (app_dns s) (the (ap_logger s)) (the (ap_handler s)) [] =
      Inr (the (ap_bundle s), hs)"
    using made [of ServerBundle]
    by (cases "provide_bundle ex (app_dns s) (the (ap_logger s)) (the (ap_handler s)) []") auto
  then have "hs = bundle_hooks ex (the (ap_bundle s))"
    by (auto simp: provide_bundle_def bundle_hooks_def Let_def split: prod.splits option.splits)
  with b have b: "provide_bundle ex (app_dns s) (the (ap_logger s)) (the (ap_handler s)) [CheckerHook] =
      Inr (the (ap_bundle s), ap_hooks s)"
    using provide_bundle_hooks [of ex "app_dns s" "the (ap_logger s)" "the (ap_handler s)" "[CheckerHook]"]
    by (simp add: hooks)
  have parts: "provide_main ex = Inr (the (ap_config s))"
    "provide_base_logger ex (decorate_sallust ex cl (provide_logging (the (ap_config s)))) =
      Inr (the (ap_logger s))"
    "provide_jitterer ex (app_zone s) = Inr (the (ap_jitterer s))"
    "provide_handler ex (app_zone s) (the (ap_logger s)) (the (ap_endpoint s)) (the (ap_group s)) =
      Inr (the (ap_handler s))"
    using made [of MainConfig] made [of BaseLogger] made [of Jitterer] made [of BaseHandler] by simp_all
  have "the (ap_checker s) = \<lparr>ic_interval = (if gc_check_interval (app_groups cl s) \<le> 0
      then default_check_interval else gc_check_interval (app_groups cl s)), ic_ingester = Some ()\<rparr>"
    using made [of Checker] by (simp add: provide_ingest_checker_eq)
  with None b parts fi eh show ?thesis
    by (simp add: outcome_def boot_def Let_def app_zone_def app_dns_def app_groups_def)
qed

section \<open>The started program\<close>

text \<open>The ingester as constructed, before the initial ingest, and the ring builder of the locator.\<close>

definition first_ingester ::
  "('b, 'q, 'r, 'm, 'e, 'l, 'f, 'c, 'x, 'u) externals \<Rightarrow> command_line \<Rightarrow> ('b, 'r, 'l, 'c, 'u) app
    \<Rightarrow> ('b, 'r) ingester_state" where
  "first_ingester ex cl s = projr (provide_file_ingester ex (app_groups cl s) (snd (the (ap_locator s))))"

definition app_builder ::
  "('b, 'q, 'r, 'm, 'e, 'l, 'f, 'c, 'x, 'u) externals \<Rightarrow> command_line \<Rightarrow> ('b, 'r, 'l, 'c, 'u) app \<Rightarrow> 'b" where
  "app_builder ex cl s = md_vnodes (ex_medley ex) (ex_builder ex) (gc_vnodes (app_groups cl s))"

definition started ::
  "('b, 'q, 'r, 'm, 'e, 'l, 'f, 'c, 'x, 'u) externals \<Rightarrow> command_line \<Rightarrow> ('b, 'r, 'l, 'c, 'u) app \<Rightarrow> bool" where
  "started ex cl s \<longleftrightarrow>
     (fx_step ex cl)\<^sup>*\<^sup>* new_app s \<and> (\<nexists>s'. fx_step ex cl s s') \<and> ap_error s = None"

lemma startedD:
  assumes "started ex cl s"
  shows "app_ok ex cl s" and "4 \<le> ap_invoked s" and "built s c"
proof -
  show ok: "app_ok ex cl s" by (rule fx_steps_ok) (use assms in \<open>simp add: started_def\<close>)
  have "\<nexists>s'. fx_step ex cl s s'" "ap_error s = None" using assms unfolding started_def by blast+
  then show invoked: "4 \<le> ap_invoked s" unfolding fx_stuck by simp
  show "built s c" by (rule all_built [OF ok invoked])
qed

lemma started_locator:
  assumes "started ex cl s"
  shows "app_locator s =
    (case scan (initial_env ex) (first_ingester ex cl s) of
       Inl err \<Rightarrow> zero_locator (app_builder ex cl s)
     | Inr (rrs, bytes) \<Rightarrow> published (ex_medley ex) (app_builder ex cl s)
         (Some (build_from (ex_growth ex) (ex_orders ex) (fi_domain (first_ingester ex cl s)) rrs)))"
proof -
  obtain fi where fi: "first_ingester ex cl s = fi" "fi_listeners fi = [zero_locator (app_builder ex cl s)]"
    "\<not> fi_first fi" "initial_ingest ex fi = Inr (the (ap_ingester s))"
    using made_ingester [OF startedD(1) [OF assms] startedD(3) [OF assms, of Ingester]] startedD(2) [OF assms]
    by (auto simp: first_ingester_def app_builder_def)
  moreover from this have "changed fi bytes" for bytes by (simp add: changed_def)
  ultimately have "fi_listeners (the (ap_ingester s)) =
      [case scan (initial_env ex) fi of
         Inl err \<Rightarrow> zero_locator (app_builder ex cl s)
       | Inr (rrs, bytes) \<Rightarrow> published (ex_medley ex) (app_builder ex cl s)
           (Some (build_from (ex_growth ex) (ex_orders ex) (fi_domain fi) rrs))]"
    using initial_ingest_ok [OF fi(2), of ex] by (cases "scan (initial_env ex) fi") auto
  moreover have "app_locator s = hd (fi_listeners (the (ap_ingester s)))"
    using startedD(3) [OF assms, of Ingester] by (auto simp: app_locator_def)
  ultimately show ?thesis unfolding fi(1) by simp
qed

lemma started_handler:
  assumes "started ex cl s"
  shows "the (ap_handler s) =
    (let api = ex_dns ex; zone = (if dn_fqdn api (zc_domain (app_zone s)) = [] then ''hashy.net''
       else dn_fqdn api (zc_domain (app_zone s)))
     in \<lparr>h_logger = Some (the (ap_logger s)), h_zone_domain = zone,
       h_endpoint_domain = dn_join api ''endpoint'' zone,
       h_endpoint_handler = Some \<lparr>eh_locator = Some the_locator, eh_jitterer = ap_jitterer s\<rparr>,
       h_group_domain = dn_join api ''group'' zone,
       h_group_handler = Some \<lparr>gh_locator = Some the_locator, gh_jitterer = ap_jitterer s\<rparr>\<rparr>)"
proof -
  note made = app_okD(2) [OF startedD(1) [OF assms] startedD(3) [OF assms]]
  have "ap_jitterer s = Some (the (ap_jitterer s))" using startedD(3) [OF assms, of Jitterer] by auto
  then have "the (ap_endpoint s) = \<lparr>eh_locator = Some the_locator, eh_jitterer = ap_jitterer s\<rparr>"
    "the (ap_group s) = \<lparr>gh_locator = Some the_locator, gh_jitterer = ap_jitterer s\<rparr>"
    using made [of EndpointPart] made [of GroupPart]
    by (simp_all add: provide_endpoint_handler_eq provide_group_handler_eq)
  with made [of BaseHandler] show ?thesis by (simp add: provide_handler_eq Let_def)
qed

lemma started_server:
  assumes "started ex cl s" and "gomap_wf (dc_udp (app_dns s))" and "gomap_wf (dc_tcp (app_dns s))"
    and "gomap_lookup (the (ap_bundle s)) server_name = Some i"
  shows "\<exists>l. srv_handler (info_server i) = Some ((the (ap_handler s))\<lparr>h_logger := Some l\<rparr>)"
proof -
  have "made ex cl s ServerBundle" using app_okD(2) [OF startedD(1) [OF assms(1)] startedD(3) [OF assms(1)]] .
  then obtain b where b: "new_bundle (logger_with_server (ex_zap ex)) (ex_fresh ex) (ex_range ex) (app_dns s)
      (the (ap_logger s)) = (b, None)"
    "the (ap_bundle s) = use_handler (zap_nop (ex_zap ex)) (ex_range ex) (the (ap_handler s)) b"
    by (auto simp: provide_bundle_def Let_def split: prod.splits option.splits)
  have "gomap_wf b" using new_bundle_wf [OF assms(2,3) b(1)] .
  with assms(4) b(2) obtain i0 where "i = i0\<lparr>info_server := (info_server i0)\<lparr>srv_handler :=
      Some (clone_handler (zap_nop (ex_zap ex)) (the (ap_handler s)) (info_logger i0))\<rparr>\<rparr>"
    by (auto simp: use_handler_def bundle_update_lookup)
  then show ?thesis by (cases "info_logger i0") (auto simp: clone_handler_def Let_def)
qed

section \<open>Properties\<close>

text \<open>
  Property C26: start-up ends. However the constructors are interleaved, it takes at most fourteen
  calls, and from every state it can reach it goes on to a state in which nothing is left to do.
\<close>

theorem start_up_terminates:
  assumes "(fx_step ex cl ^^ n) new_app s"
  shows "n \<le> 14 \<and> (\<exists>t. (fx_step ex cl)\<^sup>*\<^sup>* s t \<and> (\<nexists>t'. fx_step ex cl t t'))"
  using start_left_steps [OF assms] fx.ranked.finishes [of ex cl s] by simp

text \<open>
  Property C10: start-up does not depend on the order of the constructors. Where it ends, its
  outcome - the first error, or the configuration, loggers, ingester after the initial ingest,
  checker, handlers, servers and lifecycle hooks - is that of the reference start-up, which calls
  the constructors in one fixed order.
\<close>

theorem start_up_confluent:
  assumes "(fx_step ex cl)\<^sup>*\<^sup>* new_app s" and "\<nexists>s'. fx_step ex cl s s'"
  shows "outcome s = boot ex cl"
  using fx_steps_ok [OF assms(1)] assms(2) by (rule finished_outcome)

text \<open>
  Property C29: what can keep the program from starting. An error of start-up is one of the
  configuration, of the logging package, a jitter percent out of range, or a server that cannot be
  configured; in particular the initial ingest neither fails nor panics, whatever the zone files.
\<close>

theorem start_up_errors:
  assumes "(fx_step ex cl)\<^sup>*\<^sup>* new_app s" and "ap_error s = Some err"
  shows "provide_main ex = Inl err \<or>
    (\<exists>m. provide_main ex = Inr m \<and>
      (provide_base_logger ex (decorate_sallust ex cl (provide_logging m)) = Inl err \<or>
       err = JitterError (InvalidJitterPercent (zc_ttl_jitter (provide_zone (provide_dns m)))) \<or>
       (\<exists>l e. err = ServerError e \<and>
          snd (new_bundle (logger_with_server (ex_zap ex)) (ex_fresh ex) (ex_range ex) (provide_dns m) l) = Some e)))"
proof -
  have boot: "boot ex cl = Inl err" using fx_steps_ok [OF assms(1)] assms(2) by (simp add: app_ok_def)
  have jit: "e = JitterError (InvalidJitterPercent (zc_ttl_jitter z))" if "provide_jitterer ex z = Inl e" for z e
    using that by (auto simp: provide_jitterer_def new_ttl_jitterer_def Let_def split: if_splits prod.splits)
  have srv: "\<exists>e'. e = ServerError e' \<and>
      snd (new_bundle (logger_with_server (ex_zap ex)) (ex_fresh ex) (ex_range ex) d l) = Some e'"
    if "provide_bundle ex d l h hooks = Inl e" for d l h hooks e
    using that by (auto simp: provide_bundle_def Let_def split: prod.splits option.splits)
  show ?thesis
    using boot by (auto simp: boot_def Let_def split: sum.splits dest!: jit srv)
qed

text \<open>A program for the witnesses: one zone file, one server.\<close>

definition sample_command_line :: command_line where
  "sample_command_line =
     \<lparr>cl_verbose = False, cl_debug = None, cl_conf_file = [], cl_zone_files = [], cl_check_interval = 0\<rparr>"

definition sample_main :: "unit main_config" where
  "sample_main =
     \<lparr>mc_dns = sample_dns\<lparr>dc_udp := None\<rparr>,
      mc_groups = \<lparr>gc_discovery_domain = ''d'', gc_vnodes = 0, gc_check_interval = 0,
        gc_zone_files = [''*.zone''], gc_origin = [], gc_default_ttl = 0\<rparr>,
      mc_logging = ()\<rparr>"

definition sample_zap :: "(unit, string) zap_api" where
  "sample_zap =
     \<lparr>zap_string = \<lambda>_ _. (), zap_uint16 = \<lambda>_ _. (), zap_uint32 = \<lambda>_ _. (), zap_bool = \<lambda>_ _. (),
      zap_int = \<lambda>_ _. (), zap_skip = (), zap_dict = \<lambda>_ _. (), zap_object = \<lambda>_ _. (),
      zap_with = \<lambda>l _. l, zap_named = \<lambda>l n. n, zap_nop = ''nop''\<rparr>"

definition sample_world_on ::
  "string ingest_env \<Rightarrow> (int, addr list endpoint list, addr list endpoint list, unit, unit, string, unit, unit, string, unit) externals" where
  "sample_world_on env =
     \<lparr>ex_medley = sample_medley, ex_builder = 0, ex_dns = sample_api, ex_zap = sample_zap,
      ex_impl = \<lambda>_. 0, ex_fimpl = \<lambda>_. 0, ex_fresh = sample_server, ex_unmarshal = Inr sample_main,
      ex_build_logger = \<lambda>_. Inr ''root'', ex_level = \<lambda>_. [], ex_set_level = \<lambda>c _. c,
      ex_debug_level = ''debug'', ex_info_level = ''info'', ex_env = env,
      ex_growth = \<lambda>_ n. n, ex_orders = sample_orders, ex_range = \<lambda>ks. ks\<rparr>"

definition sample_world ::
  "(int, addr list endpoint list, addr list endpoint list, unit, unit, string, unit, unit, string, unit) externals" where
  "sample_world = sample_world_on sample_env"

lemma sample_boots:
  "\<exists>b. boot (sample_world_on env) sample_command_line = Inr b \<and> bt_hooks b = [CheckerHook, ServerHook ''dns''] \<and>
    bt_config b = sample_main \<and> (\<exists>i. gomap_lookup (bt_bundle b) ''dns'' = Some i)"
proof -
  have j: "\<exists>j. provide_jitterer (sample_world_on env) (provide_zone (provide_dns sample_main)) = Inr j"
    by (simp add: provide_jitterer_def new_ttl_jitterer_def sample_main_def sample_dns_def provide_zone_def
      provide_dns_def Let_def)
  have b: "\<exists>b. provide_bundle (sample_world_on env) (provide_dns sample_main) l h [CheckerHook] =
      Inr (b, [CheckerHook, ServerHook ''dns'']) \<and> (\<exists>i. gomap_lookup b ''dns'' = Some i)" for l h
    by (simp add: provide_bundle_def sample_main_def sample_dns_def provide_dns_def sample_world_on_def
      new_bundle_def new_tcp_server_def bundle_add_def use_logger_def use_handler_def bundle_update_def
      bind_to_lifecycle_def range_keys_def Let_def)
  from j obtain j where j: "provide_jitterer (sample_world_on env) (provide_zone (provide_dns sample_main)) = Inr j" ..
  obtain bn where bn: "provide_bundle (sample_world_on env) (provide_dns sample_main) ''root''
      (projr (provide_handler (sample_world_on env) (provide_zone (provide_dns sample_main)) ''root''
        \<lparr>eh_locator = Some the_locator, eh_jitterer = Some j\<rparr> \<lparr>gh_locator = Some the_locator, gh_jitterer = Some j\<rparr>))
      [CheckerHook] = Inr (bn, [CheckerHook, ServerHook ''dns''])" "\<exists>i. gomap_lookup bn ''dns'' = Some i"
    using b by blast
  have "provide_main (sample_world_on env) = Inr sample_main" "\<And>c. provide_base_logger (sample_world_on env) c = Inr ''root''"
    by (simp_all add: provide_main_def provide_base_logger_def sample_world_on_def)
  with j bn show ?thesis by (simp add: boot_def Let_def)
qed

lemma sample_started:
  "\<exists>s. started (sample_world_on env) sample_command_line s \<and> the (ap_config s) = sample_main \<and>
    (\<exists>i. gomap_lookup (the (ap_bundle s)) ''dns'' = Some i) \<and> ap_hooks s = [CheckerHook, ServerHook ''dns'']"
proof -
  obtain t where t: "(fx_step (sample_world_on env) sample_command_line)\<^sup>*\<^sup>* new_app t"
    "\<nexists>t'. fx_step (sample_world_on env) sample_command_line t t'"
    using fx.ranked.finishes [OF app_ok_new, of "sample_world_on env" sample_command_line] by blast
  have "outcome t = boot (sample_world_on env) sample_command_line"
    using fx_steps_ok [OF t(1)] t(2) by (rule finished_outcome)
  with sample_boots [of env] have "ap_error t = None \<and> the (ap_config t) = sample_main \<and>
      (\<exists>i. gomap_lookup (the (ap_bundle t)) ''dns'' = Some i) \<and> ap_hooks t = [CheckerHook, ServerHook ''dns'']"
    by (auto simp: outcome_def split: option.splits)
  with t show ?thesis unfolding started_def by blast
qed

lemma sample_first:
  assumes "the (ap_config s) = sample_main"
  shows "first_ingester sample_world sample_command_line s =
    \<lparr>fi_globs = [''*.zone''], fi_origin = [], fi_ttl = 300, fi_domain = ''d.'', fi_first = False,
     fi_checksum = 0, fi_listeners = snd (the (ap_locator s))\<rparr>"
  by (simp add: first_ingester_def provide_file_ingester_def new_file_ingester_configured app_groups_def
    assms sample_main_def sample_command_line_def provide_groups_def decorate_groups_def sample_world_def sample_world_on_def
    sample_env_def Let_def)

lemma sample_first_scan:
  assumes "the (ap_config s) = sample_main"
  shows "scan (initial_env sample_world) (first_ingester sample_world sample_command_line s) =
    Inr (sample_zone, ''a.zoneb.zone'')"
proof -
  have "initial_env sample_world = sample_env"
    by (simp add: initial_env_def sample_world_def sample_world_on_def sample_env_def)
  moreover have "scan sample_env (first_ingester sample_world sample_command_line s) =
      scan sample_env (sample_ingester\<lparr>fi_ttl := 300\<rparr>)"
    by (rule scan_fields) (simp_all add: sample_first [OF assms] sample_ingester_def zero_file_ingester_def)
  moreover have "scan sample_env (sample_ingester\<lparr>fi_ttl := 300\<rparr>) = Inr (sample_zone, ''a.zoneb.zone'')"
    by code_simp
  ultimately show ?thesis by simp
qed

lemma sample_step: "fx_step sample_world sample_command_line new_app (new_app\<lparr>ap_config := Some sample_main\<rparr>)"
proof -
  have need: "needed 0 MainConfig"
    by (rule needed.indirect [of _ Ingester]) (simp_all add: needed.direct)
  have "provide_main sample_world = Inr sample_main"
    by (simp add: provide_main_def sample_world_def sample_world_on_def)
  then have "construct sample_world sample_command_line MainConfig new_app = new_app\<lparr>ap_config := Some sample_main\<rparr>"
    by simp
  moreover have "fx_step sample_world sample_command_line new_app
      (construct sample_world sample_command_line MainConfig new_app)"
    by (rule fx_step.construct) (simp_all add: need del: built.simps construct.simps)
  ultimately show ?thesis by simp
qed

theorem start_up_terminates_witness:
  "\<exists>t. (fx_step sample_world sample_command_line)\<^sup>*\<^sup>* (new_app\<lparr>ap_config := Some sample_main\<rparr>) t \<and>
    (\<nexists>t'. fx_step sample_world sample_command_line t t')"
  using start_up_terminates [of 1 sample_world sample_command_line] sample_step by auto

theorem start_up_confluent_witness:
  "\<exists>t. (fx_step sample_world sample_command_line)\<^sup>*\<^sup>* new_app t \<and> ap_error t = None \<and>
    ap_hooks t = [CheckerHook, ServerHook ''dns'']"
proof -
  obtain t where t: "(fx_step sample_world sample_command_line)\<^sup>*\<^sup>* new_app t"
    "\<nexists>t'. fx_step sample_world sample_command_line t t'"
    using fx.ranked.finishes [OF app_ok_new, of sample_world sample_command_line] by blast
  from start_up_confluent [OF this] sample_boots [of sample_env] have "ap_error t = None \<and> ap_hooks t = [CheckerHook, ServerHook ''dns'']"
    by (auto simp: outcome_def sample_world_def split: option.splits)
  with t(1) show ?thesis by blast
qed


lemma sample_step_fails:
  "fx_step (sample_world\<lparr>ex_unmarshal := Inl ()\<rparr>) sample_command_line new_app (new_app\<lparr>ap_error := Some (ConfigError ())\<rparr>)"
proof -
  have need: "needed 0 MainConfig"
    by (rule needed.indirect [of _ Ingester]) (simp_all add: needed.direct)
  have "fx_step (sample_world\<lparr>ex_unmarshal := Inl ()\<rparr>) sample_command_line new_app
      (construct (sample_world\<lparr>ex_unmarshal := Inl ()\<rparr>) sample_command_line MainConfig new_app)"
    by (rule fx_step.construct) (simp_all add: need del: built.simps construct.simps)
  then show ?thesis by (simp add: provide_main_def)
qed

theorem start_up_errors_witness:
  "provide_main (sample_world\<lparr>ex_unmarshal := Inl ()\<rparr>) = Inl (ConfigError ())"
proof -
  have "(fx_step (sample_world\<lparr>ex_unmarshal := Inl ()\<rparr>) sample_command_line)\<^sup>*\<^sup>* new_app
      (new_app\<lparr>ap_error := Some (ConfigError ())\<rparr>)"
    using sample_step_fails by (rule r_into_rtranclp)
  from start_up_errors [OF this, of "ConfigError ()"] show ?thesis
    by (auto simp: provide_main_def)
qed

end
