(* ===== verification/Lifecycle.thy ===== *)
theory Lifecycle
  imports Start_Up
begin

text \<open>
  The life of the started program: the lifecycle hooks of the ingest checker and of the servers
  (\<open>service/provide.go\<close>, \<open>server/bundle.go\<close>), run by the fx application that
  \<open>cmd/hashy/commandLine.go\<close> builds, and the background ingests in between.

  The application is used by its documented behaviour: the start hooks run one after the other in
  the order in which they were appended; when it is told to shut down, by \<open>Shutdown\<close> or by a
  signal of the operating system, the stop hooks run in the reverse order. \<open>ListenAndServe\<close> of the
  DNS package may return at any time with any result.

  A background ingest takes effect in one step, when the call returns. That is all there is to see
  of it: the theorems show that calls do not overlap here, and a call that does not overlap another
  is the function \<open>ingest\<close> (\<open>call_alone\<close>). The environment \<open>env\<close> of each call is any one: the files
  change, and so does the context.
\<close>

section \<open>States\<close>

datatype phase = Starting nat | Running | Stopping nat | Stopped

datatype 'e server_run = Idle | Serving | Exited "'e option"

text \<open>
  \<open>lf_down\<close> are the servers told to shut down, \<open>lf_signal\<close> whether the application has been told to;
  \<open>lf_scans\<close> records the environments of the ingests so far, latest first.
\<close>

record ('b, 'r, 'x, 'e) life =
  lf_phase :: phase
  lf_checker :: checker_state
  lf_servers :: "string \<Rightarrow> 'e server_run"
  lf_down :: "string set"
  lf_signal :: bool
  lf_ingester :: "('b, 'r) ingester_state"
  lf_scans :: "'x ingest_env list"

definition life_init ::
  "('b, 'q, 'r, 'm, 'e, 'l, 'f, 'c, 'x, 'u) externals \<Rightarrow> ('b, 'r, 'l, 'c, 'u) app \<Rightarrow> ('b, 'r, 'x, 'e) life" where
  "life_init ex a =
     \<lparr>lf_phase = Starting 0, lf_checker = checker_zero, lf_servers = \<lambda>_. Idle, lf_down = {},
      lf_signal = False, lf_ingester = the (ap_ingester a), lf_scans = [initial_env ex]\<rparr>"

section \<open>Hooks\<close>

text \<open>\<open>Info.Stop\<close>: \<open>shutdown\<close> is what \<open>Shutdown\<close> of the DNS package does to the world.\<close>

definition info_stop :: "('l server \<Rightarrow> 'w \<Rightarrow> 'w) \<Rightarrow> 'l info \<Rightarrow> 'w \<Rightarrow> 'w" where
  "info_stop shutdown i w = shutdown (info_server i) w"

fun run_start_hook :: "hook \<Rightarrow> ('b, 'r, 'x, 'e) life \<Rightarrow> ('b, 'r, 'x, 'e) life" where
  "run_start_hook CheckerHook s = s\<lparr>lf_checker := checker_start (lf_checker s)\<rparr>"
| "run_start_hook (ServerHook n) s = s\<lparr>lf_servers := (lf_servers s)(n := Serving)\<rparr>"

fun run_stop_hook ::
  "'l server_bundle \<Rightarrow> hook \<Rightarrow> ('b, 'r, 'x, 'e) life \<Rightarrow> ('b, 'r, 'x, 'e) life" where
  "run_stop_hook m CheckerHook s = s\<lparr>lf_checker := checker_stop (lf_checker s)\<rparr>"
| "run_stop_hook m (ServerHook n) s =
     s\<lparr>lf_down := info_stop (\<lambda>_. insert n) (the (gomap_lookup m n)) (lf_down s)\<rparr>"

section \<open>Steps\<close>

inductive life_step ::
  "('b, 'q, 'r, 'm, 'e, 'l, 'f, 'c, 'x, 'u) externals \<Rightarrow> ('b, 'r, 'l, 'c, 'u) app
    \<Rightarrow> ('b, 'r, 'x, 'e) life \<Rightarrow> ('b, 'r, 'x, 'e) life \<Rightarrow> bool"
  for ex a
where
  start_next:
    "lf_phase s = Starting k \<Longrightarrow> k < length (ap_hooks a) \<Longrightarrow>
     life_step ex a s ((run_start_hook (ap_hooks a ! k) s)\<lparr>lf_phase := Starting (Suc k)\<rparr>)"
| all_started:
    "lf_phase s = Starting k \<Longrightarrow> k = length (ap_hooks a) \<Longrightarrow>
     life_step ex a s (s\<lparr>lf_phase := Running\<rparr>)"
| begin_stop:
    "lf_phase s = Running \<Longrightarrow> lf_signal s \<Longrightarrow>
     life_step ex a s (s\<lparr>lf_phase := Stopping (length (ap_hooks a))\<rparr>)"
| stop_next:
    "lf_phase s = Stopping (Suc k) \<Longrightarrow>
     life_step ex a s ((run_stop_hook (the (ap_bundle a)) (ap_hooks a ! k) s)\<lparr>lf_phase := Stopping k\<rparr>)"
| all_stopped:
    "lf_phase s = Stopping 0 \<Longrightarrow> life_step ex a s (s\<lparr>lf_phase := Stopped\<rparr>)"
| interrupt:
    "life_step ex a s (s\<lparr>lf_signal := True\<rparr>)"
| server_returns:
    "lf_servers s n = Serving \<Longrightarrow> gomap_lookup (the (ap_bundle a)) n = Some i \<Longrightarrow>
     info_start listen i = (r, sh) \<Longrightarrow>
     life_step ex a s (s\<lparr>lf_servers := (lf_servers s)(n := Exited r), lf_signal := lf_signal s \<or> sh\<rparr>)"
| ticked:
    "k < length (cs_workers (lf_checker s)) \<Longrightarrow> cs_workers (lf_checker s) ! k = Selecting \<Longrightarrow>
     life_step ex a s (s\<lparr>lf_checker := (lf_checker s)\<lparr>cs_workers := (cs_workers (lf_checker s))[k := Ingesting]\<rparr>\<rparr>)"
| ingest_returns:
    "k < length (cs_workers (lf_checker s)) \<Longrightarrow> cs_workers (lf_checker s) ! k = Ingesting \<Longrightarrow>
     ingest (ex_growth ex) (ex_orders ex) env (on_ingest (ex_medley ex)) (lf_ingester s) = Inr fi' \<Longrightarrow>
     life_step ex a s (s\<lparr>lf_checker := (lf_checker s)\<lparr>cs_workers := (cs_workers (lf_checker s))[k := Selecting]\<rparr>,
       lf_ingester := fi', lf_scans := env # lf_scans s\<rparr>)"
| worker_returns:
    "k < length (cs_workers (lf_checker s)) \<Longrightarrow> cs_workers (lf_checker s) ! k = Selecting \<Longrightarrow>
     k \<in> cs_cancelled (lf_checker s) \<Longrightarrow>
     life_step ex a s (s\<lparr>lf_checker := (lf_checker s)\<lparr>cs_workers := (cs_workers (lf_checker s))[k := Returned]\<rparr>\<rparr>)"

abbreviation life_reachable ::
  "('b, 'q, 'r, 'm, 'e, 'l, 'f, 'c, 'x, 'u) externals \<Rightarrow> ('b, 'r, 'l, 'c, 'u) app \<Rightarrow> ('b, 'r, 'x, 'e) life \<Rightarrow> bool" where
  "life_reachable ex a s \<equiv> (life_step ex a)\<^sup>*\<^sup>* (life_init ex a) s"

section \<open>The invariant\<close>

text \<open>The servers with a hook in a list.\<close>

definition hook_servers :: "hook list \<Rightarrow> string set" where
  "hook_servers hs = {n. ServerHook n \<in> set hs}"

lemma hook_servers_simps [simp]:
  "hook_servers [] = {}"
  "hook_servers (CheckerHook # hs) = hook_servers hs"
  "hook_servers (ServerHook n # hs) = insert n (hook_servers hs)"
  "hook_servers (hs @ hs') = hook_servers hs \<union> hook_servers hs'"
  by (auto simp: hook_servers_def)

text \<open>
  The checker, whose hook is the first: its one goroutine is started before every server and
  cancelled after every server has been told to shut down.
\<close>

fun checker_phase :: "phase \<Rightarrow> checker_state \<Rightarrow> bool" where
  "checker_phase (Starting 0) c \<longleftrightarrow> c = checker_zero"
| "checker_phase (Starting (Suc k)) c \<longleftrightarrow> cs_cancel c = Some 0 \<and> cs_cancelled c = {} \<and> length (cs_workers c) = 1"
| "checker_phase Running c \<longleftrightarrow> cs_cancel c = Some 0 \<and> cs_cancelled c = {} \<and> length (cs_workers c) = 1"
| "checker_phase (Stopping (Suc k)) c \<longleftrightarrow> cs_cancel c = Some 0 \<and> cs_cancelled c = {} \<and> length (cs_workers c) = 1"
| "checker_phase (Stopping 0) c \<longleftrightarrow> cs_cancel c = None \<and> cs_cancelled c = {0} \<and> length (cs_workers c) = 1"
| "checker_phase Stopped c \<longleftrightarrow> cs_cancel c = None \<and> cs_cancelled c = {0} \<and> length (cs_workers c) = 1"

text \<open>The hooks of an application: that of the checker, and then those of the servers.\<close>

definition hooks_in_order :: "hook list \<Rightarrow> bool" where
  "hooks_in_order hs \<longleftrightarrow> (\<exists>names. hs = CheckerHook # map ServerHook names)"

fun phase_down :: "hook list \<Rightarrow> phase \<Rightarrow> string set" where
  "phase_down hs (Starting k) = {}"
| "phase_down hs Running = {}"
| "phase_down hs (Stopping k) = hook_servers (drop k hs)"
| "phase_down hs Stopped = hook_servers hs"

fun phase_up :: "hook list \<Rightarrow> phase \<Rightarrow> string set" where
  "phase_up hs (Starting k) = hook_servers (take k hs)"
| "phase_up hs _ = hook_servers hs"

fun phase_wf :: "hook list \<Rightarrow> phase \<Rightarrow> bool" where
  "phase_wf hs (Starting k) \<longleftrightarrow> k \<le> length hs"
| "phase_wf hs Running \<longleftrightarrow> True"
| "phase_wf hs (Stopping k) \<longleftrightarrow> k \<le> length hs"
| "phase_wf hs Stopped \<longleftrightarrow> True"

definition life_inv :: "hook list \<Rightarrow> ('b, 'r, 'x, 'e) life \<Rightarrow> bool" where
  "life_inv hs s \<longleftrightarrow>
     checker_inv (lf_checker s) \<and> checker_phase (lf_phase s) (lf_checker s) \<and> phase_wf hs (lf_phase s) \<and>
     lf_down s = phase_down hs (lf_phase s) \<and>
     {n. lf_servers s n \<noteq> Idle} = phase_up hs (lf_phase s)"

lemma hook_servers_take: "k < length hs \<Longrightarrow> hook_servers (take (Suc k) hs) =
    hook_servers (take k hs) \<union> hook_servers [hs ! k]"
  by (simp add: take_Suc_conv_app_nth)

lemma hook_servers_drop: "k < length hs \<Longrightarrow> hook_servers (drop k hs) =
    hook_servers [hs ! k] \<union> hook_servers (drop (Suc k) hs)"
  by (cases "hs ! k") (simp_all add: Cons_nth_drop_Suc [symmetric])

lemma hooks_nth:
  assumes "hooks_in_order hs" and "k < length hs"
  shows "hs ! k = CheckerHook \<longleftrightarrow> k = 0"
  using assms by (cases k) (auto simp: hooks_in_order_def)

lemma life_inv_init: "life_inv hs (life_init ex a)"
  using checker_inv_zero by (simp add: life_inv_def life_init_def)

lemma life_inv_start:
  assumes hs: "hooks_in_order hs" and inv: "life_inv hs s" and "lf_phase s = Starting k" and "k < length hs"
  shows "life_inv hs ((run_start_hook (hs ! k) s)\<lparr>lf_phase := Starting (Suc k)\<rparr>)"
proof (cases "hs ! k")
  case CheckerHook
  then have "k = 0" using hooks_nth [OF hs assms(4)] by simp
  with CheckerHook assms checker_inv_start [of checker_zero] checker_inv_zero show ?thesis
    by (simp add: life_inv_def hook_servers_take checker_start_def checker_zero_def Suc_le_eq)
next
  case (ServerHook n)
  then have "k \<noteq> 0" using hooks_nth [OF hs assms(4)] by auto
  then obtain j where "k = Suc j" by (cases k) auto
  with ServerHook assms show ?thesis
    by (auto simp: life_inv_def hook_servers_take)
qed

lemma life_inv_stop:
  assumes hs: "hooks_in_order hs" and inv: "life_inv hs s" and "lf_phase s = Stopping (Suc k)"
  shows "life_inv hs ((run_stop_hook m (hs ! k) s)\<lparr>lf_phase := Stopping k\<rparr>)"
proof (cases "hs ! k")
  case CheckerHook
  have k: "k < length hs" using inv assms(3) by (simp add: life_inv_def)
  with CheckerHook have "k = 0" using hooks_nth [OF hs k] by simp
  with CheckerHook inv assms(3) k show ?thesis
    using checker_inv_stop [of "lf_checker s"] hook_servers_drop [OF k]
    by (simp add: life_inv_def checker_stop_def)
next
  case (ServerHook n)
  have k: "k < length hs" using inv assms(3) by (simp add: life_inv_def)
  with ServerHook have "k \<noteq> 0" using hooks_nth [OF hs k] by auto
  then obtain j where "k = Suc j" by (cases k) auto
  with ServerHook inv assms(3) k hook_servers_drop [OF k] show ?thesis
    by (simp add: life_inv_def info_stop_def)
qed

lemma checker_phase_workers:
  "length ws = length (cs_workers c) \<Longrightarrow> checker_phase p c \<Longrightarrow> p \<noteq> Starting 0 \<Longrightarrow>
     checker_phase p (c\<lparr>cs_workers := ws\<rparr>)"
  by (cases "(p, c)" rule: checker_phase.cases) auto

lemma life_inv_worker:
  assumes "life_inv hs s" and "worker_step (lf_checker s) c"
    and "c = (lf_checker s)\<lparr>cs_workers := (cs_workers (lf_checker s))[k := w]\<rparr>" and "k < length (cs_workers (lf_checker s))"
  shows "life_inv hs (s\<lparr>lf_checker := c\<rparr>)"
proof -
  have "lf_phase s \<noteq> Starting 0" using assms(1,4) by (auto simp: life_inv_def checker_zero_def)
  with assms checker_phase_workers [of "(cs_workers (lf_checker s))[k := w]" "lf_checker s"] checker_inv_worker
  show ?thesis by (auto simp: life_inv_def)
qed

lemma life_inv_step:
  assumes "life_step ex a s s'" and hs: "hooks_in_order (ap_hooks a)" and inv: "life_inv (ap_hooks a) s"
  shows "life_inv (ap_hooks a) s'"
  using assms(1)
proof cases
  case (start_next k)
  with life_inv_start [OF hs inv] show ?thesis by simp
next
  case (stop_next k)
  with life_inv_stop [OF hs inv, of k "the (ap_bundle a)"] show ?thesis by simp
next
  case (ticked k)
  with life_inv_worker [OF inv tick [OF ticked(2,3)]] show ?thesis by simp
next
  case (ingest_returns k env fi')
  with life_inv_worker [OF inv ingested [OF ingest_returns(2,3)]] show ?thesis by (simp add: life_inv_def)
next
  case (worker_returns k)
  with life_inv_worker [OF inv context_done [OF worker_returns(2-4)]] show ?thesis by simp
next
  case (server_returns n i listen r sh)
  then have "{m. ((lf_servers s)(n := Exited r)) m \<noteq> Idle} = {m. lf_servers s m \<noteq> Idle}" by auto
  with inv server_returns show ?thesis by (simp add: life_inv_def)
next
  case (all_started k)
  from hs obtain j where "length (ap_hooks a) = Suc j" by (auto simp: hooks_in_order_def)
  with all_started inv show ?thesis by (simp add: life_inv_def)
next
  case begin_stop
  from hs obtain j where "length (ap_hooks a) = Suc j" by (auto simp: hooks_in_order_def)
  with begin_stop inv show ?thesis by (simp add: life_inv_def)
qed (use inv in \<open>simp_all add: life_inv_def\<close>)

interpretation life: step_system "life_step ex a" "\<lambda>s. hooks_in_order (ap_hooks a) \<and> life_inv (ap_hooks a) s"
  for ex a
  by unfold_locales (blast intro: life_inv_step)

lemma life_inv_reachable:
  "life_reachable ex a s \<Longrightarrow> hooks_in_order (ap_hooks a) \<Longrightarrow> life_inv (ap_hooks a) s"
  using life.steps_inv life_inv_init by blast

lemma one_worker:
  assumes "life_reachable ex a s" and "hooks_in_order (ap_hooks a)"
  shows "length (cs_workers (lf_checker s)) \<le> 1"
proof -
  have "checker_phase (lf_phase s) (lf_checker s)" using life_inv_reachable [OF assms] by (simp add: life_inv_def)
  then show ?thesis
    by (cases "(lf_phase s, lf_checker s)" rule: checker_phase.cases) (auto simp: checker_zero_def)
qed

lemma started_hooks:
  assumes "started ex cl a"
  shows "ap_hooks a = CheckerHook # bundle_hooks ex (the (ap_bundle a))" and "hooks_in_order (ap_hooks a)"
proof -
  show eq: "ap_hooks a = CheckerHook # bundle_hooks ex (the (ap_bundle a))"
    using startedD(1) [OF assms] startedD(3) [OF assms, of Checker] startedD(3) [OF assms, of ServerBundle]
    by (auto simp: app_ok_def hooks_ok_def)
  have "bundle_hooks ex m = map ServerHook (map info_name (bind_to_lifecycle (ex_range ex) m))" for m
    by (simp add: bundle_hooks_def)
  then show "hooks_in_order (ap_hooks a)" unfolding hooks_in_order_def eq by blast
qed

section \<open>What the locator serves\<close>

lemma ingest_keeps:
  assumes "ingest g ords env on_event fi = Inr fi'"
  shows "scan env' fi' = scan env' fi" and "fi_domain fi' = fi_domain fi"
    and "fi_first fi' \<longleftrightarrow> fi_first fi \<or> \<not> isl (scan env fi)"
proof -
  have spec: "ingest_spec g ords env on_event fi = Inr fi'" using assms by (simp add: ingest_eq_spec)
  show "scan env' fi' = scan env' fi" and "fi_domain fi' = fi_domain fi"
    using spec by (rule ingest_spec_fields)+
  show "fi_first fi' \<longleftrightarrow> fi_first fi \<or> \<not> isl (scan env fi)"
    using spec by (auto simp: ingest_spec_def changed_def split: sum.splits if_splits dest!: dispatch_to_fields)
qed

text \<open>
  Ingester \<open>fi\<close>, once constructed as \<open>fi0\<close> with an empty locator, after ingests in the environments
  \<open>envs\<close>: its locator is empty until the files have been scanned once without an error, and from
  then on holds exactly the groups of one successful scan, never a mixture.
\<close>

definition serves_a_scan ::
  "('b, 'q, 'r, 'm, 'e, 'l, 'f, 'c, 'x, 'u) externals \<Rightarrow> 'b \<Rightarrow> ('b, 'r) ingester_state \<Rightarrow> 'x ingest_env list
    \<Rightarrow> ('b, 'r) ingester_state \<Rightarrow> bool" where
  "serves_a_scan ex b fi0 envs fi \<longleftrightarrow>
     (\<forall>env :: 'x ingest_env. scan env fi = scan env fi0) \<and> fi_domain fi = fi_domain fi0 \<and>
     (fi_first fi \<longleftrightarrow> (\<exists>env \<in> set envs. \<not> isl (scan env fi0))) \<and>
     (if fi_first fi
      then \<exists>env \<in> set envs. \<exists>rrs bytes. scan env fi0 = Inr (rrs, bytes) \<and>
        fi_listeners fi = [published (ex_medley ex) b
          (Some (build_from (ex_growth ex) (ex_orders ex) (fi_domain fi0) rrs))]
      else fi_listeners fi = [zero_locator b])"

lemma is_published_zero: "is_published md b (zero_locator b)"
  by (simp add: is_published_def published_def zero_locator_def)

lemma serves_a_scan_ingest:
  fixes ex :: "('b, 'q, 'r, 'm, 'e, 'l, 'f, 'c, 'x, 'u) externals"
  assumes inv: "serves_a_scan ex b fi0 envs fi"
    and run: "ingest (ex_growth ex) (ex_orders ex) env (on_ingest (ex_medley ex)) fi = Inr fi'"
  shows "serves_a_scan ex b fi0 (env # envs) fi'"
proof -
  have scans: "scan env' fi = scan env' fi0" for env' :: "'x ingest_env"
    using inv unfolding serves_a_scan_def by blast
  have keep: "scan env' fi' = scan env' fi0" for env' :: "'x ingest_env"
    by (simp add: ingest_keeps(1) [OF run] scans)
  have dom: "fi_domain fi = fi_domain fi0" using inv by (simp add: serves_a_scan_def)
  have first: "fi_first fi' \<longleftrightarrow> (\<exists>env' \<in> set (env # envs). \<not> isl (scan env' fi0))"
    using inv ingest_keeps(3) [OF run] by (auto simp: serves_a_scan_def scans)
  have pub: "\<forall>l \<in> set (fi_listeners fi). is_published (ex_medley ex) b l"
    using inv by (auto simp: serves_a_scan_def is_published_zero is_published_published split: if_splits)
  have ls: "fi_listeners fi' =
      (case scan env fi0 of
         Inl err \<Rightarrow> fi_listeners fi
       | Inr (rrs, bytes) \<Rightarrow>
           if changed fi bytes
           then map (\<lambda>_. published (ex_medley ex) b
             (Some (build_from (ex_growth ex) (ex_orders ex) (fi_domain fi0) rrs))) (fi_listeners fi)
           else fi_listeners fi)"
    using ingest_locators [OF pub, of "ex_growth ex" "ex_orders ex" env] run unfolding dom [symmetric]
    by (simp add: scans)
  have one: "length (fi_listeners fi) = 1"
    using inv by (auto simp: serves_a_scan_def split: if_splits)
  have same: "serves_a_scan ex b fi0 (env # envs) fi'"
    if "fi_listeners fi' = fi_listeners fi" and "fi_first fi' = fi_first fi"
    using inv that ingest_keeps(2) [OF run] first keep by (auto simp: serves_a_scan_def split: if_splits)
  show ?thesis
  proof (cases "scan env fi0")
    case (Inl err)
    with ls ingest_keeps(3) [OF run] show ?thesis by (intro same) (simp_all add: scans)
  next
    case (Inr r)
    obtain rrs bytes where r: "r = (rrs, bytes)" by fastforce
    show ?thesis
    proof (cases "changed fi bytes")
      case True
      have "fi_listeners fi' = [published (ex_medley ex) b
          (Some (build_from (ex_growth ex) (ex_orders ex) (fi_domain fi0) rrs))]"
        using ls Inr r True one by (cases "fi_listeners fi") simp_all
      moreover have "fi_first fi'" using ingest_keeps(3) [OF run] Inr by (simp add: scans)
      ultimately show ?thesis
        using Inr r first ingest_keeps(2) [OF run] keep by (auto simp: serves_a_scan_def dom)
    next
      case False
      then have "fi_first fi" by (simp add: changed_def)
      with ls Inr r False ingest_keeps(3) [OF run] show ?thesis by (intro same) simp_all
    qed
  qed
qed

lemma started_serves:
  assumes "started ex cl a"
  shows "serves_a_scan ex (app_builder ex cl a) (first_ingester ex cl a) [initial_env ex] (the (ap_ingester a))"
proof -
  obtain fi where fi: "first_ingester ex cl a = fi" "fi_listeners fi = [zero_locator (app_builder ex cl a)]"
    "\<not> fi_first fi" "initial_ingest ex fi = Inr (the (ap_ingester a))"
    using made_ingester [OF startedD(1) [OF assms] startedD(3) [OF assms, of Ingester]] startedD(2) [OF assms]
    by (auto simp: first_ingester_def app_builder_def)
  have "serves_a_scan ex (app_builder ex cl a) fi [] fi"
    using fi(2,3) by (simp add: serves_a_scan_def)
  from serves_a_scan_ingest [OF this] fi(1,4) show ?thesis by (simp add: initial_ingest_def)
qed

lemma life_step_serves:
  assumes "life_step ex a s s'" and "serves_a_scan ex b fi0 (lf_scans s) (lf_ingester s)"
  shows "serves_a_scan ex b fi0 (lf_scans s') (lf_ingester s')"
  using assms(1)
proof cases
  case (start_next k)
  with assms(2) show ?thesis by (cases "ap_hooks a ! k") simp_all
next
  case (stop_next k)
  with assms(2) show ?thesis by (cases "ap_hooks a ! k") simp_all
next
  case (ingest_returns k env fi')
  with serves_a_scan_ingest [OF assms(2)] show ?thesis by simp
qed (use assms(2) in simp_all)

interpretation served: step_system "life_step ex a"
    "\<lambda>s. serves_a_scan ex b fi0 (lf_scans s) (lf_ingester s)"
  for ex a b fi0
  by unfold_locales (rule life_step_serves)

lemma life_serves:
  assumes "life_reachable ex a s" and "started ex cl a"
  shows "serves_a_scan ex (app_builder ex cl a) (first_ingester ex cl a) (lf_scans s) (lf_ingester s)"
  using assms(1) by (rule served.steps_inv) (use started_serves [OF assms(2)] in \<open>simp add: life_init_def\<close>)

section \<open>The end\<close>

lemma worker_finishes:
  assumes "cs_workers (lf_checker s) = [w]" and "0 \<in> cs_cancelled (lf_checker s)"
    and "serves_a_scan ex b fi0 (lf_scans s) (lf_ingester s)"
  shows "\<exists>s'. (life_step ex a)\<^sup>*\<^sup>* s s' \<and> lf_phase s' = lf_phase s \<and> lf_down s' = lf_down s \<and>
    cs_workers (lf_checker s') = [Returned]"
proof -
  have finish: "\<exists>s'. (life_step ex a)\<^sup>*\<^sup>* s s' \<and> lf_phase s' = lf_phase s \<and> lf_down s' = lf_down s \<and>
      cs_workers (lf_checker s') = [Returned]"
    if "cs_workers (lf_checker s) = [Selecting]" "0 \<in> cs_cancelled (lf_checker s)" for s
    using life_step.worker_returns [of 0 s ex a] that
    by (intro exI [of _ "s\<lparr>lf_checker := (lf_checker s)\<lparr>cs_workers := [Returned]\<rparr>\<rparr>"]) auto
  show ?thesis
  proof (cases w)
    case Selecting
    with assms finish show ?thesis by simp
  next
    case Ingesting
    have "\<forall>l \<in> set (fi_listeners (lf_ingester s)). is_published (ex_medley ex) b l"
      using assms(3) by (auto simp: serves_a_scan_def is_published_zero is_published_published split: if_splits)
    from ingest_locators [OF this] obtain fi' where
      "ingest (ex_growth ex) (ex_orders ex) (initial_env ex) (on_ingest (ex_medley ex)) (lf_ingester s) = Inr fi'"
      by blast
    from life_step.ingest_returns [of 0 s ex "initial_env ex" fi' a] this assms(1) Ingesting
    have "life_step ex a s (s\<lparr>lf_checker := (lf_checker s)\<lparr>cs_workers := [Selecting]\<rparr>,
       lf_ingester := fi', lf_scans := initial_env ex # lf_scans s\<rparr>)" (is "life_step ex a s ?s")
      by simp
    moreover have "\<exists>s'. (life_step ex a)\<^sup>*\<^sup>* ?s s' \<and> lf_phase s' = lf_phase ?s \<and> lf_down s' = lf_down ?s \<and>
      cs_workers (lf_checker s') = [Returned]"
      by (rule finish) (use assms(2) in simp_all)
    ultimately show ?thesis by (auto intro: converse_rtranclp_into_rtranclp)
  next
    case Returned
    with assms(1) show ?thesis by auto
  qed
qed

lemma stops:
  assumes "lf_phase s = Stopping k" and "k \<le> length (ap_hooks a)"
  shows "\<exists>s'. (life_step ex a)\<^sup>*\<^sup>* s s' \<and> lf_phase s' = Stopped"
  using assms
proof (induction k arbitrary: s)
  case 0
  from life_step.all_stopped [OF 0(1)] show ?case
    by (intro exI [of _ "s\<lparr>lf_phase := Stopped\<rparr>"]) auto
next
  case (Suc k)
  let ?s = "(run_stop_hook (the (ap_bundle a)) (ap_hooks a ! k) s)\<lparr>lf_phase := Stopping k\<rparr>"
  have "life_step ex a s ?s" using Suc.prems(1) by (rule life_step.stop_next)
  moreover obtain s' where "(life_step ex a)\<^sup>*\<^sup>* ?s s'" "lf_phase s' = Stopped"
    using Suc.IH [of ?s] Suc.prems by auto
  ultimately show ?case by (auto intro: converse_rtranclp_into_rtranclp)
qed

lemma starts:
  assumes "lf_phase s = Starting k" and "k \<le> length (ap_hooks a)"
  shows "\<exists>s'. (life_step ex a)\<^sup>*\<^sup>* s s' \<and> lf_phase s' = Running \<and> lf_signal s' = lf_signal s"
  using assms
proof (induction "length (ap_hooks a) - k" arbitrary: s k)
  case 0
  from life_step.all_started [OF 0(2)] 0 show ?case
    by (intro exI [of _ "s\<lparr>lf_phase := Running\<rparr>"]) auto
next
  case (Suc n)
  let ?s = "(run_start_hook (ap_hooks a ! k) s)\<lparr>lf_phase := Starting (Suc k)\<rparr>"
  have "lf_signal ?s = lf_signal s" by (cases "ap_hooks a ! k") simp_all
  moreover have "\<exists>s'. (life_step ex a)\<^sup>*\<^sup>* ?s s' \<and> lf_phase s' = Running \<and> lf_signal s' = lf_signal ?s"
    using Suc.hyps(2) by (intro Suc.hyps(1) [of "Suc k"]) simp_all
  ultimately obtain s' where
    "(life_step ex a)\<^sup>*\<^sup>* ?s s'" "lf_phase s' = Running" "lf_signal s' = lf_signal s"
    by metis
  moreover have "life_step ex a s ?s" using Suc.hyps(2) Suc.prems(1) by (intro life_step.start_next) simp_all
  ultimately show ?case by (auto intro: converse_rtranclp_into_rtranclp)
qed

lemma running_stops:
  assumes "lf_phase s = Running" and "lf_signal s"
  shows "\<exists>s'. (life_step ex a)\<^sup>*\<^sup>* s s' \<and> lf_phase s' = Stopped"
proof -
  let ?t = "s\<lparr>lf_phase := Stopping (length (ap_hooks a))\<rparr>"
  have "life_step ex a s ?t" using assms by (rule life_step.begin_stop)
  moreover obtain s' where "(life_step ex a)\<^sup>*\<^sup>* ?t s'" "lf_phase s' = Stopped"
    using stops [of ?t "length (ap_hooks a)" a ex] by auto
  ultimately show ?thesis by (auto intro: converse_rtranclp_into_rtranclp)
qed

text \<open>Whatever it is doing, a program that has been told to shut down gets there.\<close>

lemma signalled_stops:
  assumes inv: "life_inv (ap_hooks a) s" and "lf_signal s"
  shows "\<exists>s'. (life_step ex a)\<^sup>*\<^sup>* s s' \<and> lf_phase s' = Stopped"
proof (cases "lf_phase s")
  case (Starting k)
  with inv have "k \<le> length (ap_hooks a)" by (simp add: life_inv_def)
  from starts [OF Starting this] assms(2) obtain t where
    "(life_step ex a)\<^sup>*\<^sup>* s t" "lf_phase t = Running" "lf_signal t" by auto
  with running_stops [of t] show ?thesis by (meson rtranclp_trans)
next
  case Running
  then show ?thesis using assms(2) by (rule running_stops)
next
  case (Stopping k)
  with inv stops [of s k a ex] show ?thesis by (simp add: life_inv_def)
qed auto

definition can_end ::
  "('b, 'q, 'r, 'm, 'e, 'l, 'f, 'c, 'x, 'u) externals \<Rightarrow> ('b, 'r, 'l, 'c, 'u) app \<Rightarrow> ('b, 'r, 'x, 'e) life \<Rightarrow> bool" where
  "can_end ex a s \<longleftrightarrow> (\<exists>s'. (life_step ex a)\<^sup>*\<^sup>* s s' \<and> lf_phase s' = Stopped \<and>
     lf_down s' = hook_servers (ap_hooks a) \<and> cs_workers (lf_checker s') = [Returned])"

lemma signalled_ends:
  assumes "started ex cl a" and reach: "life_reachable ex a s" and "lf_signal s"
  shows "can_end ex a s"
proof -
  note hooks = started_hooks(2) [OF assms(1)]
  obtain s3 where s3: "(life_step ex a)\<^sup>*\<^sup>* s s3" "lf_phase s3 = Stopped"
    using signalled_stops [OF life_inv_reachable [OF reach hooks] assms(3)] by blast
  have reach3: "life_reachable ex a s3" using reach s3(1) by (rule rtranclp_trans)
  obtain w where w: "cs_workers (lf_checker s3) = [w]" "0 \<in> cs_cancelled (lf_checker s3)"
    "lf_down s3 = hook_servers (ap_hooks a)"
    using life_inv_reachable [OF reach3 hooks] s3(2) by (auto simp: life_inv_def length_Suc_conv)
  obtain s4 where s4: "(life_step ex a)\<^sup>*\<^sup>* s3 s4" "lf_phase s4 = lf_phase s3" "lf_down s4 = lf_down s3"
    "cs_workers (lf_checker s4) = [Returned]"
    using worker_finishes [OF w(1,2) life_serves [OF reach3 assms(1)]] by blast
  have "(life_step ex a)\<^sup>*\<^sup>* s s4" using s3(1) s4(1) by (rule rtranclp_trans)
  with s3(2) s4(2-4) w(3) show ?thesis unfolding can_end_def by auto
qed

section \<open>Properties\<close>

text \<open>
  Property C11: in the running program ingests never overlap, although the components would allow
  it (\<open>checker_two_ingesting\<close>, \<open>overlap_leaves_stale_groups\<close>). There is at most one background
  goroutine at any time, and it is there once any server has been started. Its context is not
  cancelled before every server of the program has been told to shut down: neither while a server
  is serving nor because one, or all of them, returned by themselves.
\<close>

theorem lifecycle_ingests_do_not_overlap:
  assumes "started ex cl a" and "life_reachable ex a s"
  shows "length (cs_workers (lf_checker s)) \<le> 1 \<and>
    (\<forall>n. lf_servers s n \<noteq> Idle \<longrightarrow> n \<in> hook_servers (ap_hooks a) \<and> length (cs_workers (lf_checker s)) = 1) \<and>
    (cs_cancelled (lf_checker s) \<noteq> {} \<longrightarrow> lf_down s = hook_servers (ap_hooks a)) \<and>
    (\<forall>n. lf_servers s n \<noteq> Idle \<and> n \<notin> lf_down s \<longrightarrow>
      cs_cancel (lf_checker s) = Some 0 \<and> cs_cancelled (lf_checker s) = {})"
proof -
  obtain names where names: "ap_hooks a = CheckerHook # map ServerHook names"
    using started_hooks(2) [OF assms(1)] by (auto simp: hooks_in_order_def)
  have inv: "life_inv (ap_hooks a) s" using assms(2) started_hooks(2) [OF assms(1)] by (rule life_inv_reachable)
  then have phase: "checker_phase (lf_phase s) (lf_checker s)"
    and down: "lf_down s = phase_down (ap_hooks a) (lf_phase s)"
    and up: "lf_servers s n \<noteq> Idle \<longleftrightarrow> n \<in> phase_up (ap_hooks a) (lf_phase s)" for n
    by (auto simp: life_inv_def)
  have started: "n \<in> hook_servers (ap_hooks a) \<and> length (cs_workers (lf_checker s)) = 1"
    if "lf_servers s n \<noteq> Idle" for n
    using up [of n] that phase
    by (cases "(lf_phase s, lf_checker s)" rule: checker_phase.cases)
      (auto simp: names hook_servers_def dest!: in_set_takeD)
  have ended: "lf_down s = hook_servers (ap_hooks a)" if "cs_cancelled (lf_checker s) \<noteq> {}"
    using that phase down
    by (cases "(lf_phase s, lf_checker s)" rule: checker_phase.cases) (auto simp: checker_zero_def)
  have "cs_cancel (lf_checker s) = Some 0 \<and> cs_cancelled (lf_checker s) = {}"
    if "lf_servers s n \<noteq> Idle" "n \<notin> lf_down s" for n
    using up [of n] that phase down
    by (cases "(lf_phase s, lf_checker s)" rule: checker_phase.cases) (auto simp: names)
  with one_worker [OF assms(2) started_hooks(2) [OF assms(1)]] started ended show ?thesis by blast
qed

text \<open>
  Property C4: what the program serves. At every moment of its life the locator is either empty,
  and then no ingest so far could read the zone files, or holds exactly the groups of one
  error-free scan of the files by one of the ingests so far.
\<close>

theorem lifecycle_serves_a_scan:
  assumes "started ex cl a" and "life_reachable ex a s"
  shows "\<exists>l. fi_listeners (lf_ingester s) = [l] \<and>
    (case locator_groups l of
       None \<Rightarrow> filter (\<lambda>env. \<not> isl (scan env (first_ingester ex cl a))) (lf_scans s) = []
     | Some gps \<Rightarrow> \<exists>env rrs bytes. env \<in> set (lf_scans s) \<and>
         scan env (first_ingester ex cl a) = Inr (rrs, bytes) \<and>
         l = published (ex_medley ex) (app_builder ex cl a) (Some gps) \<and>
         gps = build_from (ex_growth ex) (ex_orders ex) (fi_domain (first_ingester ex cl a)) rrs)"
proof -
  let ?fi = "lf_ingester s"
  have serves: "serves_a_scan ex (app_builder ex cl a) (first_ingester ex cl a) (lf_scans s) ?fi"
    using assms(2,1) by (rule life_serves)
  show ?thesis
  proof (cases "fi_first ?fi")
    case False
    with serves show ?thesis
      by (auto simp: serves_a_scan_def locator_groups_def zero_locator_def)
  next
    case True
    with serves obtain env rrs bytes where e: "env \<in> set (lf_scans s)"
      "scan env (first_ingester ex cl a) = Inr (rrs, bytes)"
      "fi_listeners ?fi = [published (ex_medley ex) (app_builder ex cl a)
        (Some (build_from (ex_growth ex) (ex_orders ex) (fi_domain (first_ingester ex cl a)) rrs))]"
      by (auto simp: serves_a_scan_def)
    show ?thesis unfolding e(3) using e(1,2) by (auto simp: locator_groups_def published_def)
  qed
qed

text \<open>
  Property C27: the program can always be brought to its end. Once the application has been told to
  shut down, and in whatever phase it is then, even while it is still starting, it can run on until
  every server has been told to shut down and the goroutine of the checker has returned; and any
  server that returns, for whatever reason, tells the application to shut down.
\<close>

theorem server_exit_ends_program:
  assumes "started ex cl a" and "life_reachable ex a s"
  shows "(lf_signal s \<longrightarrow> can_end ex a s) \<and>
    (\<forall>n i r. lf_servers s n = Serving \<and> gomap_lookup (the (ap_bundle a)) n = Some i \<longrightarrow>
      (let t = s\<lparr>lf_servers := (lf_servers s)(n := Exited r), lf_signal := True\<rparr>
       in life_step ex a s t \<and> can_end ex a t))"
proof -
  have "life_step ex a s (s\<lparr>lf_servers := (lf_servers s)(n := Exited r), lf_signal := True\<rparr>)"
    if "lf_servers s n = Serving" "gomap_lookup (the (ap_bundle a)) n = Some i" for n i r
    using life_step.server_returns [OF that, of "\<lambda>_. r" r True] by (simp add: info_start_def)
  moreover have "can_end ex a t" if "life_step ex a s t" "lf_signal t" for t
    using signalled_ends [OF assms(1) _ that(2)] assms(2) that(1) by (auto intro: rtranclp.rtrancl_into_rtrancl)
  ultimately show ?thesis using signalled_ends [OF assms] by (auto simp: Let_def)
qed

section \<open>A run for the witnesses\<close>

definition sample_running ::
  "('b, 'q, 'r, 'm, 'e, 'l, 'f, 'c, 'x, 'u) externals \<Rightarrow> ('b, 'r, 'l, 'c, 'u) app \<Rightarrow> ('b, 'r, 'x, 'e) life" where
  "sample_running ex a = (life_init ex a)\<lparr>lf_phase := Running, lf_checker := checker_start checker_zero,
     lf_servers := (\<lambda>_. Idle)(''dns'' := Serving)\<rparr>"

lemma sample_running_reachable:
  assumes "ap_hooks a = [CheckerHook, ServerHook ''dns'']"
  shows "life_reachable ex a (sample_running ex a)"
proof -
  let ?s0 = "life_init ex a"
  let ?s1 = "?s0\<lparr>lf_phase := Starting 1, lf_checker := checker_start checker_zero\<rparr>"
  let ?s2 = "?s1\<lparr>lf_phase := Starting 2, lf_servers := (\<lambda>_. Idle)(''dns'' := Serving)\<rparr>"
  have "life_step ex a ?s0 ?s1"
    using life_step.start_next [of ?s0 0 a ex] assms by (simp add: life_init_def)
  moreover have "life_step ex a ?s1 ?s2"
    using life_step.start_next [of ?s1 1 a ex] assms by (simp add: life_init_def numeral_2_eq_2)
  moreover have "life_step ex a ?s2 (sample_running ex a)"
    using life_step.all_started [of ?s2 2 a ex] assms by (simp add: sample_running_def life_init_def)
  ultimately show ?thesis by (meson rtranclp.rtrancl_into_rtrancl rtranclp.rtrancl_refl)
qed

theorem lifecycle_ingests_do_not_overlap_witness:
  "\<exists>a s. started sample_world sample_command_line a \<and> life_reachable sample_world a s \<and>
    lf_servers s ''dns'' = Serving \<and> length (cs_workers (lf_checker s)) \<le> 1 \<and> cs_cancel (lf_checker s) = Some 0"
proof -
  obtain a where a: "started sample_world sample_command_line a" "ap_hooks a = [CheckerHook, ServerHook ''dns'']"
    using sample_started [of sample_env] unfolding sample_world_def by blast
  let ?s = "sample_running sample_world a"
  have s: "lf_servers ?s ''dns'' = Serving" "lf_down ?s = {}" by (simp_all add: sample_running_def life_init_def)
  from lifecycle_ingests_do_not_overlap [OF a(1) sample_running_reachable [OF a(2)]] s
  have "length (cs_workers (lf_checker ?s)) \<le> 1" "cs_cancel (lf_checker ?s) = Some 0" by auto
  with a(1) sample_running_reachable [OF a(2)] s(1) show ?thesis by blast
qed

theorem lifecycle_serves_a_scan_witness:
  "\<exists>a s l gps. started sample_world sample_command_line a \<and> life_reachable sample_world a s \<and>
    fi_listeners (lf_ingester s) = [l] \<and> locator_groups l = Some gps"
proof -
  obtain a where a: "started sample_world sample_command_line a" "ap_hooks a = [CheckerHook, ServerHook ''dns'']"
    "the (ap_config a) = sample_main"
    using sample_started [of sample_env] unfolding sample_world_def by blast
  let ?s = "sample_running sample_world a"
  have "lf_scans ?s = [initial_env sample_world]" by (simp add: sample_running_def life_init_def)
  with lifecycle_serves_a_scan [OF a(1) sample_running_reachable [OF a(2)]] sample_first_scan [OF a(3)]
  obtain l gps where "fi_listeners (lf_ingester ?s) = [l]" "locator_groups l = Some gps"
    by (auto split: option.splits)
  with a(1) sample_running_reachable [OF a(2)] show ?thesis by blast
qed

theorem server_exit_ends_program_witness:
  "\<exists>a s s'. started sample_world sample_command_line a \<and> life_reachable sample_world a s \<and>
    lf_phase s = Running \<and> (life_step sample_world a)\<^sup>*\<^sup>* s s' \<and> lf_phase s' = Stopped"
proof -
  obtain a i where a: "started sample_world sample_command_line a" "ap_hooks a = [CheckerHook, ServerHook ''dns'']"
    "gomap_lookup (the (ap_bundle a)) ''dns'' = Some i"
    using sample_started [of sample_env] unfolding sample_world_def by blast
  let ?s = "sample_running sample_world a"
  have s: "lf_phase ?s = Running" "lf_servers ?s ''dns'' = Serving"
    by (simp_all add: sample_running_def life_init_def)
  from server_exit_ends_program [OF a(1) sample_running_reachable [OF a(2)]] s(2) a(3)
  have "life_step sample_world a ?s (?s\<lparr>lf_servers := (lf_servers ?s)(''dns'' := Exited None), lf_signal := True\<rparr>)"
    "can_end sample_world a (?s\<lparr>lf_servers := (lf_servers ?s)(''dns'' := Exited None), lf_signal := True\<rparr>)"
    by (simp_all add: Let_def)
  then obtain s' where "(life_step sample_world a)\<^sup>*\<^sup>* ?s s'" "lf_phase s' = Stopped"
    unfolding can_end_def by (meson converse_rtranclp_into_rtranclp)
  with a(1) s(1) sample_running_reachable [OF a(2)] show ?thesis by blast
qed

end
