(* ===== verification/Locator_Linearizable.thy ===== *)
theory Locator_Linearizable
  imports Locator_Progress
begin

text \<open>
  The calls of the locator take effect at one moment between their start and their return: a lookup
  finds what the locator holds then, whole, and an update is what the locator holds then. So a
  lookup that starts after an update has returned never finds older groups.
\<close>

section \<open>The call a goroutine runs\<close>

datatype asked = AskFind string "string list" | AskGroups | AskUpdate "addr list groups"

fun asks :: "'r goroutine \<Rightarrow> asked" where
  "asks (FindStart object names) = AskFind object names"
| "asks (FindAll object todo results) = AskFind object []"
| "asks (FindNamed object names todo results) = AskFind object names"
| "asks (FindDone object names results) = AskFind object names"
| "asks GroupsStart = AskGroups"
| "asks (GroupsRead gps_ptr) = AskGroups"
| "asks (GroupsDone gps_ptr) = AskGroups"
| "asks (UpdateStart gps) = AskUpdate gps"
| "asks (UpdateBuilt gps by_name all) = AskUpdate gps"
| "asks (UpdateWrite k gps by_name all) = AskUpdate gps"
| "asks (UpdateDone gps) = AskUpdate gps"

text \<open>The pointer that \<open>Groups\<close> has read.\<close>

fun groups_read :: "'r goroutine \<Rightarrow> addr list groups option option" where
  "groups_read (GroupsRead gps_ptr) = Some gps_ptr"
| "groups_read (GroupsDone gps_ptr) = Some gps_ptr"
| "groups_read _ = None"

lemma lstep_asks: "lstep md s s' \<Longrightarrow> asks (sys_threads s' i) = asks (sys_threads s i)"
  by (induction rule: lstep.induct) auto

lemma lstep_finished: "lstep md s s' \<Longrightarrow> finished (sys_threads s i) \<Longrightarrow> sys_threads s' i = sys_threads s i"
  by (induction rule: lstep.induct) auto

lemma lstep_groups_read:
  "lstep md s s' \<Longrightarrow> groups_read (sys_threads s i) = Some gps_ptr \<Longrightarrow> groups_read (sys_threads s' i) = Some gps_ptr"
  by (induction rule: lstep.induct) auto

section \<open>The step that takes effect\<close>

lemma find_returns:
  assumes step: "lstep md s s'" and ok: "system_ok md b U s"
    and "\<not> finished (sys_threads s i)" and "sys_threads s' i = FindDone object names results"
  shows "sys_writer s = None \<and> results = find_string md (sys_loc s) object names"
proof -
  have th: "goroutine_ok md b U (sys_loc s) (sys_threads s i)" using ok unfolding system_ok_def by blast
  have "reading (sys_threads s i) \<and> results = find_string md (sys_loc s) object names"
    using step
  proof cases
    case (find_unlock_all j obj res)
    with assms(3,4) th show ?thesis by (cases "j = i") auto
  next
    case (find_unlock_named j obj ns res)
    with assms(3,4) th show ?thesis by (cases "j = i") auto
  qed (use assms(3,4) in \<open>auto split: if_splits\<close>)
  with reader_published(2) [OF ok] show ?thesis by blast
qed

lemma groups_reads:
  assumes "lstep md s s'" and "sys_threads s i = GroupsStart" and "sys_threads s' i \<noteq> GroupsStart"
  shows "sys_writer s = None \<and> sys_threads s' i = GroupsRead (locator_groups (sys_loc s))"
  using assms by cases (auto simp: locator_groups_def split: if_splits)

lemma update_returns:
  assumes step: "lstep md s s'" and ok: "system_ok md b U s"
    and "\<not> finished (sys_threads s i)" and "sys_threads s' i = UpdateDone gps"
  shows "sys_writer s' = None \<and> sys_loc s' = published md b (Some gps)"
  using step
proof cases
  case (update_unlock j gps' by_name all)
  with assms(3,4) have "j = i" "gps' = gps" by (auto split: if_splits)
  with writer_step [OF ok update_unlock(2)] update_unlock(1) show ?thesis
    by (auto intro: published_fields)
qed (use assms(3,4) in \<open>auto split: if_splits\<close>)

section \<open>Runs\<close>

lemma lsteps_asks: "(lstep md)\<^sup>*\<^sup>* s s' \<Longrightarrow> asks (sys_threads s' i) = asks (sys_threads s i)"
  by (induction rule: rtranclp_induct) (simp_all add: lstep_asks)

lemma lsteps_finished:
  "(lstep md)\<^sup>*\<^sup>* s s' \<Longrightarrow> finished (sys_threads s i) \<Longrightarrow> sys_threads s' i = sys_threads s i"
  by (induction rule: rtranclp_induct) (simp_all add: lstep_finished)

lemma lsteps_groups_read:
  "(lstep md)\<^sup>*\<^sup>* s s' \<Longrightarrow> groups_read (sys_threads s i) = Some gps_ptr \<Longrightarrow>
     groups_read (sys_threads s' i) = Some gps_ptr"
  by (induction rule: rtranclp_induct) (simp_all add: lstep_groups_read)

text \<open>What the locator holds when nobody is writing to it, at some moment of a run.\<close>

definition held_between ::
  "('b, 'q, 'r) medley \<Rightarrow> ('b, 'r) system \<Rightarrow> ('b, 'r) system \<Rightarrow> ('b, 'r) locator \<Rightarrow> bool" where
  "held_between md s t l \<longleftrightarrow>
     (\<exists>u. (lstep md)\<^sup>*\<^sup>* s u \<and> (lstep md)\<^sup>*\<^sup>* u t \<and> sys_writer u = None \<and> sys_loc u = l)"

lemma find_between:
  assumes run: "(lstep md)\<^sup>*\<^sup>* s t" and ok: "system_ok md b U s"
    and "sys_threads s i = FindStart object names" and "finished (sys_threads t i)"
  shows "\<exists>l. held_between md s t l \<and> sys_threads t i = FindDone object names (find_string md l object names)"
proof -
  obtain u v where uv: "(lstep md)\<^sup>*\<^sup>* s u" "lstep md u v" "(lstep md)\<^sup>*\<^sup>* v t"
    "\<not> finished (sys_threads u i)" "finished (sys_threads v i)"
    using first_step [OF run, of "\<lambda>s. finished (sys_threads s i)"] assms(3,4) by auto
  have "asks (sys_threads v i) = AskFind object names"
    using lstep_asks [OF uv(2), of i] lsteps_asks [OF uv(1), of i] assms(3) by simp
  with uv(5) obtain results where v: "sys_threads v i = FindDone object names results"
    by (cases "sys_threads v i") auto
  note found = find_returns [OF uv(2) lock.steps_inv [OF uv(1) ok] uv(4) v]
  have "(lstep md)\<^sup>*\<^sup>* u t" using uv(2,3) by (rule converse_rtranclp_into_rtranclp)
  with uv(1) found have "held_between md s t (sys_loc u)" unfolding held_between_def by blast
  moreover have "sys_threads t i = FindDone object names results" using lsteps_finished [OF uv(3,5)] v by simp
  ultimately show ?thesis using found by blast
qed

lemma groups_between:
  assumes run: "(lstep md)\<^sup>*\<^sup>* s t" and "sys_threads s i = GroupsStart" and "finished (sys_threads t i)"
  shows "\<exists>l. held_between md s t l \<and> sys_threads t i = GroupsDone (locator_groups l)"
proof -
  obtain u v where uv: "(lstep md)\<^sup>*\<^sup>* s u" "lstep md u v" "(lstep md)\<^sup>*\<^sup>* v t"
    "sys_threads u i = GroupsStart" "sys_threads v i \<noteq> GroupsStart"
    using first_step [OF run, of "\<lambda>s. sys_threads s i \<noteq> GroupsStart"] assms(2,3) by fastforce
  note read = groups_reads [OF uv(2,4,5)]
  have "groups_read (sys_threads t i) = Some (locator_groups (sys_loc u))"
    using lsteps_groups_read [OF uv(3)] read by simp
  with assms(3) have "sys_threads t i = GroupsDone (locator_groups (sys_loc u))"
    by (cases "sys_threads t i") auto
  moreover have "(lstep md)\<^sup>*\<^sup>* u t" using uv(2,3) by (rule converse_rtranclp_into_rtranclp)
  with uv(1) read have "held_between md s t (sys_loc u)" unfolding held_between_def by blast
  ultimately show ?thesis by blast
qed

lemma update_between:
  assumes run: "(lstep md)\<^sup>*\<^sup>* s t" and ok: "system_ok md b U s"
    and "sys_threads s i = UpdateStart gps" and "finished (sys_threads t i)"
  shows "held_between md s t (published md b (Some gps))"
proof -
  obtain u v where uv: "(lstep md)\<^sup>*\<^sup>* s u" "lstep md u v" "(lstep md)\<^sup>*\<^sup>* v t"
    "\<not> finished (sys_threads u i)" "finished (sys_threads v i)"
    using first_step [OF run, of "\<lambda>s. finished (sys_threads s i)"] assms(3,4) by auto
  have "asks (sys_threads v i) = AskUpdate gps"
    using lstep_asks [OF uv(2), of i] lsteps_asks [OF uv(1), of i] assms(3) by simp
  with uv(5) have v: "sys_threads v i = UpdateDone gps" by (cases "sys_threads v i") auto
  note made = update_returns [OF uv(2) lock.steps_inv [OF uv(1) ok] uv(4) v]
  have "(lstep md)\<^sup>*\<^sup>* s v" using uv(1,2) by (rule rtranclp.rtrancl_into_rtrancl)
  with uv(3) made show ?thesis unfolding held_between_def by blast
qed

section \<open>Properties\<close>

text \<open>
  Property C7: the locator is linearizable. However the goroutines interleave, a lookup that has
  returned found what \<open>FindString\<close> finds in the locator as it was, whole, at a moment between the
  call and the return; \<open>Groups\<close> returned its groups at such a moment; and at such a moment of an
  update the locator held exactly its groups.
\<close>

theorem locator_linearizable:
  assumes "(lstep md)\<^sup>*\<^sup>* (start_system md b old threads) s" and "\<forall>i. not_started (threads i)"
    and "(lstep md)\<^sup>*\<^sup>* s t" and "finished (sys_threads t i)"
  shows "(\<forall>object names. sys_threads s i = FindStart object names \<longrightarrow>
      (\<exists>l. held_between md s t l \<and> sys_threads t i = FindDone object names (find_string md l object names))) \<and>
    (sys_threads s i = GroupsStart \<longrightarrow>
      (\<exists>l. held_between md s t l \<and> sys_threads t i = GroupsDone (locator_groups l))) \<and>
    (\<forall>gps. sys_threads s i = UpdateStart gps \<longrightarrow> held_between md s t (published md b (Some gps)))"
  using find_between [OF assms(3) run_ok [OF assms(1,2)]] groups_between [OF assms(3)]
    update_between [OF assms(3) run_ok [OF assms(1,2)]] assms(4) by blast

theorem locator_linearizable_witness:
  "\<exists>t l. held_between sample_medley (start_system sample_medley 0 None sample_threads) t l \<and>
     find_string sample_medley l ''x'' [] = [Some sample_endpoint]"
proof -
  let ?s = "start_system sample_medley 0 None sample_threads"
  obtain t where t: "run_schedule sample_medley [1, 2, 2, 1, 1, 1, 1, 1, 0, 0, 0] ?s = Some t"
    "sys_threads t 0 = FindDone ''x'' [] [Some sample_endpoint]"
    using sample_run(2) by auto
  have "\<forall>i. not_started (sample_threads i)" by (simp add: sample_threads_def)
  moreover have "sys_threads ?s 0 = FindStart ''x'' []" by (simp add: start_system_def sample_threads_def)
  moreover have "finished (sys_threads t 0)" using t(2) by simp
  ultimately have "\<exists>l. held_between sample_medley ?s t l \<and>
      sys_threads t 0 = FindDone ''x'' [] (find_string sample_medley l ''x'' [])"
    using locator_linearizable [OF _ _ run_schedule_lsteps [OF t(1)], of 0 None sample_threads 0] by blast
  with t(2) show ?thesis by (metis goroutine.inject(4))
qed

end
