(* ===== verification/Program_Steps.thy ===== *)
theory Program_Steps
  imports Lone_Call Lifecycle Locator_Linearizable
begin

text \<open>
  The running program at its finest grain: the hooks, servers and signals of \<open>Lifecycle\<close>, the calls of
  \<open>Ingest\<close> in their atomic steps, every access to the locator and its lock, and requests that arrive
  at any time. An ingest is no longer one step, and requests are served while it is under way. The
  refinement shows that \<open>Lifecycle\<close>, where an ingest is one step, is right about this program.
\<close>

section \<open>States\<close>

text \<open>
  \<open>pg_life\<close> is the state of the hooks, servers and the checker; its ingester is the one that the last
  ingest left when it returned, and \<open>pg_serving\<close> what the ingester and the locator are now. Goroutine
  \<open>k\<close> of the checker makes call \<open>pg_call k\<close>, in environment \<open>pg_env k\<close>; calls and requests are numbered
  as they come, from \<open>pg_next\<close> on.
\<close>

record ('b, 'r, 'x, 'e) program =
  pg_life :: "('b, 'r, 'x, 'e) life"
  pg_serving :: "('b, 'r, 'x) serving"
  pg_call :: "nat \<Rightarrow> nat"
  pg_env :: "nat \<Rightarrow> 'x ingest_env"
  pg_next :: nat

text \<open>The ingester with its one listener, the locator.\<close>

definition shown_ingester :: "('b, 'r, 'x) serving \<Rightarrow> ('b, 'r) ingester_state" where
  "shown_ingester s = with_listeners [sys_loc (sv_locator s)] (is_fi (sv_ingests s))"

abbreviation first_locator :: "('b, 'r, 'l, 'c, 'u) app \<Rightarrow> ('b, 'r) locator" where
  "first_locator a \<equiv> hd (fi_listeners (the (ap_ingester a)))"

definition program_init ::
  "('b, 'q, 'r, 'm, 'e, 'l, 'f, 'c, 'x, 'u) externals \<Rightarrow> ('b, 'r, 'l, 'c, 'u) app \<Rightarrow> ('b, 'r, 'x, 'e) program" where
  "program_init ex a =
     \<lparr>pg_life = life_init ex a,
      pg_serving =
        \<lparr>sv_ingests = no_calls (with_listeners [()] (the (ap_ingester a))),
         sv_locator = \<lparr>sys_loc = first_locator a, sys_writer = None, sys_readers = {},
           sys_threads = \<lambda>_. idle (loc_groups (first_locator a))\<rparr>\<rparr>,
      pg_call = \<lambda>_. 0, pg_env = \<lambda>_. initial_env ex, pg_next = 0\<rparr>"

section \<open>Steps\<close>

text \<open>The goroutines of the checker that have called \<open>Ingest\<close>.\<close>

definition ingesting :: "checker_state \<Rightarrow> nat set" where
  "ingesting c = {k. k < length (cs_workers c) \<and> cs_workers c ! k = Ingesting}"

definition set_worker :: "nat \<Rightarrow> worker \<Rightarrow> ('b, 'r, 'x, 'e) life \<Rightarrow> ('b, 'r, 'x, 'e) life" where
  "set_worker k w l = l\<lparr>lf_checker := (lf_checker l)\<lparr>cs_workers := (cs_workers (lf_checker l))[k := w]\<rparr>\<rparr>"

inductive program_step ::
  "('b, 'q, 'r, 'm, 'e, 'l, 'f, 'c, 'x, 'u) externals \<Rightarrow> ('b, 'r, 'l, 'c, 'u) app
    \<Rightarrow> ('b, 'r, 'x, 'e) program \<Rightarrow> ('b, 'r, 'x, 'e) program \<Rightarrow> bool"
  for ex a
where
  life_moves:
    "life_step ex a (pg_life s) l \<Longrightarrow> ingesting (lf_checker l) = ingesting (lf_checker (pg_life s)) \<Longrightarrow>
     program_step ex a s (s\<lparr>pg_life := l\<rparr>)"
| ingest_begins:
    "k < length (cs_workers (lf_checker (pg_life s))) \<Longrightarrow>
     cs_workers (lf_checker (pg_life s)) ! k = Selecting \<Longrightarrow>
     program_step ex a s (s\<lparr>pg_life := set_worker k Ingesting (pg_life s),
       pg_serving := set_call (pg_next s) (CallStart env) (pg_serving s),
       pg_call := (pg_call s)(k := pg_next s), pg_env := (pg_env s)(k := env), pg_next := Suc (pg_next s)\<rparr>)"
| serving_moves:
    "serve_step (ex_growth ex) (ex_orders ex) (ex_medley ex) (pg_serving s) sv \<Longrightarrow>
     program_step ex a s (s\<lparr>pg_serving := sv\<rparr>)"
| ingest_ends:
    "k < length (cs_workers (lf_checker (pg_life s))) \<Longrightarrow>
     cs_workers (lf_checker (pg_life s)) ! k = Ingesting \<Longrightarrow>
     sv_call (pg_serving s) (pg_call s k) = CallDone \<Longrightarrow>
     program_step ex a s (s\<lparr>pg_life := (set_worker k Selecting (pg_life s))
       \<lparr>lf_ingester := shown_ingester (pg_serving s), lf_scans := pg_env s k # lf_scans (pg_life s)\<rparr>\<rparr>)"
| request_arrives:
    "lf_servers (pg_life s) n = Serving \<Longrightarrow> is_question t \<Longrightarrow>
     program_step ex a s (s\<lparr>pg_serving := set_thread (pg_next s) t (pg_serving s), pg_next := Suc (pg_next s)\<rparr>)"

abbreviation program_reachable ::
  "('b, 'q, 'r, 'm, 'e, 'l, 'f, 'c, 'x, 'u) externals \<Rightarrow> ('b, 'r, 'l, 'c, 'u) app \<Rightarrow> ('b, 'r, 'x, 'e) program \<Rightarrow> bool" where
  "program_reachable ex a s \<equiv> (program_step ex a)\<^sup>*\<^sup>* (program_init ex a) s"

section \<open>The invariant\<close>

text \<open>
  Seen as calls whose listener is told in one step (\<open>effective_calls\<close>), the ingester is the one of
  \<open>Lifecycle\<close>, or in the middle of the only call under way.
\<close>

definition ingests_ok ::
  "('b, 'q, 'r, 'm, 'e, 'l, 'f, 'c, 'x, 'u) externals \<Rightarrow> 'b \<Rightarrow> ('b, 'r, 'x, 'e) program \<Rightarrow> bool" where
  "ingests_ok ex b s \<longleftrightarrow>
     (let t = effective_calls (ex_medley ex) b (pg_serving s); fi = lf_ingester (pg_life s)
      in if ingesting (lf_checker (pg_life s)) = {} then t = no_calls fi
         else \<exists>k n. ingesting (lf_checker (pg_life s)) = {k} \<and>
           run_call (ex_growth ex) (ex_orders ex) (on_ingest (ex_medley ex)) n (pg_call s k)
             (lone_call fi (pg_call s k) (pg_env s k)) = Some t)"

lemma ingests_ok_cong:
  assumes "effective_calls (ex_medley ex) b (pg_serving s') = effective_calls (ex_medley ex) b (pg_serving s)"
    and "lf_ingester (pg_life s') = lf_ingester (pg_life s)"
    and "ingesting (lf_checker (pg_life s')) = ingesting (lf_checker (pg_life s))"
    and "pg_call s' = pg_call s" and "pg_env s' = pg_env s"
  shows "ingests_ok ex b s' = ingests_ok ex b s"
  by (simp only: ingests_ok_def assms)

lemma ingests_ok_under_way:
  assumes "ingesting (lf_checker (pg_life s)) = {k}"
    and "run_call (ex_growth ex) (ex_orders ex) (on_ingest (ex_medley ex)) n (pg_call s k)
      (lone_call (lf_ingester (pg_life s)) (pg_call s k) (pg_env s k)) =
      Some (effective_calls (ex_medley ex) b (pg_serving s))"
  shows "ingests_ok ex b s"
  unfolding ingests_ok_def Let_def using assms by (simp del: replicate.simps) blast

definition program_ok ::
  "('b, 'q, 'r, 'm, 'e, 'l, 'f, 'c, 'x, 'u) externals \<Rightarrow> command_line \<Rightarrow> ('b, 'r, 'l, 'c, 'u) app
    \<Rightarrow> ('b, 'r, 'x, 'e) program \<Rightarrow> bool" where
  "program_ok ex cl a s \<longleftrightarrow>
     (let old = loc_groups (first_locator a); b = app_builder ex cl a in
      life_reachable ex a (pg_life s) \<and>
      finite_serving (ex_medley ex) b (ex_growth ex) (ex_orders ex) old
        (with_listeners [()] (the (ap_ingester a))) UNIV (pg_serving s) \<and>
      ingests_ok ex b s \<and>
      (\<forall>j \<ge> pg_next s. sv_call (pg_serving s) j = CallDone \<and> sv_thread (pg_serving s) j = idle old))"

lemma with_listeners_again [simp]:
  "with_listeners ls (with_listeners ms fi) = with_listeners ls fi"
  "with_listeners (fi_listeners fi) fi = fi"
  by (simp_all add: with_listeners_def)

lemma life_ingests:
  fixes ex :: "('b, 'q, 'r, 'm, 'e, 'l, 'f, 'c, 'x, 'u) externals" and env :: "'x ingest_env"
  assumes "started ex cl a" and "life_reachable ex a s"
  shows "\<exists>l. fi_listeners (lf_ingester s) = [l] \<and> l = published (ex_medley ex) (app_builder ex cl a) (loc_groups l)"
    and "\<exists>fi'. ingest (ex_growth ex) (ex_orders ex) env (on_ingest (ex_medley ex)) (lf_ingester s) = Inr fi'"
proof -
  have serves: "serves_a_scan ex (app_builder ex cl a) (first_ingester ex cl a) (lf_scans s) (lf_ingester s)"
    using assms(2,1) by (rule life_serves)
  then show "\<exists>l. fi_listeners (lf_ingester s) = [l] \<and> l = published (ex_medley ex) (app_builder ex cl a) (loc_groups l)"
    by (auto simp: serves_a_scan_def published_def zero_locator_def split: if_splits)
  then have "\<forall>l \<in> set (fi_listeners (lf_ingester s)). is_published (ex_medley ex) (app_builder ex cl a) l"
    by (auto simp: is_published_def)
  from ingest_locators [OF this]
  show "\<exists>fi'. ingest (ex_growth ex) (ex_orders ex) env (on_ingest (ex_medley ex)) (lf_ingester s) = Inr fi'"
    by blast
qed

lemma program_ok_init:
  fixes ex :: "('b, 'q, 'r, 'm, 'e, 'l, 'f, 'c, 'x, 'u) externals"
  assumes "started ex cl a"
  shows "program_ok ex cl a (program_init ex a)"
proof -
  let ?fi = "the (ap_ingester a)" and ?md = "ex_medley ex" and ?b = "app_builder ex cl a"
  let ?old = "loc_groups (first_locator a)"
  let ?s = "start_serving ?md ?b ?old (with_listeners [()] ?fi) (\<lambda>_. None :: 'x ingest_env option) (\<lambda>_. idle ?old)"
  have "life_reachable ex a (life_init ex a)" by simp
  from life_ingests(1) [OF assms this] obtain l where
    l: "fi_listeners ?fi = [l]" "published ?md ?b (loc_groups l) = l"
    by (auto simp: life_init_def)
  have loc: "first_locator a = l" using l(1) by simp
  have serving: "pg_serving (program_init ex a) = ?s"
    using l(2) by (simp add: program_init_def start_serving_def start_calls_def start_system_def no_calls_def loc)
  have "\<forall>i. is_request ?old (idle ?old)" by (simp add: idle_def)
  from finite_serving_start [where envs = "\<lambda>_. None :: 'x ingest_env option" and fi = "with_listeners [()] ?fi"
    and md = ?md and b = ?b and g = "ex_growth ex" and ords = "ex_orders ex", OF this] have
    "finite_serving ?md ?b (ex_growth ex) (ex_orders ex) ?old (with_listeners [()] ?fi) {} ?s"
    by (simp add: ingest_envs_def)
  then have "finite_serving ?md ?b (ex_growth ex) (ex_orders ex) ?old (with_listeners [()] ?fi) UNIV ?s"
    by (rule finite_serving_mono) simp
  moreover have same: "with_listeners [l] ?fi = ?fi" using with_listeners_again(2) [of ?fi] by (simp only: l(1))
  have "effective_calls ?md ?b ?s = start_calls (with_listeners [l] ?fi) (\<lambda>_. None)"
    by (subst start_effective) (simp_all add: idle_def l)
  then have eff: "effective_calls ?md ?b ?s = no_calls ?fi"
    by (simp add: same start_calls_def no_calls_def)
  have fields: "pg_life (program_init ex a) = life_init ex a"
    "sv_call (pg_serving (program_init ex a)) j = CallDone"
    "sv_thread (pg_serving (program_init ex a)) j = idle ?old" for j
    by (simp_all add: program_init_def no_calls_def)
  have "ingesting (lf_checker (life_init ex a :: ('b, 'r, 'x, 'e) life)) = {}"
    by (simp add: ingesting_def life_init_def checker_zero_def)
  then have "ingests_ok ex ?b (program_init ex a)"
    unfolding ingests_ok_def Let_def fields(1) serving eff by (simp add: life_init_def)
  ultimately show ?thesis
    unfolding program_ok_def Let_def by (simp only: serving [symmetric] fields) simp
qed

text \<open>A goroutine without a call of \<open>Ingest\<close> is only moved by the locator.\<close>

lemma serve_step_request:
  assumes "serve_step g ords md s s'" and "sv_call s i = CallDone"
  shows "sv_call s' i = CallDone \<and> (sv_thread s' i = sv_thread s i \<or> lstep md (sv_locator s) (sv_locator s'))"
  using assms(1)
proof cases
  case (ingest_moves j t)
  then have "i \<noteq> j" using assms(2) advance_call_Done [of "sv_ingests s" i] by auto
  with ingest_moves assms(2) advance_call_others [of g ords _ j "sv_ingests s" t i] show ?thesis by simp
qed (use assms(2) in \<open>auto simp: set_call_def set_thread_def\<close>)

lemma serve_step_unused:
  "serve_step g ords md s s' \<Longrightarrow> sv_call s j = CallDone \<Longrightarrow> sv_thread s j = idle old \<Longrightarrow>
     sv_call s' j = CallDone \<and> sv_thread s' j = idle old"
  using serve_step_request [of g ords md s s' j] lstep_finished [of md "sv_locator s" "sv_locator s'" j]
  by (auto simp: idle_def)

text \<open>The other steps of \<open>Lifecycle\<close> leave the ingester alone.\<close>

lemma life_step_ingester:
  assumes "life_step ex a s s'" and "ingesting (lf_checker s') = ingesting (lf_checker s)"
  shows "lf_ingester s' = lf_ingester s \<and> lf_scans s' = lf_scans s"
  using assms(1)
proof cases
  case (start_next k)
  then show ?thesis by (cases "ap_hooks a ! k") simp_all
next
  case (stop_next k)
  then show ?thesis by (cases "ap_hooks a ! k") simp_all
next
  case (ingest_returns k env fi')
  then have "k \<in> ingesting (lf_checker s)" "k \<notin> ingesting (lf_checker s')"
    by (simp_all add: ingesting_def)
  with assms(2) show ?thesis by simp
qed simp_all

lemma ingesting_set_worker:
  assumes "k < length (cs_workers (lf_checker l))"
  shows "ingesting (lf_checker (set_worker k w l)) =
    (if w = Ingesting then insert k (ingesting (lf_checker l)) else ingesting (lf_checker l) - {k})"
  using assms by (auto simp: ingesting_def set_worker_def nth_list_update)

lemma program_okD:
  assumes "program_ok ex cl a s"
  shows "life_reachable ex a (pg_life s)"
    and "finite_serving (ex_medley ex) (app_builder ex cl a) (ex_growth ex) (ex_orders ex) (loc_groups (first_locator a))
        (with_listeners [()] (the (ap_ingester a))) UNIV (pg_serving s)"
    and "serving_ok (ex_medley ex) (app_builder ex cl a) (ex_growth ex) (ex_orders ex) (loc_groups (first_locator a))
        (with_listeners [()] (the (ap_ingester a))) UNIV (pg_serving s)"
    and "ingests_ok ex (app_builder ex cl a) s"
    and "pg_next s \<le> j \<Longrightarrow> sv_call (pg_serving s) j = CallDone"
    and "pg_next s \<le> j \<Longrightarrow> sv_thread (pg_serving s) j = idle (loc_groups (first_locator a))"
  using assms by (simp_all add: program_ok_def Let_def finite_serving_def)

lemma effective_call_Done: "effective_call t c = CallDone \<longleftrightarrow> c = CallDone"
  by (cases "(t, c)" rule: effective_call.cases) auto

lemma no_calls_shown:
  assumes "serving_ok md b g ords old fi E s" and "effective_calls md b s = no_calls fi'"
  shows "sv_call s i = CallDone" and "fi' = shown_ingester s"
proof -
  have "effective_call (sv_thread s j) (sv_call s j) = CallDone" for j
    using assms(2) by (simp add: effective_calls_def no_calls_def fun_eq_iff)
  then show calls: "sv_call s j = CallDone" for j
    by (simp add: effective_call_Done)
  have "fi' = is_fi (effective_calls md b s)" by (simp add: assms(2) no_calls_def)
  with no_writer [OF assms(1) calls] show "fi' = shown_ingester s"
    by (simp add: effective_calls_def effective_def shown_ingester_def)
qed

text \<open>When the call under way has returned, the ingester is what \<open>ingest\<close> makes of it.\<close>

lemma program_call_returned:
  fixes ex :: "('b, 'q, 'r, 'm, 'e, 'l, 'f, 'c, 'x, 'u) externals"
  assumes ok: "program_ok ex cl a s" and start: "started ex cl a"
    and k: "k \<in> ingesting (lf_checker (pg_life s))" and "sv_call (pg_serving s) (pg_call s k) = CallDone"
  shows "ingesting (lf_checker (pg_life s)) = {k}"
    and "ingest (ex_growth ex) (ex_orders ex) (pg_env s k) (on_ingest (ex_medley ex)) (lf_ingester (pg_life s)) =
      Inr (shown_ingester (pg_serving s))"
    and "effective_calls (ex_medley ex) (app_builder ex cl a) (pg_serving s) = no_calls (shown_ingester (pg_serving s))"
proof -
  let ?t = "effective_calls (ex_medley ex) (app_builder ex cl a) (pg_serving s)"
  obtain n where n: "ingesting (lf_checker (pg_life s)) = {k}"
    "run_call (ex_growth ex) (ex_orders ex) (on_ingest (ex_medley ex)) n (pg_call s k)
       (lone_call (lf_ingester (pg_life s)) (pg_call s k) (pg_env s k)) = Some ?t"
    using program_okD(4) [OF ok] k by (auto simp: ingests_ok_def Let_def split: if_splits)
  obtain fi' where fi': "ingest (ex_growth ex) (ex_orders ex) (pg_env s k) (on_ingest (ex_medley ex))
      (lf_ingester (pg_life s)) = Inr fi'"
    using life_ingests(2) [OF start program_okD(1) [OF ok]] by blast
  have "is_calls ?t (pg_call s k) = CallDone" using assms(4) by (simp add: effective_calls_def)
  from lone_call_result [OF fi' n(2) this] have t: "?t = no_calls fi'" .
  have "fi' = shown_ingester (pg_serving s)" using no_calls_shown(2) [OF program_okD(3) [OF ok] t] .
  with n(1) fi' t show "ingesting (lf_checker (pg_life s)) = {k}"
    and "ingest (ex_growth ex) (ex_orders ex) (pg_env s k) (on_ingest (ex_medley ex)) (lf_ingester (pg_life s)) =
      Inr (shown_ingester (pg_serving s))"
    and "?t = no_calls (shown_ingester (pg_serving s))" by simp_all
qed

section \<open>The refinement\<close>

lemma program_begins:
  fixes env :: "'x ingest_env"
  assumes ok: "program_ok ex cl a s" and start: "started ex cl a"
    and k: "k < length (cs_workers (lf_checker (pg_life s)))" "cs_workers (lf_checker (pg_life s)) ! k = Selecting"
  defines "s' \<equiv> s\<lparr>pg_life := set_worker k Ingesting (pg_life s),
    pg_serving := set_call (pg_next s) (CallStart env) (pg_serving s),
    pg_call := (pg_call s)(k := pg_next s), pg_env := (pg_env s)(k := env), pg_next := Suc (pg_next s)\<rparr>"
  shows "program_ok ex cl a s' \<and> life_step ex a (pg_life s) (pg_life s')"
proof -
  note D = program_okD [OF ok]
  have life: "life_step ex a (pg_life s) (pg_life s')"
    using ticked [OF k] by (simp add: s'_def set_worker_def)
  have "length (cs_workers (lf_checker (pg_life s))) \<le> 1"
    using D(1) started_hooks(2) [OF start] by (rule one_worker)
  with k obtain w where "cs_workers (lf_checker (pg_life s)) = [w]" "w = Selecting"
    by (cases "cs_workers (lf_checker (pg_life s))") auto
  then have "ingesting (lf_checker (pg_life s)) = {}" by (auto simp: ingesting_def)
  with D(4) ingesting_set_worker [OF k(1)] have
    t: "effective_calls (ex_medley ex) (app_builder ex cl a) (pg_serving s) = no_calls (lf_ingester (pg_life s))"
    and now: "ingesting (lf_checker (set_worker k Ingesting (pg_life s))) = {k}"
    by (simp_all add: ingests_ok_def Let_def)
  note began = serving_begin [OF D(2) D(5,6) [OF order_refl], of env]
  have eff: "effective_calls (ex_medley ex) (app_builder ex cl a) (pg_serving s') =
      lone_call (lf_ingester (pg_life s)) (pg_next s) env"
    using began(2) by (simp add: s'_def t no_calls_def lone_call_def)
  have fields: "lf_ingester (pg_life s') = lf_ingester (pg_life s)" "pg_call s' k = pg_next s" "pg_env s' k = env"
    "ingesting (lf_checker (pg_life s')) = {k}"
    using now by (simp_all add: s'_def set_worker_def)
  have "run_call (ex_growth ex) (ex_orders ex) (on_ingest (ex_medley ex)) 0 (pg_call s' k)
      (lone_call (lf_ingester (pg_life s')) (pg_call s' k) (pg_env s' k)) =
      Some (effective_calls (ex_medley ex) (app_builder ex cl a) (pg_serving s'))"
    by (simp add: fields eff)
  with fields(4) have "ingests_ok ex (app_builder ex cl a) s'" by (rule ingests_ok_under_way)
  moreover have "sv_call (pg_serving s') j = CallDone \<and> sv_thread (pg_serving s') j = idle (loc_groups (first_locator a))"
    if "pg_next s' \<le> j" for j
    using D(5,6) [of j] that by (auto simp: s'_def set_call_def)
  moreover have "life_reachable ex a (pg_life s')" using D(1) life by (rule rtranclp.rtrancl_into_rtrancl)
  ultimately show ?thesis
    using began(1) life by (simp add: program_ok_def Let_def) (simp add: s'_def)
qed

lemma program_serves:
  assumes ok: "program_ok ex cl a s"
    and step: "serve_step (ex_growth ex) (ex_orders ex) (ex_medley ex) (pg_serving s) sv"
  shows "program_ok ex cl a (s\<lparr>pg_serving := sv\<rparr>)"
proof -
  note D = program_okD [OF ok]
  let ?t = "effective_calls (ex_medley ex) (app_builder ex cl a)"
  have "?t sv = ?t (pg_serving s) \<or> istep (ex_growth ex) (ex_orders ex) (on_ingest (ex_medley ex)) (?t (pg_serving s)) (?t sv)"
    using serving_ok_step [OF step D(3)] by blast
  then have "ingests_ok ex (app_builder ex cl a) (s\<lparr>pg_serving := sv\<rparr>)"
  proof
    assume "?t sv = ?t (pg_serving s)"
    then show ?thesis using D(4) by (subst ingests_ok_cong [of _ _ _ s]) simp_all
  next
    assume moved: "istep (ex_growth ex) (ex_orders ex) (on_ingest (ex_medley ex)) (?t (pg_serving s)) (?t sv)"
    with no_step D(4) have "ingesting (lf_checker (pg_life s)) \<noteq> {}"
      by (fastforce simp: ingests_ok_def Let_def)
    with D(4) obtain k n where k: "ingesting (lf_checker (pg_life s)) = {k}"
      "run_call (ex_growth ex) (ex_orders ex) (on_ingest (ex_medley ex)) n (pg_call s k)
        (lone_call (lf_ingester (pg_life s)) (pg_call s k) (pg_env s k)) = Some (?t (pg_serving s))"
      by (auto simp: ingests_ok_def Let_def)
    from lone_step [OF k(2) moved] k(1) show ?thesis by (intro ingests_ok_under_way) (simp_all del: replicate.simps)
  qed
  moreover have "sv_call sv j = CallDone \<and> sv_thread sv j = idle (loc_groups (first_locator a))"
    if "pg_next s \<le> j" for j
    using serve_step_unused [OF step] D(5,6) that by blast
  ultimately show ?thesis
    using D(1) finite_serving_step [OF D(2) step] by (simp add: program_ok_def Let_def)
qed

lemma program_ends:
  assumes ok: "program_ok ex cl a s" and start: "started ex cl a"
    and k: "k < length (cs_workers (lf_checker (pg_life s)))" "cs_workers (lf_checker (pg_life s)) ! k = Ingesting"
    and gone: "sv_call (pg_serving s) (pg_call s k) = CallDone"
  defines "s' \<equiv> s\<lparr>pg_life := (set_worker k Selecting (pg_life s))
    \<lparr>lf_ingester := shown_ingester (pg_serving s), lf_scans := pg_env s k # lf_scans (pg_life s)\<rparr>\<rparr>"
  shows "program_ok ex cl a s' \<and> life_step ex a (pg_life s) (pg_life s')"
proof -
  note D = program_okD [OF ok]
  have mem: "k \<in> ingesting (lf_checker (pg_life s))" using k by (simp add: ingesting_def)
  note ended = program_call_returned [OF ok start mem gone]
  have life: "life_step ex a (pg_life s) (pg_life s')"
    using ingest_returns [OF k ended(2)] by (simp add: s'_def set_worker_def)
  have "ingesting (lf_checker (pg_life s')) = {}"
    using ingesting_set_worker [OF k(1), of Selecting] ended(1) by (simp add: s'_def)
  then have "ingests_ok ex (app_builder ex cl a) s'"
    using ended(3) by (simp add: ingests_ok_def Let_def) (simp add: s'_def)
  moreover have "life_reachable ex a (pg_life s')" using D(1) life by (rule rtranclp.rtrancl_into_rtrancl)
  ultimately show ?thesis
    using D(2,5,6) life by (simp add: program_ok_def Let_def) (simp add: s'_def)
qed

lemma program_ok_step:
  assumes step: "program_step ex a s s'" and ok: "program_ok ex cl a s" and start: "started ex cl a"
  shows "program_ok ex cl a s' \<and> (pg_life s' = pg_life s \<or> life_step ex a (pg_life s) (pg_life s'))"
  using step
proof cases
  case (life_moves l)
  note D = program_okD [OF ok]
  have "life_reachable ex a l" using D(1) life_moves(2) by (rule rtranclp.rtrancl_into_rtrancl)
  moreover have "ingests_ok ex (app_builder ex cl a) (s\<lparr>pg_life := l\<rparr>)"
    using D(4) life_step_ingester [OF life_moves(2,3)] life_moves(3) by (subst ingests_ok_cong [of _ _ _ s]) simp_all
  ultimately show ?thesis using D(2,5,6) life_moves(1,2) by (simp add: program_ok_def Let_def)
next
  case (ingest_begins k env)
  with program_begins [OF ok start ingest_begins(2,3), of env] show ?thesis by simp
next
  case (serving_moves sv)
  with program_serves [OF ok serving_moves(2)] show ?thesis by simp
next
  case (ingest_ends k)
  with program_ends [OF ok start ingest_ends(2-4)] show ?thesis by simp
next
  case (request_arrives n t)
  note D = program_okD [OF ok]
  note arrive = serving_arrive [OF D(2) D(5,6) [OF order_refl] request_arrives(3)]
  have "ingests_ok ex (app_builder ex cl a) s'" 
    using D(4) request_arrives(1) arrive(2) by (subst ingests_ok_cong [of _ _ _ s]) simp_all
  moreover have "sv_call (pg_serving s') j = CallDone \<and> sv_thread (pg_serving s') j = idle (loc_groups (first_locator a))"
    if "pg_next s' \<le> j" for j
    using D(5,6) [of j] that by (auto simp: request_arrives(1) set_thread_def)
  ultimately show ?thesis using D(1) arrive(1) request_arrives(1) by (simp add: program_ok_def Let_def)
qed

interpretation program: step_simulation "program_step ex a" "\<lambda>s. started ex cl a \<and> program_ok ex cl a s"
    "life_step ex a" pg_life
  for ex cl a
  by unfold_locales (blast dest: program_ok_step)

lemma program_run:
  assumes "started ex cl a" and "program_reachable ex a p" and "(program_step ex a)\<^sup>*\<^sup>* p q"
  shows "program_ok ex cl a p" and "(life_step ex a)\<^sup>*\<^sup>* (pg_life p) (pg_life q)"
proof -
  show ok: "program_ok ex cl a p"
    using program.steps_inv [OF assms(2)] program_ok_init [OF assms(1)] assms(1) by blast
  show "(life_step ex a)\<^sup>*\<^sup>* (pg_life p) (pg_life q)"
    using program.simulates [OF assms(3)] ok assms(1) by blast
qed

section \<open>A run for the witnesses\<close>

lemma program_life_steps:
  "(\<lambda>s s'. life_step ex a s s' \<and> ingesting (lf_checker s') = ingesting (lf_checker s))\<^sup>*\<^sup>* l l' \<Longrightarrow>
     (program_step ex a)\<^sup>*\<^sup>* (p\<lparr>pg_life := l\<rparr>) (p\<lparr>pg_life := l'\<rparr>)"
proof (induction rule: rtranclp_induct)
  case (step l' l'')
  then have "program_step ex a (p\<lparr>pg_life := l'\<rparr>) (p\<lparr>pg_life := l''\<rparr>)"
    using life_moves [of ex a "p\<lparr>pg_life := l'\<rparr>" l''] by simp
  with step.IH show ?case by (rule rtranclp.rtrancl_into_rtrancl)
qed simp

text \<open>A program that has started, and the request for its groups that comes first.\<close>

definition sample_program ::
  "('b, 'q, 'r, 'm, 'e, 'l, 'f, 'c, 'x, 'u) externals \<Rightarrow> ('b, 'r, 'l, 'c, 'u) app \<Rightarrow> ('b, 'r, 'x, 'e) program" where
  "sample_program ex a = (let p = (program_init ex a)\<lparr>pg_life := sample_running ex a\<rparr>
     in p\<lparr>pg_serving := set_thread 0 GroupsStart (pg_serving p), pg_next := 1\<rparr>)"

lemma sample_running_quiet:
  fixes ex :: "('b, 'q, 'r, 'm, 'e, 'l, 'f, 'c, 'x, 'u) externals"
  assumes "ap_hooks a = [CheckerHook, ServerHook ''dns'']"
  shows "(\<lambda>s s'. life_step ex a s s' \<and> ingesting (lf_checker s') = ingesting (lf_checker s))\<^sup>*\<^sup>*
    (life_init ex a) (sample_running ex a :: ('b, 'r, 'x, 'e) life)"
proof -
  let ?s0 = "life_init ex a"
  let ?s1 = "?s0\<lparr>lf_phase := Starting 1, lf_checker := checker_start checker_zero\<rparr>"
  let ?s2 = "?s1\<lparr>lf_phase := Starting 2, lf_servers := (\<lambda>_. Idle)(''dns'' := Serving)\<rparr>"
  define R :: "('b, 'r, 'x, 'e) life \<Rightarrow> ('b, 'r, 'x, 'e) life \<Rightarrow> bool" where
    "R = (\<lambda>s s'. life_step ex a s s' \<and> ingesting (lf_checker s') = ingesting (lf_checker s))"
  have "life_step ex a ?s0 ?s1"
    using life_step.start_next [of ?s0 0 a ex] assms by (simp add: life_init_def)
  moreover have "life_step ex a ?s1 ?s2"
    using life_step.start_next [of ?s1 1 a ex] assms by (simp add: life_init_def numeral_2_eq_2)
  moreover have "life_step ex a ?s2 (sample_running ex a)"
    using life_step.all_started [of ?s2 2 a ex] assms by (simp add: sample_running_def life_init_def)
  moreover have "ingesting checker_zero = {}" "ingesting (checker_start checker_zero) = {}"
    by (auto simp: ingesting_def checker_start_def checker_zero_def)
  then have "ingesting (lf_checker ?s0) = {}" "ingesting (lf_checker ?s1) = {}" "ingesting (lf_checker ?s2) = {}"
    "ingesting (lf_checker (sample_running ex a :: ('b, 'r, 'x, 'e) life)) = {}"
    by (simp_all add: life_init_def sample_running_def)
  ultimately have "R ?s0 ?s1" "R ?s1 ?s2" "R ?s2 (sample_running ex a)"
    unfolding R_def by (simp_all only: simp_thms)
  then show ?thesis unfolding R_def [symmetric] by (meson r_into_rtranclp rtranclp.rtrancl_into_rtrancl)
qed

lemma sample_program_reachable:
  fixes ex :: "('b, 'q, 'r, 'm, 'e, 'l, 'f, 'c, 'x, 'u) externals"
  assumes "ap_hooks a = [CheckerHook, ServerHook ''dns'']"
  shows "program_reachable ex a (sample_program ex a)"
proof -
  let ?p0 = "program_init ex a"
  from program_life_steps [OF sample_running_quiet [OF assms], where p = ?p0]
  have "(program_step ex a)\<^sup>*\<^sup>* ?p0 (?p0\<lparr>pg_life := sample_running ex a\<rparr>)"
    by (simp add: program_init_def)
  moreover have "program_step ex a (?p0\<lparr>pg_life := sample_running ex a\<rparr>) (sample_program ex a)"
    using request_arrives [of "?p0\<lparr>pg_life := sample_running ex a\<rparr>" "''dns''" GroupsStart ex a]
    by (simp add: sample_program_def Let_def) (simp add: sample_running_def program_init_def)
  ultimately show ?thesis by (rule rtranclp.rtrancl_into_rtrancl)
qed

section \<open>Properties\<close>

text \<open>
  Property C8: \<open>Lifecycle\<close>, in which an ingest is one step, is right about the program. However hooks,
  servers, signals, the atomic steps of the ingests, the accesses to the locator and its lock, and the
  requests interleave, the program's life runs through steps of \<open>Lifecycle\<close> only. At most one ingest
  is under way, none panics, and when none is, ingester and locator are those of \<open>Lifecycle\<close>.
\<close>

theorem program_refines_life:
  assumes "started ex cl a" and "program_reachable ex a p" and "(program_step ex a)\<^sup>*\<^sup>* p q"
  shows "life_reachable ex a (pg_life p) \<and> (life_step ex a)\<^sup>*\<^sup>* (pg_life p) (pg_life q) \<and>
    ingesting (lf_checker (pg_life p)) \<subseteq> {0} \<and> (\<forall>i panic. sv_call (pg_serving p) i \<noteq> CallPanicked panic) \<and>
    (ingesting (lf_checker (pg_life p)) = {} \<longrightarrow>
       (\<forall>i. sv_call (pg_serving p) i = CallDone) \<and> lf_ingester (pg_life p) = shown_ingester (pg_serving p))"
proof -
  note D = program_okD [OF program_run(1) [OF assms]]
  have "length (cs_workers (lf_checker (pg_life p))) \<le> 1"
    using D(1) started_hooks(2) [OF assms(1)] by (rule one_worker)
  then have "ingesting (lf_checker (pg_life p)) \<subseteq> {0}" by (auto simp: ingesting_def)
  moreover have "sv_call (pg_serving p) i \<noteq> CallPanicked panic" for i panic
    using serving_okD(5) [OF D(3), of i] by auto
  moreover have "(\<forall>i. sv_call (pg_serving p) i = CallDone) \<and> lf_ingester (pg_life p) = shown_ingester (pg_serving p)"
    if "ingesting (lf_checker (pg_life p)) = {}"
    using no_calls_shown [OF D(3), of "lf_ingester (pg_life p)"] D(4) that by (simp add: ingests_ok_def Let_def)
  ultimately show ?thesis using D(1) program_run(2) [OF assms] by blast
qed

theorem program_refines_life_witness:
  "\<exists>a p. started sample_world sample_command_line a \<and> program_reachable sample_world a p \<and>
    sv_thread (pg_serving p) 0 = GroupsStart \<and> lf_servers (pg_life p) ''dns'' = Serving \<and>
    life_reachable sample_world a (pg_life p)"
proof -
  obtain a where a: "started sample_world sample_command_line a" "ap_hooks a = [CheckerHook, ServerHook ''dns'']"
    using sample_started [of sample_env] unfolding sample_world_def by blast
  let ?p = "sample_program sample_world a"
  note reach = sample_program_reachable [OF a(2), of sample_world]
  have "sv_thread (pg_serving ?p) 0 = GroupsStart" "lf_servers (pg_life ?p) ''dns'' = Serving"
    by (simp_all add: sample_program_def Let_def set_thread_def sample_running_def)
  with program_refines_life [OF a(1) reach rtranclp.rtrancl_refl] a(1) reach show ?thesis by blast
qed

end
