(* ===== verification/Serving_Answers.thy ===== *)
theory Serving_Answers
  imports Serving_Overlap Handlers
begin

text \<open>
  What clients are answered while ingests overlap: the handlers use the locator once for each
  request, so their answers are those of a locator that nobody is changing.
\<close>

section \<open>What the handlers do with the locator's reply\<close>

text \<open>\<open>ServeRequest\<close> of the endpoint handler from the return of \<open>FindString\<close> on.\<close>

definition answer_found ::
  "endpoint_handler \<Rightarrow> 32 word \<Rightarrow> (nat \<Rightarrow> nat) \<Rightarrow> 'm msg \<Rightarrow> endpoint_request \<Rightarrow> located \<Rightarrow> panic option \<times> 'm msg" where
  "answer_found eh r sh response request endpoints =
     (case located_len_rrs endpoints (er_rr_type request) of
        Inl p \<Rightarrow> (Some p, response)
      | Inr _ \<Rightarrow>
          (case eh_jitterer eh of
             None \<Rightarrow> (Some NilDereference, response)
           | Some jitterer \<Rightarrow>
               (let header = \<lparr>hdr_name = er_name request, hdr_ttl = jitter_ttl jitterer r,
                      hdr_class = class_INET\<rparr>
                in case located_rrs endpoints (er_rr_type request) of
                     Inl p \<Rightarrow> (Some p, response)
                   | Inr rrs \<Rightarrow>
                       (None, response\<lparr>msg_answer :=
                          shuffle sh (msg_answer response @ fill_headers header rrs)\<rparr>))))"

text \<open>That of the group handler from the return of \<open>Groups\<close> on.\<close>

definition answer_shown ::
  "group_handler \<Rightarrow> 32 word \<Rightarrow> 'm msg \<Rightarrow> group_request \<Rightarrow> addr list groups option \<Rightarrow> panic option \<times> 'm msg" where
  "answer_shown gh r response request gps_ptr =
     (case gps_ptr of
        None \<Rightarrow> (Some NilDereference, response)
      | Some gps \<Rightarrow>
          if 0 < length (gr_group request) then
            (case groups_get gps (gr_group request) of
               Inl p \<Rightarrow> (Some p, response)
             | Inr None \<Rightarrow> (None, response)
             | Inr (Some g) \<Rightarrow> answer_groups gh r response request (group_rrs g (gr_rr_type request)))
          else answer_groups gh r response request (groups_rrs gps (gr_rr_type request)))"

lemma serve_endpoints_found:
  "eh_locator eh = Some loc \<Longrightarrow>
   serve_endpoints md mem eh r sh response request =
     answer_found eh r sh response request (find_string md (mem loc) (er_object request) (er_groups request))"
  by (simp add: serve_endpoints_def answer_found_def Let_def)

lemma serve_groups_shown:
  "gh_locator gh = Some loc \<Longrightarrow> gr_rr_type request = type_TXT \<Longrightarrow>
   serve_groups mem gh r response request = answer_shown gh r response request (locator_groups (mem loc))"
  by (simp add: serve_groups_def answer_shown_def)

section \<open>Answers\<close>

text \<open>
  What clients are answered while ingests overlap. However the calls of \<open>Ingest\<close>, their
  updates of the locator and the requests interleave, each request is answered as if the locator
  held, for the whole time, the groups it had at first or those of one error-free scan by one of
  the calls: the endpoint handler's answer from its finished lookup and the group handler's from
  its finished \<open>Groups\<close> are those of the handlers on such a locator. No call panics.
\<close>

lemma answers_see_one_scan:
  assumes "(serve_step g ords md)\<^sup>*\<^sup>* (start_serving md b old fi envs requests) s"
    and "\<forall>i. is_request old (requests i)" and "length (fi_listeners fi) = 1"
    and "eh_locator eh = Some loc" and "gh_locator gh = Some loc"
  shows "(\<forall>i question results. sv_thread s i = FindDone (er_object question) (er_groups question) results \<longrightarrow>
      (\<exists>gps_ptr \<in> views g ords fi (ingest_envs envs) old. \<forall>r sh response.
        answer_found eh r sh response question results =
        serve_endpoints md (\<lambda>_. published md b gps_ptr) eh r sh response question)) \<and>
    (\<forall>i gps_ptr. sv_thread s i = GroupsDone gps_ptr \<longrightarrow>
      gps_ptr \<in> views g ords fi (ingest_envs envs) old \<and>
      (\<forall>r response question. gr_rr_type question = type_TXT \<longrightarrow>
        answer_shown gh r response question gps_ptr =
        serve_groups (\<lambda>_. published md b gps_ptr) gh r response question)) \<and>
    (\<forall>i p. sv_call s i \<noteq> CallPanicked p)"
proof -
  note seen = requests_see_one_scan [OF assms(1-3)]
  have "\<exists>gps_ptr \<in> views g ords fi (ingest_envs envs) old. \<forall>r sh response.
      answer_found eh r sh response question results =
      serve_endpoints md (\<lambda>_. published md b gps_ptr) eh r sh response question"
    if "sv_thread s i = FindDone (er_object question) (er_groups question) results" for i question results
  proof -
    from seen that obtain gps_ptr where "gps_ptr \<in> views g ords fi (ingest_envs envs) old"
      "results = find_string md (published md b gps_ptr) (er_object question) (er_groups question)"
      by blast
    then show ?thesis by (intro bexI [of _ gps_ptr]) (simp_all add: serve_endpoints_found [OF assms(4)])
  qed
  moreover have "answer_shown gh r response question gps_ptr =
      serve_groups (\<lambda>_. published md b gps_ptr) gh r response question"
    if "gr_rr_type question = type_TXT" for r response question gps_ptr
    using that by (simp add: serve_groups_shown [OF assms(5)] locator_groups_def)
  ultimately show ?thesis using seen by blast
qed

end
