(* ===== verification/Program_Answers.thy ===== *)
theory Program_Answers
  imports Serving_Answers Lifecycle
begin

text \<open>
  The running program and what it answers, with the locator's lock in between: from any state of
  its life, any further ingests and any requests, interleaved step by step.
\<close>

text \<open>Nothing, or the groups of an error-free scan in one of the environments \<open>E\<close>.\<close>

definition scanned ::
  "('b, 'q, 'r, 'm, 'e, 'l, 'f, 'c, 'x, 'u) externals \<Rightarrow> ('b, 'r) ingester_state \<Rightarrow> 'x ingest_env set
    \<Rightarrow> addr list groups option \<Rightarrow> bool" where
  "scanned ex fi E gps_ptr \<longleftrightarrow>
     (case gps_ptr of
        None \<Rightarrow> True
      | Some gps \<Rightarrow> \<exists>env \<in> E. \<exists>rrs bytes. scan env fi = Inr (rrs, bytes) \<and>
          gps = build_from (ex_growth ex) (ex_orders ex) (fi_domain fi) rrs)"

lemma life_scanned:
  assumes "started ex cl a" and "life_reachable ex a s" and "fi_listeners (lf_ingester s) = [l]"
  shows "l = published (ex_medley ex) (app_builder ex cl a) (loc_groups l)"
    and "scanned ex (first_ingester ex cl a) (set (lf_scans s)) (loc_groups l)"
proof -
  let ?fi = "lf_ingester s" and ?first = "first_ingester ex cl a" and ?b = "app_builder ex cl a"
  have serves: "serves_a_scan ex ?b ?first (lf_scans s) ?fi" using assms(2,1) by (rule life_serves)
  have "l = published (ex_medley ex) ?b (loc_groups l) \<and> scanned ex ?first (set (lf_scans s)) (loc_groups l)"
  proof (cases "fi_first ?fi")
    case False
    with serves assms(3) have "l = zero_locator ?b" by (simp add: serves_a_scan_def)
    then show ?thesis by (simp add: published_def scanned_def)
  next
    case True
    with serves assms(3) obtain env rrs bytes where "env \<in> set (lf_scans s)" "scan env ?first = Inr (rrs, bytes)"
      "l = published (ex_medley ex) ?b (Some (build_from (ex_growth ex) (ex_orders ex) (fi_domain ?first) rrs))"
      by (auto simp: serves_a_scan_def)
    then show ?thesis by (auto simp: scanned_def)
  qed
  then show "l = published (ex_medley ex) ?b (loc_groups l)"
    and "scanned ex ?first (set (lf_scans s)) (loc_groups l)" by blast+
qed

lemma views_scanned:
  fixes ex :: "('b, 'q, 'r, 'm, 'e, 'l, 'f, 'c, 'x, 'u) externals"
  assumes "started ex cl a" and "life_reachable ex a s" and "fi_listeners (lf_ingester s) = [l]"
    and "gps_ptr \<in> views (ex_growth ex) (ex_orders ex) (with_listeners [()] (lf_ingester s)) E (loc_groups l)"
  shows "scanned ex (first_ingester ex cl a) (set (lf_scans s) \<union> E) gps_ptr"
proof -
  let ?fi = "lf_ingester s" and ?first = "first_ingester ex cl a"
  have serves: "serves_a_scan ex (app_builder ex cl a) ?first (lf_scans s) ?fi" using assms(2,1) by (rule life_serves)
  have scans: "scan env ?fi = scan env ?first" for env :: "'x ingest_env"
    using serves unfolding serves_a_scan_def by blast
  from assms(4) consider "gps_ptr = loc_groups l"
    | gps where "gps_ptr = Some gps" "gps \<in> fst ` offered_scans (ex_growth ex) (ex_orders ex) ?fi E"
    by (auto simp: views_def)
  then show ?thesis
  proof cases
    case 1
    with life_scanned(2) [OF assms(1-3)] show ?thesis by (auto simp: scanned_def split: option.splits)
  next
    case 2
    then show ?thesis
      using serves by (fastforce simp: scanned_def offered_scans_def scans serves_a_scan_def)
  qed
qed

section \<open>Properties\<close>

text \<open>
  What clients of the running program are told. Take the program at any moment of its
  life and let any further ingests run, overlapping or not, and any requests, with every access to
  the locator and its lock a step of its own. Each request that has been answered was answered from
  the groups of one error-free scan of the zone files, by one of the ingests so far or by one of
  the further ones, or, as before the first such scan, from none: never from a mixture.
\<close>

theorem running_program_answers:
  assumes "started ex cl a" and "life_reachable ex a s" and "fi_listeners (lf_ingester s) = [l]"
    and "(serve_step (ex_growth ex) (ex_orders ex) (ex_medley ex))\<^sup>*\<^sup>*
      (start_serving (ex_medley ex) (app_builder ex cl a) (loc_groups l)
        (with_listeners [()] (lf_ingester s)) envs requests) t"
    and "\<forall>i. is_request (loc_groups l) (requests i)"
    and "eh_locator eh = Some loc" and "gh_locator gh = Some loc"
  defines "scan_of \<equiv> scanned ex (first_ingester ex cl a) (set (lf_scans s) \<union> ingest_envs envs)"
    and "locator_of \<equiv> published (ex_medley ex) (app_builder ex cl a)"
  shows "locator_of (loc_groups l) = l \<and>
    (\<forall>i question results. sv_thread t i = FindDone (er_object question) (er_groups question) results \<longrightarrow>
      (\<exists>gps_ptr. scan_of gps_ptr \<and> (\<forall>r sh response.
        answer_found eh r sh response question results =
        serve_endpoints (ex_medley ex) (\<lambda>_. locator_of gps_ptr) eh r sh response question))) \<and>
    (\<forall>i gps_ptr. sv_thread t i = GroupsDone gps_ptr \<longrightarrow> scan_of gps_ptr \<and>
      (\<forall>r response question. gr_rr_type question = type_TXT \<longrightarrow>
        answer_shown gh r response question gps_ptr =
        serve_groups (\<lambda>_. locator_of gps_ptr) gh r response question))"
proof -
  have one: "length (fi_listeners (with_listeners [()] (lf_ingester s))) = 1" by simp
  note seen = requests_see_one_scan [OF assms(4,5) one] and scans = views_scanned [OF assms(1-3)]
  have "\<exists>gps_ptr. scan_of gps_ptr \<and> (\<forall>r sh response. answer_found eh r sh response question results =
      serve_endpoints (ex_medley ex) (\<lambda>_. locator_of gps_ptr) eh r sh response question)"
    if "sv_thread t i = FindDone (er_object question) (er_groups question) results" for i question results
  proof -
    from seen that obtain gps_ptr where
      "gps_ptr \<in> views (ex_growth ex) (ex_orders ex) (with_listeners [()] (lf_ingester s)) (ingest_envs envs) (loc_groups l)"
      "results = find_string (ex_medley ex) (locator_of gps_ptr) (er_object question) (er_groups question)"
      unfolding locator_of_def by blast
    with scans show ?thesis
      by (intro exI [of _ gps_ptr]) (simp add: serve_endpoints_found [OF assms(6)] scan_of_def)
  qed
  moreover have "scan_of gps_ptr" if "sv_thread t i = GroupsDone gps_ptr" for i gps_ptr
    using seen scans that unfolding scan_of_def by blast
  moreover have "answer_shown gh r response question gps_ptr =
      serve_groups (\<lambda>_. locator_of gps_ptr) gh r response question"
    if "gr_rr_type question = type_TXT" for r response question gps_ptr
    using that by (simp add: serve_groups_shown [OF assms(7)] locator_groups_def locator_of_def)
  ultimately show ?thesis
    using life_scanned(1) [OF assms(1-3)] unfolding locator_of_def by auto
qed

theorem running_program_answers_witness:
  "\<exists>a l. started sample_world sample_command_line a \<and> fi_listeners (the (ap_ingester a)) = [l] \<and>
    loc_groups l \<noteq> None \<and>
    scanned sample_world (first_ingester sample_world sample_command_line a) {initial_env sample_world} (loc_groups l)"
proof -
  obtain a where a: "started sample_world sample_command_line a" "the (ap_config a) = sample_main"
    using sample_started [of sample_env] unfolding sample_world_def by blast
  let ?s = "life_init sample_world a" and ?fi = "the (ap_ingester a)"
  let ?b = "app_builder sample_world sample_command_line a"
  have reach: "life_reachable sample_world a ?s" by simp
  have s: "lf_ingester ?s = ?fi" "lf_scans ?s = [initial_env sample_world]" by (simp_all add: life_init_def)
  have serves: "serves_a_scan sample_world ?b (first_ingester sample_world sample_command_line a)
      [initial_env sample_world] ?fi"
    using started_serves [OF a(1)] .
  with sample_first_scan [OF a(2)] have "fi_first ?fi" by (auto simp: serves_a_scan_def)
  with serves obtain l where l: "fi_listeners ?fi = [l]" "loc_groups l \<noteq> None"
    by (auto simp: serves_a_scan_def)
  let ?requests = "\<lambda>i :: nat. if i = 1 then GroupsStart else idle (loc_groups l)"
  let ?start = "start_serving (ex_medley sample_world) ?b (loc_groups l) (with_listeners [()] (lf_ingester ?s))
    (\<lambda>_. None :: string ingest_env option) ?requests"
  have "published (ex_medley sample_world) ?b (loc_groups l) = l"
    using life_scanned(1) [OF a(1) reach] l(1) s by simp
  then have "run_schedule (ex_medley sample_world) [1, 1] (sv_locator ?start) \<noteq> None \<and>
      (\<forall>r. run_schedule (ex_medley sample_world) [1, 1] (sv_locator ?start) = Some r \<longrightarrow>
        sys_threads r 1 = GroupsDone (loc_groups l))"
    by (simp add: start_serving_def start_system_def advance_def Let_def)
  then obtain r where r: "run_schedule (ex_medley sample_world) [1, 1] (sv_locator ?start) = Some r"
    "sys_threads r 1 = GroupsDone (loc_groups l)" by blast
  have run: "(serve_step (ex_growth sample_world) (ex_orders sample_world) (ex_medley sample_world))\<^sup>*\<^sup>* ?start
      (?start\<lparr>sv_locator := r\<rparr>)"
    by (intro serve_goroutines run_schedule_lsteps [OF r(1)])
  have requests: "\<forall>i. is_request (loc_groups l) (?requests i)" by (simp add: idle_def)
  have locs: "eh_locator \<lparr>eh_locator = Some 0, eh_jitterer = None\<rparr> = Some 0"
    "gh_locator \<lparr>gh_locator = Some 0, gh_jitterer = None\<rparr> = Some 0" by simp_all
  have "fi_listeners (lf_ingester ?s) = [l]" using l(1) s(1) by simp
  note told = running_program_answers [OF a(1) reach this run requests locs]
  have "sv_thread (?start\<lparr>sv_locator := r\<rparr>) 1 = GroupsDone (loc_groups l)" using r(2) by simp
  with told have "scanned sample_world (first_ingester sample_world sample_command_line a)
      (set (lf_scans ?s) \<union> ingest_envs (\<lambda>_. None :: string ingest_env option)) (loc_groups l)" by blast
  then show ?thesis using a(1) l s(2) by (auto simp: ingest_envs_def)
qed

end
