(* ===== verification/Program_Requests.thy ===== *)
theory Program_Requests
  imports Program_Steps Program_Answers
begin

text \<open>
  What the running program at its finest grain answers: a request is answered from the locator as
  \<open>Lifecycle\<close> has it at a moment between the arrival of the request and its answer, so never from
  groups that an ingest had replaced before the request came.
\<close>

section \<open>Moments\<close>

text \<open>
  The life of the program as a request sees it in state \<open>s\<close>: the ingest under way has not taken
  effect yet, or it has, as if it had returned already.
\<close>

definition current_life ::
  "('b, 'q, 'r, 'm, 'e, 'l, 'f, 'c, 'x, 'u) externals \<Rightarrow> ('b, 'r, 'x, 'e) program \<Rightarrow> ('b, 'r, 'x, 'e) life \<Rightarrow> bool" where
  "current_life ex s l \<longleftrightarrow> l = pg_life s \<or>
     (\<exists>k fi'. k \<in> ingesting (lf_checker (pg_life s)) \<and>
        ingest (ex_growth ex) (ex_orders ex) (pg_env s k) (on_ingest (ex_medley ex)) (lf_ingester (pg_life s)) = Inr fi' \<and>
        l = (set_worker k Selecting (pg_life s))\<lparr>lf_ingester := fi', lf_scans := pg_env s k # lf_scans (pg_life s)\<rparr>)"

lemma current_life_steps: "current_life ex s l \<Longrightarrow> (life_step ex a)\<^sup>*\<^sup>* (pg_life s) l"
  unfolding current_life_def
proof (elim disjE exE conjE)
  fix k fi'
  assume "k \<in> ingesting (lf_checker (pg_life s))"
    and "ingest (ex_growth ex) (ex_orders ex) (pg_env s k) (on_ingest (ex_medley ex)) (lf_ingester (pg_life s)) = Inr fi'"
    and "l = (set_worker k Selecting (pg_life s))\<lparr>lf_ingester := fi', lf_scans := pg_env s k # lf_scans (pg_life s)\<rparr>"
  then have "life_step ex a (pg_life s) l"
    using ingest_returns [of k "pg_life s" ex "pg_env s k" fi' a] by (simp add: ingesting_def set_worker_def)
  then show ?thesis by (rule r_into_rtranclp)
qed simp

text \<open>When nobody is writing, the locator is that of such a life.\<close>

lemma locator_now:
  assumes ok: "program_ok ex cl a s" and start: "started ex cl a"
    and "sys_writer (sv_locator (pg_serving s)) = None"
  shows "\<exists>l. current_life ex s l \<and> fi_listeners (lf_ingester l) = [sys_loc (sv_locator (pg_serving s))]"
proof -
  note D = program_okD [OF ok]
  let ?t = "effective_calls (ex_medley ex) (app_builder ex cl a) (pg_serving s)" and ?fi = "lf_ingester (pg_life s)"
  let ?shown = "[sys_loc (sv_locator (pg_serving s))]"
  have shown: "fi_listeners (is_fi ?t) = ?shown" using assms(3) by (simp add: effective_calls_fi) (simp add: effective_def)
  show ?thesis
  proof (cases "ingesting (lf_checker (pg_life s)) = {}")
    case True
    with D(4) have "?t = no_calls ?fi" by (simp add: ingests_ok_def Let_def)
    then have "fi_listeners ?fi = ?shown" using shown by (simp add: no_calls_def)
    then show ?thesis unfolding current_life_def by blast
  next
    case False
    with D(4) obtain k n where k: "k \<in> ingesting (lf_checker (pg_life s))"
      "run_call (ex_growth ex) (ex_orders ex) (on_ingest (ex_medley ex)) n (pg_call s k)
        (lone_call ?fi (pg_call s k) (pg_env s k)) = Some ?t"
      by (auto simp: ingests_ok_def Let_def)
    obtain fi' where fi': "ingest (ex_growth ex) (ex_orders ex) (pg_env s k) (on_ingest (ex_medley ex)) ?fi = Inr fi'"
      using life_ingests(2) [OF start D(1)] by blast
    have "length (fi_listeners ?fi) = 1" using life_ingests(1) [OF start D(1)] by auto
    from lone_call_shows [OF fi' this k(2)] shown consider "fi_listeners ?fi = ?shown" | "fi_listeners fi' = ?shown"
      by auto
    then show ?thesis
    proof cases
      case 2
      let ?l = "(set_worker k Selecting (pg_life s))\<lparr>lf_ingester := fi', lf_scans := pg_env s k # lf_scans (pg_life s)\<rparr>"
      have "current_life ex s ?l" unfolding current_life_def using k(1) fi' by blast
      with 2 show ?thesis by (intro exI [of _ ?l]) simp
    qed (auto simp: current_life_def)
  qed
qed

text \<open>The locators of the program's life between two states.\<close>

definition serves_between ::
  "('b, 'q, 'r, 'm, 'e, 'l, 'f, 'c, 'x, 'u) externals \<Rightarrow> ('b, 'r, 'l, 'c, 'u) app \<Rightarrow> ('b, 'r, 'x, 'e) program
    \<Rightarrow> ('b, 'r, 'x, 'e) program \<Rightarrow> ('b, 'r) locator \<Rightarrow> bool" where
  "serves_between ex a p q loc \<longleftrightarrow>
     (\<exists>u l. (program_step ex a)\<^sup>*\<^sup>* p u \<and> (program_step ex a)\<^sup>*\<^sup>* u q \<and> current_life ex u l \<and>
        (life_step ex a)\<^sup>*\<^sup>* (pg_life p) l \<and> fi_listeners (lf_ingester l) = [loc])"

lemma serves_now:
  assumes "started ex cl a" and "program_reachable ex a p"
    and "(program_step ex a)\<^sup>*\<^sup>* p u" and "(program_step ex a)\<^sup>*\<^sup>* u q"
    and "sys_writer (sv_locator (pg_serving u)) = None"
  shows "serves_between ex a p q (sys_loc (sv_locator (pg_serving u)))"
proof -
  have reach: "program_reachable ex a u" using assms(2,3) by (rule rtranclp_trans)
  obtain l where l: "current_life ex u l" "fi_listeners (lf_ingester l) = [sys_loc (sv_locator (pg_serving u))]"
    using locator_now [OF program_run(1) [OF assms(1) reach rtranclp.rtrancl_refl] assms(1,5)] by blast
  have "(life_step ex a)\<^sup>*\<^sup>* (pg_life p) l"
    using program_run(2) [OF assms(1-3)] current_life_steps [OF l(1)] by (rule rtranclp_trans)
  with assms(3,4) l show ?thesis unfolding serves_between_def by blast
qed

lemma program_serve_steps:
  "(serve_step (ex_growth ex) (ex_orders ex) (ex_medley ex))\<^sup>*\<^sup>* s t \<Longrightarrow>
     (program_step ex a)\<^sup>*\<^sup>* (p\<lparr>pg_serving := s\<rparr>) (p\<lparr>pg_serving := t\<rparr>)"
proof (induction rule: rtranclp_induct)
  case (step t u)
  from serving_moves [where s = "p\<lparr>pg_serving := t\<rparr>" and sv = u and ex = ex and a = a] step.hyps(2)
  have "program_step ex a (p\<lparr>pg_serving := t\<rparr>) (p\<lparr>pg_serving := u\<rparr>)" by simp
  with step.IH show ?case by (rule rtranclp.rtrancl_into_rtrancl)
qed simp

section \<open>Requests\<close>

text \<open>Goroutine \<open>i\<close> serves a request: it has arrived, and makes no call of \<open>Ingest\<close>.\<close>

definition serves_request :: "('b, 'r, 'x, 'e) program \<Rightarrow> nat \<Rightarrow> bool" where
  "serves_request s i \<longleftrightarrow> i < pg_next s \<and> sv_call (pg_serving s) i = CallDone"

lemma program_step_request:
  assumes "program_step ex a s s'" and "serves_request s i"
  shows "serves_request s' i \<and> (sv_thread (pg_serving s') i = sv_thread (pg_serving s) i \<or>
    lstep (ex_medley ex) (sv_locator (pg_serving s)) (sv_locator (pg_serving s')))"
  using assms(1)
proof cases
  case (serving_moves sv)
  with serve_step_request [OF serving_moves(2), of i] assms(2) show ?thesis by (simp add: serves_request_def)
qed (use assms(2) in \<open>auto simp: serves_request_def set_call_def set_thread_def\<close>)

lemma program_steps_request:
  assumes "(program_step ex a)\<^sup>*\<^sup>* s s'" and "serves_request s i"
  shows "serves_request s' i \<and> asks (sv_thread (pg_serving s') i) = asks (sv_thread (pg_serving s) i) \<and>
    (finished (sv_thread (pg_serving s) i) \<longrightarrow> sv_thread (pg_serving s') i = sv_thread (pg_serving s) i) \<and>
    (\<forall>gps_ptr. groups_read (sv_thread (pg_serving s) i) = Some gps_ptr \<longrightarrow>
       groups_read (sv_thread (pg_serving s') i) = Some gps_ptr)"
  using assms(1)
proof (induction rule: rtranclp_induct)
  case (step t u)
  then have "serves_request t i" by blast
  note moved = program_step_request [OF step.hyps(2) this]
  let ?l = "\<lambda>s. sv_locator (pg_serving s)"
  have "asks (sv_thread (pg_serving u) i) = asks (sv_thread (pg_serving t) i)"
    and "finished (sv_thread (pg_serving t) i) \<Longrightarrow> sv_thread (pg_serving u) i = sv_thread (pg_serving t) i"
    and "groups_read (sv_thread (pg_serving t) i) = Some gps_ptr \<Longrightarrow>
      groups_read (sv_thread (pg_serving u) i) = Some gps_ptr" for gps_ptr
    using moved lstep_asks [of "ex_medley ex" "?l t" "?l u" i] lstep_finished [of "ex_medley ex" "?l t" "?l u" i]
      lstep_groups_read [of "ex_medley ex" "?l t" "?l u" i gps_ptr] by auto
  with step.IH moved show ?case by auto
qed (use assms(2) in simp)

lemma arrived_request:
  assumes "program_ok ex cl a s" and "is_question (sv_thread (pg_serving s) i)"
  shows "serves_request s i"
proof -
  note D = program_okD [OF assms(1)]
  have "i < pg_next s" using D(6) [of i] assms(2) by (fastforce simp: idle_def not_le)
  moreover have "attached (sv_call (pg_serving s) i) (sv_thread (pg_serving s) i)"
    using D(2) by (simp add: finite_serving_def)
  then have "sv_call (pg_serving s) i = CallDone"
    using assms(2) by (cases "sv_thread (pg_serving s) i") (auto simp: attached_def)
  ultimately show ?thesis by (simp add: serves_request_def)
qed

text \<open>The step at which a request is answered, or has read the groups.\<close>

lemma lookup_answered:
  assumes start: "started ex cl a" and p: "program_reachable ex a p" and run: "(program_step ex a)\<^sup>*\<^sup>* p q"
    and asked: "sv_thread (pg_serving p) i = FindStart object names" and "finished (sv_thread (pg_serving q) i)"
  shows "\<exists>loc. serves_between ex a p q loc \<and>
    sv_thread (pg_serving q) i = FindDone object names (find_string (ex_medley ex) loc object names)"
proof -
  have req: "serves_request p i"
    using program_run(1) [OF start p rtranclp.rtrancl_refl] asked by (intro arrived_request) simp_all
  obtain u v where uv: "(program_step ex a)\<^sup>*\<^sup>* p u" "program_step ex a u v" "(program_step ex a)\<^sup>*\<^sup>* v q"
    "\<not> finished (sv_thread (pg_serving u) i)" "finished (sv_thread (pg_serving v) i)"
    using first_step [OF run, of "\<lambda>s. finished (sv_thread (pg_serving s) i)"] assms(5) asked by auto
  have pv: "(program_step ex a)\<^sup>*\<^sup>* p v" using uv(1,2) by (rule rtranclp.rtrancl_into_rtrancl)
  note at_u = program_steps_request [OF uv(1) req] and at_v = program_steps_request [OF pv req]
  have moved: "lstep (ex_medley ex) (sv_locator (pg_serving u)) (sv_locator (pg_serving v))"
    using program_step_request [OF uv(2)] at_u uv(4,5) by metis
  obtain results where v: "sv_thread (pg_serving v) i = FindDone object names results"
    using at_v asked uv(5) by (cases "sv_thread (pg_serving v) i") auto
  have reach: "program_reachable ex a u" using p uv(1) by (rule rtranclp_trans)
  note ok = program_run(1) [OF start reach rtranclp.rtrancl_refl]
  note found = find_returns [OF moved serving_okD(1) [OF program_okD(3) [OF ok]] uv(4) v]
  have "(program_step ex a)\<^sup>*\<^sup>* u q" using uv(2,3) by (rule converse_rtranclp_into_rtranclp)
  note served = serves_now [OF start p uv(1) this conjunct1 [OF found]]
  have "sv_thread (pg_serving q) i = sv_thread (pg_serving v) i"
    using program_steps_request [OF uv(3) conjunct1 [OF at_v]] uv(5) by blast
  with served show ?thesis using v found by metis
qed

lemma groups_answered:
  assumes start: "started ex cl a" and p: "program_reachable ex a p" and run: "(program_step ex a)\<^sup>*\<^sup>* p q"
    and asked: "sv_thread (pg_serving p) i = GroupsStart" and "finished (sv_thread (pg_serving q) i)"
  shows "\<exists>loc. serves_between ex a p q loc \<and> sv_thread (pg_serving q) i = GroupsDone (locator_groups loc)"
proof -
  have req: "serves_request p i"
    using program_run(1) [OF start p rtranclp.rtrancl_refl] asked by (intro arrived_request) simp_all
  obtain u v where uv: "(program_step ex a)\<^sup>*\<^sup>* p u" "program_step ex a u v" "(program_step ex a)\<^sup>*\<^sup>* v q"
    "sv_thread (pg_serving u) i = GroupsStart" "sv_thread (pg_serving v) i \<noteq> GroupsStart"
    using first_step [OF run, of "\<lambda>s. sv_thread (pg_serving s) i \<noteq> GroupsStart"] assms(5) asked by fastforce
  have pv: "(program_step ex a)\<^sup>*\<^sup>* p v" using uv(1,2) by (rule rtranclp.rtrancl_into_rtrancl)
  note at_u = program_steps_request [OF uv(1) req] and at_v = program_steps_request [OF pv req]
  have moved: "lstep (ex_medley ex) (sv_locator (pg_serving u)) (sv_locator (pg_serving v))"
    using program_step_request [OF uv(2)] at_u uv(4,5) by metis
  note read = groups_reads [OF moved uv(4,5)]
  have "(program_step ex a)\<^sup>*\<^sup>* u q" using uv(2,3) by (rule converse_rtranclp_into_rtranclp)
  note served = serves_now [OF start p uv(1) this conjunct1 [OF read]]
  have "groups_read (sv_thread (pg_serving q) i) = Some (locator_groups (sys_loc (sv_locator (pg_serving u))))"
    using program_steps_request [OF uv(3) conjunct1 [OF at_v]] read by simp
  with assms(5) have "sv_thread (pg_serving q) i = GroupsDone (locator_groups (sys_loc (sv_locator (pg_serving u))))"
    by (cases "sv_thread (pg_serving q) i") auto
  with served show ?thesis by blast
qed

section \<open>Properties\<close>

text \<open>
  Property C3: what clients of the running program are told. However ingests, requests and the rest of
  the program interleave, a request that has been answered was answered from the locator that the
  program's life, with whole ingests, has at a moment between the arrival of the request and its
  answer: the answers of the two handlers are those of handlers on that locator. As that moment is
  after the arrival, groups that an ingest had replaced before it are never served.
\<close>

theorem program_answers:
  assumes "started ex cl a" and "program_reachable ex a p" and "(program_step ex a)\<^sup>*\<^sup>* p q"
    and "finished (sv_thread (pg_serving q) i)"
    and "eh_locator eh = Some ptr" and "gh_locator gh = Some ptr"
  shows "(\<forall>question. sv_thread (pg_serving p) i = FindStart (er_object question) (er_groups question) \<longrightarrow>
      (\<exists>loc results. serves_between ex a p q loc \<and>
        sv_thread (pg_serving q) i = FindDone (er_object question) (er_groups question) results \<and>
        (\<forall>r sh response. answer_found eh r sh response question results =
          serve_endpoints (ex_medley ex) (\<lambda>_. loc) eh r sh response question))) \<and>
    (sv_thread (pg_serving p) i = GroupsStart \<longrightarrow>
      (\<exists>loc gps_ptr. serves_between ex a p q loc \<and> sv_thread (pg_serving q) i = GroupsDone gps_ptr \<and>
        (\<forall>r response question. gr_rr_type question = type_TXT \<longrightarrow>
          answer_shown gh r response question gps_ptr = serve_groups (\<lambda>_. loc) gh r response question)))"
  using lookup_answered [OF assms(1-3) _ assms(4)] groups_answered [OF assms(1-3) _ assms(4)]
  by (simp add: serve_endpoints_found [OF assms(5)] serve_groups_shown [OF assms(6)]) blast

theorem program_answers_witness:
  "\<exists>a p q loc gps_ptr. started sample_world sample_command_line a \<and> program_reachable sample_world a p \<and>
    sv_thread (pg_serving p) 0 = GroupsStart \<and> serves_between sample_world a p q loc \<and>
    sv_thread (pg_serving q) 0 = GroupsDone gps_ptr"
proof -
  obtain a where a: "started sample_world sample_command_line a" "ap_hooks a = [CheckerHook, ServerHook ''dns'']"
    using sample_started [of sample_env] unfolding sample_world_def by blast
  let ?p = "sample_program sample_world a"
  note reach = sample_program_reachable [OF a(2), of sample_world]
  have p: "sv_thread (pg_serving ?p) 0 = GroupsStart" "sys_writer (sv_locator (pg_serving ?p)) = None"
    by (simp_all add: sample_program_def Let_def set_thread_def program_init_def)
  then obtain r where r: "run_schedule (ex_medley sample_world) [0, 0] (sv_locator (pg_serving ?p)) = Some r"
    "finished (sys_threads r 0)"
    by (simp add: advance_def Let_def)
  let ?q = "?p\<lparr>pg_serving := (pg_serving ?p)\<lparr>sv_locator := r\<rparr>\<rparr>"
  have "(program_step sample_world a)\<^sup>*\<^sup>* ?p ?q"
    using program_serve_steps [OF serve_goroutines [OF run_schedule_lsteps [OF r(1)]], where p = ?p and a = a] by simp
  from program_answers [OF a(1) reach this, of 0 "\<lparr>eh_locator = Some 0, eh_jitterer = None\<rparr>" 0
      "\<lparr>gh_locator = Some 0, gh_jitterer = None\<rparr>"] r(2) p(1)
  obtain loc gps_ptr where "serves_between sample_world a ?p ?q loc" "sv_thread (pg_serving ?q) 0 = GroupsDone gps_ptr"
    by auto
  with a(1) reach p(1) show ?thesis by blast
qed

end
