(* ===== verification/Program_Handlers.thy ===== *)
theory Program_Handlers
  imports Program_Requests
begin

text \<open>
  The running program with its handlers: a message arrives at a server, the server's handler calls
  the locator, or refuses without it, and with the locator's reply it ends, in an answer or in a
  panic. Here every request is followed to its end, and a panic is a step of the program.

  What becomes of a panic that goes on after the deferred \<open>finish\<close> is up to the DNS package, which
  calls the handler: if it recovers (\<open>recovers\<close>), the program goes on; if not, that is the end of the
  program, with all its goroutines. The theorems hold for both.
\<close>

section \<open>A handler around its call of the locator\<close>

text \<open>\<open>ServeDNS\<close> up to the call of the locator, if it makes one.\<close>

datatype 'm handling =
    Handled "panic option" "'m msg"
  | AskEndpoints endpoint_handler "'m msg" endpoint_request
  | AskGroups group_handler "'m msg" group_request

definition ask_endpoints :: "endpoint_handler option \<Rightarrow> 'm msg \<Rightarrow> endpoint_request \<Rightarrow> 'm handling" where
  "ask_endpoints handler response request =
     (case handler of
        None \<Rightarrow> Handled (Some NilDereference) response
      | Some eh \<Rightarrow> if eh_locator eh = None then Handled (Some NilDereference) response
          else AskEndpoints eh response request)"

definition ask_groups :: "group_handler option \<Rightarrow> 'm msg \<Rightarrow> group_request \<Rightarrow> 'm handling" where
  "ask_groups handler response request =
     (case handler of
        None \<Rightarrow> Handled (Some NilDereference) response
      | Some gh \<Rightarrow> if gr_rr_type request \<noteq> type_TXT then Handled None (response\<lparr>msg_rcode := rcode_refused\<rparr>)
          else if gh_locator gh = None then Handled (Some NilDereference) response
          else AskGroups gh response request)"

definition handle_start :: "('m, 'e) dns_api \<Rightarrow> 'l handler \<Rightarrow> 'm msg \<Rightarrow> 'm handling" where
  "handle_start api h original =
     (let response = start_operation api original;
          (question, response) = get_question original response
      in case question of
           None \<Rightarrow> Handled None response
         | Some q \<Rightarrow>
             if dn_is_below api (h_endpoint_domain h) (hdr_name (rr_header q)) then
               ask_endpoints (h_endpoint_handler h) response (parse_endpoint_request api q (h_endpoint_domain h))
             else if dn_is_below api (h_group_domain h) (hdr_name (rr_header q)) then
               ask_groups (h_group_handler h) response (parse_group_request api q (h_group_domain h))
             else Handled None (unhandled response))"

text \<open>The call, and \<open>ServeDNS\<close> from its return on.\<close>

fun locator_call :: "'m handling \<Rightarrow> 'r goroutine option" where
  "locator_call (Handled p response) = None"
| "locator_call (AskEndpoints eh response request) = Some (FindStart (er_object request) (er_groups request))"
| "locator_call (AskGroups gh response request) = Some GroupsStart"

fun handle_end :: "32 word \<Rightarrow> (nat \<Rightarrow> nat) \<Rightarrow> 'm handling \<Rightarrow> 'r goroutine \<Rightarrow> (panic option \<times> 'm msg) option" where
  "handle_end r sh (Handled p response) t = Some (p, response)"
| "handle_end r sh (AskEndpoints eh response request) (FindDone object names results) =
     Some (answer_found eh r sh response request results)"
| "handle_end r sh (AskGroups gh response request) (GroupsDone gps_ptr) =
     Some (answer_shown gh r response request gps_ptr)"
| "handle_end r sh _ _ = None"

text \<open>With the reply of a locator that nobody changes, the two parts are \<open>ServeDNS\<close>.\<close>

fun locator_reply :: "('b, 'q, 'r) medley \<Rightarrow> ('b, 'r) locator \<Rightarrow> 'r goroutine \<Rightarrow> 'r goroutine" where
  "locator_reply md loc (FindStart object names) = FindDone object names (find_string md loc object names)"
| "locator_reply md loc GroupsStart = GroupsDone (locator_groups loc)"
| "locator_reply md loc t = t"

lemma ask_endpoints_end:
  "handle_end r sh (ask_endpoints eh response request)
     (locator_reply md loc (the (locator_call (ask_endpoints eh response request)))) =
   Some (case eh of None \<Rightarrow> (Some NilDereference, response)
     | Some eh \<Rightarrow> serve_endpoints md (\<lambda>_. loc) eh r sh response request)"
  by (cases eh) (auto simp: ask_endpoints_def serve_endpoints_found, simp add: serve_endpoints_def)

lemma ask_groups_end:
  "handle_end r sh (ask_groups gh response request)
     (locator_reply md loc (the (locator_call (ask_groups gh response request)))) =
   Some (case gh of None \<Rightarrow> (Some NilDereference, response)
     | Some gh \<Rightarrow> serve_groups (\<lambda>_. loc) gh r response request)"
  by (cases gh) (auto simp: ask_groups_def serve_groups_shown, simp_all add: serve_groups_def)

text \<open>A handler that makes no call ends with what it already has.\<close>

lemma handle_parts:
  "handle_end r sh (handle_start api h original) (locator_reply md loc (the (locator_call (handle_start api h original)))) =
     Some (panic, response) \<longleftrightarrow>
   serve_dns md api (\<lambda>_. loc) h r sh original = (panic, response, finish api response)"
proof -
  obtain question response0 where q: "get_question original (start_operation api original) = (question, response0)"
    by fastforce
  show ?thesis
  proof (cases question)
    case None
    with q show ?thesis by (auto simp: handle_start_def serve_dns_def Let_def)
  next
    case (Some rr)
    have "handle_end r sh (handle_start api h original)
        (locator_reply md loc (the (locator_call (handle_start api h original)))) =
        Some (route md api (\<lambda>_. loc) h r sh response0 rr)"
      using q Some by (simp add: handle_start_def route_def Let_def ask_endpoints_end ask_groups_end unhandled_def)
    with q Some show ?thesis by (auto simp: serve_dns_def Let_def split: prod.split)
  qed
qed

lemma handled_without_call:
  "locator_call w = (None :: 'r goroutine option) \<Longrightarrow> handle_end r sh w (t :: 'r goroutine) = handle_end r sh w t'"
  by (cases w) simp_all

lemma locator_call_question: "locator_call w = Some t \<Longrightarrow> is_question t"
  by (cases w) auto

lemma handle_end_finished: "locator_call w = Some t \<Longrightarrow> handle_end r sh w u = Some out \<Longrightarrow> finished u"
  by (cases w; cases u) auto

lemma handle_end_reply:
  "\<exists>out. handle_end r sh w (case locator_call w of None \<Rightarrow> u | Some t \<Rightarrow> locator_reply md loc t) = Some out"
  by (cases w) auto

section \<open>The program\<close>

text \<open>
  A request: the handler and the message, the goroutine of the locator that makes its call, the
  outcome once there is one, and, for the specification, the program at its arrival.
\<close>

record ('b, 'r, 'x, 'e, 'm, 'l) request =
  rq_handler :: "'l handler"
  rq_message :: "'m msg"
  rq_goroutine :: nat
  rq_outcome :: "(panic option \<times> 'm msg \<times> string option) option"
  rq_arrival :: "('b, 'r, 'x, 'e) program"

record ('b, 'r, 'x, 'e, 'm, 'l) handlers =
  hs_program :: "('b, 'r, 'x, 'e) program"
  hs_requests :: "('b, 'r, 'x, 'e, 'm, 'l) request list"
  hs_crashed :: bool

definition handlers_init ::
  "('b, 'q, 'r, 'm, 'e, 'l, 'f, 'c, 'x, 'u) externals \<Rightarrow> ('b, 'r, 'l, 'c, 'u) app
    \<Rightarrow> ('b, 'r, 'x, 'e, 'm, 'l) handlers" where
  "handlers_init ex a = \<lparr>hs_program = program_init ex a, hs_requests = [], hs_crashed = False\<rparr>"

text \<open>The program when a call of the locator has been added, in goroutine \<open>pg_next\<close>.\<close>

definition arrive :: "'r goroutine option \<Rightarrow> ('b, 'r, 'x, 'e) program \<Rightarrow> ('b, 'r, 'x, 'e) program" where
  "arrive call p =
     (case call of None \<Rightarrow> p
      | Some t \<Rightarrow> p\<lparr>pg_serving := set_thread (pg_next p) t (pg_serving p), pg_next := Suc (pg_next p)\<rparr>)"

definition new_request ::
  "('m, 'e) dns_api \<Rightarrow> 'l handler \<Rightarrow> 'm msg \<Rightarrow> ('b, 'r, 'x, 'e) program \<Rightarrow> ('b, 'r, 'x, 'e, 'm, 'l) request" where
  "new_request api h original p =
     \<lparr>rq_handler = h, rq_message = original, rq_goroutine = pg_next p, rq_outcome = None,
      rq_arrival = arrive (locator_call (handle_start api h original)) p\<rparr>"

text \<open>
  \<open>handler_moves\<close>: a call of \<open>Ingest\<close>, or of the locator, takes a step, or a handler ends.
  \<open>handlers_step\<close>: these, the other steps of the program, and arrivals.
\<close>

inductive handler_moves ::
  "('b, 'q, 'r, 'm, 'e, 'l, 'f, 'c, 'x, 'u) externals \<Rightarrow> bool
    \<Rightarrow> ('b, 'r, 'x, 'e, 'm, 'l) handlers \<Rightarrow> ('b, 'r, 'x, 'e, 'm, 'l) handlers \<Rightarrow> bool"
  for ex recovers
where
  call_moves:
    "\<not> hs_crashed s \<Longrightarrow>
     serve_step (ex_growth ex) (ex_orders ex) (ex_medley ex) (pg_serving (hs_program s)) sv \<Longrightarrow>
     handler_moves ex recovers s (s\<lparr>hs_program := (hs_program s)\<lparr>pg_serving := sv\<rparr>\<rparr>)"
| handler_ends:
    "\<not> hs_crashed s \<Longrightarrow> j < length (hs_requests s) \<Longrightarrow> rq = hs_requests s ! j \<Longrightarrow> rq_outcome rq = None \<Longrightarrow>
     handle_end r sh (handle_start (ex_dns ex) (rq_handler rq) (rq_message rq))
       (sv_thread (pg_serving (hs_program s)) (rq_goroutine rq)) = Some (panic, response) \<Longrightarrow>
     handler_moves ex recovers s (s\<lparr>hs_requests := (hs_requests s)[j :=
         rq\<lparr>rq_outcome := Some (panic, response, finish (ex_dns ex) response)\<rparr>],
       hs_crashed := panic \<noteq> None \<and> \<not> recovers\<rparr>)"

inductive handlers_step ::
  "('b, 'q, 'r, 'm, 'e, 'l, 'f, 'c, 'x, 'u) externals \<Rightarrow> ('b, 'r, 'l, 'c, 'u) app \<Rightarrow> bool
    \<Rightarrow> ('b, 'r, 'x, 'e, 'm, 'l) handlers \<Rightarrow> ('b, 'r, 'x, 'e, 'm, 'l) handlers \<Rightarrow> bool"
  for ex a recovers
where
  handler:
    "handler_moves ex recovers s s' \<Longrightarrow> handlers_step ex a recovers s s'"
| program_moves:
    "\<not> hs_crashed s \<Longrightarrow> program_step ex a (hs_program s) p \<Longrightarrow>
     (\<forall>i. is_question (sv_thread (pg_serving p) i) \<longrightarrow> is_question (sv_thread (pg_serving (hs_program s)) i)) \<Longrightarrow>
     handlers_step ex a recovers s (s\<lparr>hs_program := p\<rparr>)"
| message_arrives:
    "\<not> hs_crashed s \<Longrightarrow> lf_servers (pg_life (hs_program s)) n = Serving \<Longrightarrow>
     gomap_lookup (the (ap_bundle a)) n = Some i \<Longrightarrow> srv_handler (info_server i) = Some h \<Longrightarrow>
     handlers_step ex a recovers s
       (s\<lparr>hs_program := arrive (locator_call (handle_start (ex_dns ex) h original)) (hs_program s),
          hs_requests := hs_requests s @ [new_request (ex_dns ex) h original (hs_program s)]\<rparr>)"

abbreviation handlers_reachable ::
  "('b, 'q, 'r, 'm, 'e, 'l, 'f, 'c, 'x, 'u) externals \<Rightarrow> ('b, 'r, 'l, 'c, 'u) app \<Rightarrow> bool
    \<Rightarrow> ('b, 'r, 'x, 'e, 'm, 'l) handlers \<Rightarrow> bool" where
  "handlers_reachable ex a recovers s \<equiv> (handlers_step ex a recovers)\<^sup>*\<^sup>* (handlers_init ex a) s"

section \<open>Invariant\<close>

text \<open>The outcome is that of \<open>ServeDNS\<close> on a locator between the arrival and \<open>q\<close>.\<close>

definition answered_from ::
  "('b, 'q, 'r, 'm, 'e, 'l, 'f, 'c, 'x, 'u) externals \<Rightarrow> ('b, 'r, 'l, 'c, 'u) app \<Rightarrow> ('b, 'r, 'x, 'e) program
    \<Rightarrow> ('b, 'r, 'x, 'e, 'm, 'l) request \<Rightarrow> panic option \<times> 'm msg \<times> string option \<Rightarrow> bool" where
  "answered_from ex a q rq out \<longleftrightarrow>
     (\<exists>loc r sh. (locator_call (handle_start (ex_dns ex) (rq_handler rq) (rq_message rq)) = (None :: 'r goroutine option) \<or>
          serves_between ex a (rq_arrival rq) q loc) \<and>
        out = serve_dns (ex_medley ex) (ex_dns ex) (\<lambda>_. loc) (rq_handler rq) r sh (rq_message rq))"

definition request_ok ::
  "('b, 'q, 'r, 'm, 'e, 'l, 'f, 'c, 'x, 'u) externals \<Rightarrow> ('b, 'r, 'l, 'c, 'u) app \<Rightarrow> ('b, 'r, 'x, 'e) program
    \<Rightarrow> ('b, 'r, 'x, 'e, 'm, 'l) request \<Rightarrow> bool" where
  "request_ok ex a q rq \<longleftrightarrow>
     program_reachable ex a (rq_arrival rq) \<and> (program_step ex a)\<^sup>*\<^sup>* (rq_arrival rq) q \<and>
     (\<exists>n i. gomap_lookup (the (ap_bundle a)) n = Some i \<and> srv_handler (info_server i) = Some (rq_handler rq)) \<and>
     (\<forall>t. locator_call (handle_start (ex_dns ex) (rq_handler rq) (rq_message rq)) = Some t \<longrightarrow>
        sv_thread (pg_serving (rq_arrival rq)) (rq_goroutine rq) = t) \<and>
     (\<forall>out. rq_outcome rq = Some out \<longrightarrow> answered_from ex a q rq out)"

definition handlers_ok ::
  "('b, 'q, 'r, 'm, 'e, 'l, 'f, 'c, 'x, 'u) externals \<Rightarrow> ('b, 'r, 'l, 'c, 'u) app \<Rightarrow> bool
    \<Rightarrow> ('b, 'r, 'x, 'e, 'm, 'l) handlers \<Rightarrow> bool" where
  "handlers_ok ex a recovers s \<longleftrightarrow>
     program_reachable ex a (hs_program s) \<and> (\<forall>rq \<in> set (hs_requests s). request_ok ex a (hs_program s) rq) \<and>
     (hs_crashed s \<longrightarrow> \<not> recovers \<and>
        (\<exists>rq \<in> set (hs_requests s). \<exists>p response bytes. rq_outcome rq = Some (Some p, response, bytes)))"

lemma serves_between_later:
  "serves_between ex a p q loc \<Longrightarrow> (program_step ex a)\<^sup>*\<^sup>* q q' \<Longrightarrow> serves_between ex a p q' loc"
  unfolding serves_between_def by (meson rtranclp_trans)

lemma request_ok_later:
  assumes "request_ok ex a q rq" and "(program_step ex a)\<^sup>*\<^sup>* q q'"
  shows "request_ok ex a q' rq"
proof -
  have "answered_from ex a q' rq out" if "answered_from ex a q rq out" for out
    using that serves_between_later [OF _ assms(2)] unfolding answered_from_def by blast
  with assms show ?thesis unfolding request_ok_def by (meson rtranclp_trans)
qed

text \<open>When the call of the locator has returned, its reply is that of a locator in between.\<close>

lemma request_reply:
  assumes start: "started ex cl a" and ok: "request_ok ex a q rq"
    and call: "locator_call (handle_start (ex_dns ex) (rq_handler rq) (rq_message rq)) = Some t"
    and fin: "finished (sv_thread (pg_serving q) (rq_goroutine rq))"
  shows "\<exists>loc. serves_between ex a (rq_arrival rq) q loc \<and>
    sv_thread (pg_serving q) (rq_goroutine rq) = locator_reply (ex_medley ex) loc t"
proof -
  have p: "program_reachable ex a (rq_arrival rq)" "(program_step ex a)\<^sup>*\<^sup>* (rq_arrival rq) q"
    "sv_thread (pg_serving (rq_arrival rq)) (rq_goroutine rq) = t"
    using ok call by (simp_all add: request_ok_def)
  show ?thesis
    using lookup_answered [OF start p(1,2) _ fin] groups_answered [OF start p(1,2) _ fin] p(3)
      locator_call_question [OF call]
    by (cases t) auto
qed

lemma handler_end_answers:
  assumes start: "started ex cl a" and ok: "request_ok ex a q rq"
    and run: "handle_end r sh (handle_start (ex_dns ex) (rq_handler rq) (rq_message rq))
      (sv_thread (pg_serving q) (rq_goroutine rq)) = Some (panic, response)"
  shows "answered_from ex a q rq (panic, response, finish (ex_dns ex) response)"
proof -
  let ?w = "handle_start (ex_dns ex) (rq_handler rq) (rq_message rq)"
  have parts: "serve_dns (ex_medley ex) (ex_dns ex) (\<lambda>_. loc) (rq_handler rq) r sh (rq_message rq) =
      (panic, response, finish (ex_dns ex) response)"
    if "handle_end r sh ?w (locator_reply (ex_medley ex) loc (the (locator_call ?w))) = Some (panic, response)" for loc
    using that unfolding handle_parts .
  show ?thesis
  proof (cases "locator_call ?w :: 'c goroutine option")
    case None
    then show ?thesis
      using parts [of undefined] run handled_without_call [OF None] unfolding answered_from_def by metis
  next
    case (Some t)
    obtain loc where loc: "serves_between ex a (rq_arrival rq) q loc"
      "sv_thread (pg_serving q) (rq_goroutine rq) = locator_reply (ex_medley ex) loc t"
      using request_reply [OF start ok Some handle_end_finished [OF Some run]] by blast
    with parts [of loc] run Some have "serve_dns (ex_medley ex) (ex_dns ex) (\<lambda>_. loc) (rq_handler rq) r sh
      (rq_message rq) = (panic, response, finish (ex_dns ex) response)" by simp
    with loc(1) show ?thesis unfolding answered_from_def by metis
  qed
qed

text \<open>The program takes steps of \<open>Program_Steps\<close>.\<close>

lemma arrive_steps:
  assumes "lf_servers (pg_life p) n = Serving" and "\<forall>t. call = Some t \<longrightarrow> is_question t"
  shows "(program_step ex a)\<^sup>*\<^sup>* p (arrive call p)"
  using assms program_step.request_arrives [of p n] by (cases call) (auto simp: arrive_def)

lemma handler_moves_program:
  assumes "handler_moves ex recovers s s'"
  shows "(program_step ex a)\<^sup>*\<^sup>* (hs_program s) (hs_program s')"
  using assms by cases (auto intro: program_step.serving_moves)

lemma handlers_step_program:
  assumes "handlers_step ex a recovers s s'"
  shows "(program_step ex a)\<^sup>*\<^sup>* (hs_program s) (hs_program s')"
  using assms
proof cases
  case handler
  then show ?thesis by (rule handler_moves_program)
next
  case (message_arrives n i h original)
  let ?call = "locator_call (handle_start (ex_dns ex) h original)"
  have "(program_step ex a)\<^sup>*\<^sup>* (hs_program s) (arrive ?call (hs_program s))"
    using message_arrives(3) locator_call_question by (intro arrive_steps) auto
  then show ?thesis by (simp add: message_arrives(1))
qed auto

lemma handler_moves_ok:
  assumes step: "handler_moves ex recovers s s'" and start: "started ex cl a" and ok: "handlers_ok ex a recovers s"
  shows "handlers_ok ex a recovers s'"
  using step
proof cases
  case (call_moves sv)
  have steps: "(program_step ex a)\<^sup>*\<^sup>* (hs_program s) (hs_program s')" using step by (rule handler_moves_program)
  with ok call_moves(1,2) request_ok_later [OF _ steps] rtranclp_trans [OF _ steps, of "program_init ex a"] show ?thesis
    by (auto simp: handlers_ok_def)
next
  case (handler_ends j rq r sh panic response)
  let ?rq = "rq\<lparr>rq_outcome := Some (panic, response, finish (ex_dns ex) response)\<rparr>"
  have rq: "request_ok ex a (hs_program s) rq" using ok handler_ends(3,4) by (simp add: handlers_ok_def)
  have "answered_from ex a (hs_program s) rq (panic, response, finish (ex_dns ex) response)"
    using start rq handler_ends(6) by (rule handler_end_answers)
  with rq have "request_ok ex a (hs_program s) ?rq" by (simp add: request_ok_def answered_from_def)
  then have "\<forall>rq' \<in> set ((hs_requests s)[j := ?rq]). request_ok ex a (hs_program s) rq'"
    using ok set_update_subset_insert [of "hs_requests s" j ?rq] unfolding handlers_ok_def by blast
  moreover have "?rq \<in> set ((hs_requests s)[j := ?rq])" using handler_ends(3) by (rule set_update_memI)
  then have "\<exists>rq' \<in> set ((hs_requests s)[j := ?rq]). \<exists>p response bytes. rq_outcome rq' = Some (Some p, response, bytes)"
    if "panic \<noteq> None"
    using that by (intro bexI [of _ ?rq]) auto
  ultimately show ?thesis using ok unfolding handlers_ok_def handler_ends(1) by simp
qed

lemma handlers_step_ok:
  assumes step: "handlers_step ex a recovers s s'" and start: "started ex cl a" and ok: "handlers_ok ex a recovers s"
  shows "handlers_ok ex a recovers s'"
proof -
  have steps: "(program_step ex a)\<^sup>*\<^sup>* (hs_program s) (hs_program s')" using step by (rule handlers_step_program)
  have reach: "program_reachable ex a (hs_program s')"
    using ok rtranclp_trans [OF _ steps] by (simp add: handlers_ok_def)
  show ?thesis
    using step
  proof cases
    case handler
    then show ?thesis using start ok by (rule handler_moves_ok)
  next
    case (program_moves p)
    with ok reach request_ok_later [OF _ steps] show ?thesis by (auto simp: handlers_ok_def)
  next
    case (message_arrives n i h original)
    let ?rq = "new_request (ex_dns ex) h original (hs_program s)"
    have "request_ok ex a (hs_program s') ?rq"
      using message_arrives(1,4,5) reach
      by (auto simp: request_ok_def new_request_def arrive_def set_thread_def split: option.split)
    with ok reach request_ok_later [OF _ steps] message_arrives(1,2) show ?thesis by (auto simp: handlers_ok_def)
  qed
qed

interpretation handlers: step_system "handlers_step ex a recovers" "\<lambda>s. started ex cl a \<and> handlers_ok ex a recovers s"
  for ex a recovers cl
  by unfold_locales (blast intro: handlers_step_ok)

lemma handlers_ok_reachable:
  assumes "started ex cl a" and "handlers_reachable ex a recovers s"
  shows "handlers_ok ex a recovers s"
proof -
  have "handlers_ok ex a recovers (handlers_init ex a)" by (simp add: handlers_ok_def handlers_init_def)
  with handlers.steps_inv [OF assms(2)] assms(1) show ?thesis by blast
qed

section \<open>Requests are handled to their end\<close>

definition pending :: "('b, 'r, 'x, 'e, 'm, 'l) handlers \<Rightarrow> nat" where
  "pending s = length (filter (\<lambda>rq. rq_outcome rq = None) (hs_requests s))"

definition handlers_order ::
  "(('b, 'r, 'x, 'e, 'm, 'l) handlers \<times> ('b, 'r, 'x, 'e, 'm, 'l) handlers) set" where
  "handlers_order = inv_image (less_than <*lex*> serving_order) (\<lambda>s. (pending s, pg_serving (hs_program s)))"

lemma handlers_order_wf: "wf handlers_order"
  unfolding handlers_order_def by (intro wf_inv_image wf_lex_prod wf_less_than serving_order_wf)

lemma filter_update_less:
  assumes "j < length xs" and "P (xs ! j)" and "\<not> P y"
  shows "length (filter P (xs[j := y])) < length (filter P xs)"
proof -
  have "{i. i < length xs \<and> P (xs[j := y] ! i)} \<subset> {i. i < length xs \<and> P (xs ! i)}"
    using assms by (auto simp: nth_list_update)
  from psubset_card_mono [OF _ this] show ?thesis by (simp add: length_filter_conv_card)
qed

lemma program_serving:
  assumes "started ex cl a" and "handlers_ok ex a recovers s"
  shows "finite_serving (ex_medley ex) (app_builder ex cl a) (ex_growth ex) (ex_orders ex)
    (loc_groups (first_locator a)) (with_listeners [()] (the (ap_ingester a))) UNIV (pg_serving (hs_program s))"
  using program_okD(2) [OF program_run(1) [OF assms(1) _ rtranclp.rtrancl_refl]] assms(2) by (simp add: handlers_ok_def)

lemma handler_moves_decreases:
  assumes "handler_moves ex recovers s s'" and start: "started ex cl a" and ok: "handlers_ok ex a recovers s"
  shows "(s', s) \<in> handlers_order"
  using assms(1)
proof cases
  case (call_moves sv)
  with serving_ends.decreases [OF call_moves(3) program_serving [OF start ok]] show ?thesis
    by (simp add: handlers_order_def pending_def)
next
  case (handler_ends j rq r sh panic response)
  with filter_update_less [of j "hs_requests s" "\<lambda>rq. rq_outcome rq = None"] show ?thesis
    by (simp add: handlers_order_def pending_def)
qed

interpretation handlers_end: terminating_system "handler_moves ex recovers"
    "\<lambda>s. started ex cl a \<and> handlers_ok ex a recovers s" handlers_order
  for ex recovers cl a
  by unfold_locales (blast intro: handler_moves_ok handlers_order_wf handler_moves_decreases)+

text \<open>No handler waits for ever: when nothing can move, all of them have ended, or the program has.\<close>

lemma handlers_stuck:
  assumes start: "started ex cl a" and ok: "handlers_ok ex a recovers s"
    and stuck: "\<nexists>s'. handler_moves ex recovers s s'" and "\<not> hs_crashed s"
  shows "\<forall>rq \<in> set (hs_requests s). rq_outcome rq \<noteq> None"
    and "sv_call (pg_serving (hs_program s)) i = CallDone"
proof -
  let ?sv = "pg_serving (hs_program s)"
  have "\<nexists>sv. serve_step (ex_growth ex) (ex_orders ex) (ex_medley ex) ?sv sv"
    using handler_moves.call_moves [OF assms(4)] stuck by blast
  note ends = serving_stuck [OF program_serving [OF start ok] this]
  show "sv_call ?sv i = CallDone" by (rule ends(2))
  show "\<forall>rq \<in> set (hs_requests s). rq_outcome rq \<noteq> None"
  proof (intro ballI notI)
    fix rq assume "rq \<in> set (hs_requests s)" and open_rq: "rq_outcome rq = None"
    then obtain j where j: "j < length (hs_requests s)" "rq = hs_requests s ! j" by (auto simp: in_set_conv_nth)
    let ?w = "handle_start (ex_dns ex) (rq_handler rq) (rq_message rq)"
    have "request_ok ex a (hs_program s) rq" using ok \<open>rq \<in> _\<close> by (simp add: handlers_ok_def)
    from request_reply [OF start this _ ends(1)] have
      "\<exists>loc. sv_thread ?sv (rq_goroutine rq) =
        (case locator_call ?w of None \<Rightarrow> sv_thread ?sv (rq_goroutine rq) | Some t \<Rightarrow> locator_reply (ex_medley ex) loc t)"
      by (cases "locator_call ?w :: 'c goroutine option") auto
    then obtain panic response where "handle_end undefined undefined ?w (sv_thread ?sv (rq_goroutine rq)) = Some (panic, response)"
      using handle_end_reply [of undefined undefined ?w "sv_thread ?sv (rq_goroutine rq)" "ex_medley ex"]
      by (metis surj_pair)
    from handler_moves.handler_ends [OF assms(4) j open_rq this] stuck show False by blast
  qed
qed

text \<open>What a handler serves is never replaced by another request.\<close>

lemma handler_moves_messages:
  "handler_moves ex recovers s s' \<Longrightarrow> map rq_message (hs_requests s') = map rq_message (hs_requests s)"
  by (erule handler_moves.cases) (auto simp: map_update intro!: list_update_same_conv [THEN iffD2])

section \<open>When handlers panic\<close>

lemma serves_between_wf:
  assumes start: "started ex cl a" and p: "program_reachable ex a p" and "serves_between ex a p q loc"
    and "locator_groups loc = Some gps"
  shows "groups_wf gps"
proof -
  obtain l where l: "(life_step ex a)\<^sup>*\<^sup>* (pg_life p) l" "fi_listeners (lf_ingester l) = [loc]"
    using assms(3) unfolding serves_between_def by blast
  have "life_reachable ex a l"
    using program_okD(1) [OF program_run(1) [OF start p rtranclp.rtrancl_refl]] l(1) by (rule rtranclp_trans)
  from life_scanned(2) [OF start this l(2)] assms(4) build_index_wf show ?thesis
    by (auto simp: scanned_def locator_groups_def)
qed

text \<open>The handlers of the started program lack nothing.\<close>

lemma started_parts:
  assumes "started ex cl a" and "gomap_wf (dc_udp (app_dns a))" and "gomap_wf (dc_tcp (app_dns a))"
    and "gomap_lookup (the (ap_bundle a)) n = Some i" and "srv_handler (info_server i) = Some h"
  shows "\<exists>j. h_endpoint_handler h = Some \<lparr>eh_locator = Some the_locator, eh_jitterer = Some j\<rparr> \<and>
    h_group_handler h = Some \<lparr>gh_locator = Some the_locator, gh_jitterer = Some j\<rparr>"
proof -
  obtain j where j: "ap_jitterer a = Some j" using startedD(3) [OF assms(1), of Jitterer] by auto
  obtain l where "h = (the (ap_handler a))\<lparr>h_logger := Some l\<rparr>"
    using started_server [OF assms(1-4)] assms(5) by auto
  with started_handler [OF assms(1)] j show ?thesis by (simp add: Let_def)
qed

lemma route_panics:
  assumes parts: "h_endpoint_handler h = Some \<lparr>eh_locator = Some ptr, eh_jitterer = Some j\<rparr>"
      "h_group_handler h = Some \<lparr>gh_locator = Some ptr, gh_jitterer = Some j\<rparr>"
    and wf: "\<And>gps. locator_groups loc = Some gps \<Longrightarrow> groups_wf gps"
    and "fst (route md api (\<lambda>_. loc) h r sh response q) \<noteq> None"
  shows "locator_groups loc = None \<or> (\<exists>object names. None \<in> set (find_string md loc object names))"
proof (cases "dn_is_below api (h_endpoint_domain h) (hdr_name (rr_header q))")
  case True
  let ?eh = "\<lparr>eh_locator = Some ptr, eh_jitterer = Some j\<rparr>" and ?rq = "parse_endpoint_request api q (h_endpoint_domain h)"
  have "fst (serve_endpoints md (\<lambda>_. loc) ?eh r sh response ?rq) \<noteq> None"
    using assms(4) True by (simp add: route_def parts)
  then show ?thesis
    by (subst (asm) serve_endpoints_panic [of ?eh ptr j]) (auto simp: located_rrs_isl)
next
  case False
  with assms(4) have "dn_is_below api (h_group_domain h) (hdr_name (rr_header q))"
    by (simp add: route_def split: if_splits)
  with False assms(4) wf show ?thesis
    by (cases "locator_groups loc")
      (auto simp: route_def parts serve_groups_def answer_groups_def groups_get_wf split: if_splits option.splits)
qed

lemma no_call_no_panic:
  assumes parts: "h_endpoint_handler h = Some \<lparr>eh_locator = Some ptr, eh_jitterer = Some j\<rparr>"
      "h_group_handler h = Some \<lparr>gh_locator = Some ptr, gh_jitterer = Some j\<rparr>"
    and "locator_call (handle_start api h original) = (None :: 'r goroutine option)"
  shows "fst (serve_dns md api (\<lambda>_. loc) h r sh original) = None"
proof -
  obtain response where "handle_start api h original = Handled None response"
    using assms(3) by (auto simp: handle_start_def Let_def ask_endpoints_def ask_groups_def parts
      split: prod.splits option.splits if_splits)
  then have "serve_dns md api (\<lambda>_. loc) h r sh original = (None, response, finish api response)"
    by (subst handle_parts [symmetric]) simp
  then show ?thesis by simp
qed

lemma request_panics:
  assumes start: "started ex cl a" and config: "gomap_wf (dc_udp (app_dns a))" "gomap_wf (dc_tcp (app_dns a))"
    and ok: "request_ok ex a q rq" and out: "rq_outcome rq = Some out" and "fst out \<noteq> None"
  shows "\<exists>loc. serves_between ex a (rq_arrival rq) q loc \<and>
    (locator_groups loc = None \<or> (\<exists>object names. None \<in> set (find_string (ex_medley ex) loc object names)))"
proof -
  obtain n i where "gomap_lookup (the (ap_bundle a)) n = Some i" "srv_handler (info_server i) = Some (rq_handler rq)"
    using ok unfolding request_ok_def by blast
  then obtain j where parts:
    "h_endpoint_handler (rq_handler rq) = Some \<lparr>eh_locator = Some the_locator, eh_jitterer = Some j\<rparr>"
    "h_group_handler (rq_handler rq) = Some \<lparr>gh_locator = Some the_locator, gh_jitterer = Some j\<rparr>"
    using started_parts [OF start config] by blast
  obtain loc r sh where loc:
    "locator_call (handle_start (ex_dns ex) (rq_handler rq) (rq_message rq)) = (None :: 'c goroutine option) \<or>
      serves_between ex a (rq_arrival rq) q loc"
    "out = serve_dns (ex_medley ex) (ex_dns ex) (\<lambda>_. loc) (rq_handler rq) r sh (rq_message rq)"
    using ok out unfolding request_ok_def answered_from_def by blast
  then have between: "serves_between ex a (rq_arrival rq) q loc"
    using no_call_no_panic [OF parts] assms(6) by metis
  have "program_reachable ex a (rq_arrival rq)" using ok by (simp add: request_ok_def)
  note wf = serves_between_wf [OF start this between]
  obtain question response where get: "get_question (rq_message rq) (start_operation (ex_dns ex) (rq_message rq)) =
      (question, response)" by fastforce
  have "question \<noteq> None" using assms(6) loc(2) get by (cases question) (simp_all add: serve_dns_def Let_def)
  then obtain q where q: "question = Some q" by blast
  have "fst (route (ex_medley ex) (ex_dns ex) (\<lambda>_. loc) (rq_handler rq) r sh response q) \<noteq> None"
    using assms(6) by (simp add: loc(2) serve_dns_def Let_def get q split_beta)
  with route_panics [OF parts wf] between show ?thesis by blast
qed

section \<open>Properties\<close>

text \<open>
  Property C13: every request comes to its end. Wherever the program is, with any requests and an
  ingest in the middle, let the goroutines of these go on as long as they can, in whatever order, while
  no further messages arrive. Then the
  ingest has returned from its calls and the handler of every message that has arrived has ended,
  unless a handler's panic has ended the program before, which takes a DNS package that does not
  recover. The outcome of a handler - its panic, if any, its response and the bytes sent - is that of
  \<open>ServeDNS\<close> on a locator that the program's life has between the arrival and that state (or, for a
  message that is refused without the locator, on any). It is a
  panic only if this locator has no groups yet, or one of its rings yields nil. (The configured maps
  of servers are maps, without a key twice.)
\<close>

theorem program_requests_answered:
  assumes "started ex cl a" and "gomap_wf (dc_udp (app_dns a))" and "gomap_wf (dc_tcp (app_dns a))"
    and "handlers_reachable ex a recovers (run 0)" and "maximal (handler_moves ex recovers) run"
  shows "\<exists>k. handlers_reachable ex a recovers (run k) \<and>
    map rq_message (hs_requests (run k)) = map rq_message (hs_requests (run 0)) \<and>
    (if hs_crashed (run k)
     then \<not> recovers \<and> (\<exists>rq \<in> set (hs_requests (run k)). \<exists>p response bytes. rq_outcome rq = Some (Some p, response, bytes))
     else (\<forall>rq \<in> set (hs_requests (run k)). rq_outcome rq \<noteq> None) \<and>
       (\<forall>i. sv_call (pg_serving (hs_program (run k))) i = CallDone)) \<and>
    (\<forall>rq \<in> set (hs_requests (run k)). \<forall>out. rq_outcome rq = Some out \<longrightarrow>
      answered_from ex a (hs_program (run k)) rq out \<and>
      (fst out \<noteq> None \<longrightarrow> (\<exists>loc. serves_between ex a (rq_arrival rq) (hs_program (run k)) loc \<and>
        (locator_groups loc = None \<or> (\<exists>object names. None \<in> set (find_string (ex_medley ex) loc object names))))))"
proof -
  have start: "handlers_ok ex a recovers (run 0)" using assms(1,4) by (rule handlers_ok_reachable)
  then obtain k where stuck: "\<nexists>s'. handler_moves ex recovers (run k) s'"
    using handlers_end.maximal_ends [OF assms(5)] assms(1) by blast
  have moves: "(handler_moves ex recovers)\<^sup>*\<^sup>* (run 0) (run k)" using assms(5) by (rule maximal_steps)
  then have "(handlers_step ex a recovers)\<^sup>*\<^sup>* (run 0) (run k)"
    by (rule rtranclp_mono [THEN predicate2D, rotated]) (blast intro: handler)
  with assms(4) have reach: "handlers_reachable ex a recovers (run k)" by (rule rtranclp_trans)
  have ok: "handlers_ok ex a recovers (run k)" using assms(1) reach by (rule handlers_ok_reachable)
  have "map rq_message (hs_requests (run k)) = map rq_message (hs_requests (run 0))"
    using moves by (induction rule: rtranclp_induct) (simp_all add: handler_moves_messages)
  moreover have "answered_from ex a (hs_program (run k)) rq out \<and>
      (fst out \<noteq> None \<longrightarrow> (\<exists>loc. serves_between ex a (rq_arrival rq) (hs_program (run k)) loc \<and>
        (locator_groups loc = None \<or> (\<exists>object names. None \<in> set (find_string (ex_medley ex) loc object names)))))"
    if "rq \<in> set (hs_requests (run k))" "rq_outcome rq = Some out" for rq out
  proof -
    have rq: "request_ok ex a (hs_program (run k)) rq" using ok that(1) by (simp add: handlers_ok_def)
    with that(2) request_panics [OF assms(1-3) rq that(2)] show ?thesis by (auto simp: request_ok_def)
  qed
  moreover have "if hs_crashed (run k)
     then \<not> recovers \<and> (\<exists>rq \<in> set (hs_requests (run k)). \<exists>p response bytes. rq_outcome rq = Some (Some p, response, bytes))
     else (\<forall>rq \<in> set (hs_requests (run k)). rq_outcome rq \<noteq> None) \<and>
       (\<forall>i. sv_call (pg_serving (hs_program (run k))) i = CallDone)"
    using ok handlers_stuck [OF assms(1) ok stuck] by (simp add: handlers_ok_def)
  ultimately show ?thesis using reach by blast
qed

section \<open>A run for the witness\<close>

lemma handlers_life_steps:
  "(\<lambda>s s'. life_step ex a s s' \<and> ingesting (lf_checker s') = ingesting (lf_checker s))\<^sup>*\<^sup>* l l' \<Longrightarrow> \<not> hs_crashed s \<Longrightarrow>
     (handlers_step ex a recovers)\<^sup>*\<^sup>* (s\<lparr>hs_program := p\<lparr>pg_life := l\<rparr>\<rparr>) (s\<lparr>hs_program := p\<lparr>pg_life := l'\<rparr>\<rparr>)"
proof (induction rule: rtranclp_induct)
  case (step l' l'')
  then have "program_step ex a (p\<lparr>pg_life := l'\<rparr>) (p\<lparr>pg_life := l''\<rparr>)"
    using life_moves [of ex a "p\<lparr>pg_life := l'\<rparr>" l''] by simp
  with step.prems program_moves [of "s\<lparr>hs_program := p\<lparr>pg_life := l'\<rparr>\<rparr>" ex a "p\<lparr>pg_life := l''\<rparr>" recovers]
  have "handlers_step ex a recovers (s\<lparr>hs_program := p\<lparr>pg_life := l'\<rparr>\<rparr>) (s\<lparr>hs_program := p\<lparr>pg_life := l''\<rparr>\<rparr>)" by simp
  with step.IH step.prems show ?case by (auto intro: rtranclp.rtrancl_into_rtrancl)
qed simp

theorem program_requests_answered_witness:
  "\<exists>a run k rq. started sample_world sample_command_line a \<and> handlers_reachable sample_world a False (run 0) \<and>
    maximal (handler_moves sample_world False) run \<and> hs_requests (run 0) \<noteq> [] \<and>
    rq \<in> set (hs_requests (run k)) \<and> rq_outcome rq \<noteq> None"
proof -
  obtain a i where a: "started sample_world sample_command_line a" "ap_hooks a = [CheckerHook, ServerHook ''dns'']"
    "gomap_lookup (the (ap_bundle a)) ''dns'' = Some i" "the (ap_config a) = sample_main"
    using sample_started [of sample_env] unfolding sample_world_def by blast
  have config: "gomap_wf (dc_udp (app_dns a))" "gomap_wf (dc_tcp (app_dns a))"
    by (simp_all add: app_dns_def a(4) sample_main_def sample_dns_def provide_dns_def)
  obtain h where h: "srv_handler (info_server i) = Some h" using started_server [OF a(1) config a(3)] by blast
  let ?q = "sample_query (TXT \<lparr>hdr_name = ''red.group.hashy.net.'', hdr_ttl = 0, hdr_class = class_INET\<rparr> [])"
  let ?p = "(program_init sample_world a)\<lparr>pg_life := sample_running sample_world a\<rparr>"
  let ?s = "(handlers_init sample_world a)\<lparr>hs_program := ?p\<rparr>"
  let ?t = "?s\<lparr>hs_program := arrive (locator_call (handle_start (ex_dns sample_world) h ?q)) (hs_program ?s),
    hs_requests := hs_requests ?s @ [new_request (ex_dns sample_world) h ?q (hs_program ?s)]\<rparr>"
  have "(handlers_step sample_world a False)\<^sup>*\<^sup>* (handlers_init sample_world a) ?s"
    using handlers_life_steps [OF sample_running_quiet [OF a(2)], where s = "handlers_init sample_world a"
        and p = "program_init sample_world a" and recovers = False]
    by (simp add: handlers_init_def program_init_def)
  moreover have "handlers_step sample_world a False ?s ?t"
    using a(3) h by (intro message_arrives [of _ "''dns''"]) (simp_all add: handlers_init_def sample_running_def)
  ultimately have reach: "handlers_reachable sample_world a False ?t" by (rule rtranclp.rtrancl_into_rtrancl)
  obtain run where run: "run 0 = ?t" "maximal (handler_moves sample_world False) run"
    using maximal_exists [of ?t "handler_moves sample_world False"] by (elim exE conjE) (rule that)
  have some: "hs_requests (run 0) \<noteq> []" by (simp add: run(1))
  have reach0: "handlers_reachable sample_world a False (run 0)" using reach by (simp only: run(1))
  obtain k where k: "map rq_message (hs_requests (run k)) = map rq_message (hs_requests (run 0))"
    "if hs_crashed (run k)
     then \<not> False \<and> (\<exists>rq \<in> set (hs_requests (run k)). \<exists>p response bytes. rq_outcome rq = Some (Some p, response, bytes))
     else (\<forall>rq \<in> set (hs_requests (run k)). rq_outcome rq \<noteq> None) \<and>
       (\<forall>i. sv_call (pg_serving (hs_program (run k))) i = CallDone)"
    using program_requests_answered [OF a(1) config reach0 run(2)] by blast
  have "\<exists>rq \<in> set (hs_requests (run k)). rq_outcome rq \<noteq> None"
  proof (cases "hs_crashed (run k)")
    case True
    then obtain rq where "rq \<in> set (hs_requests (run k))" "\<exists>p response bytes. rq_outcome rq = Some (Some p, response, bytes)"
      using k(2) by (simp only: if_True) blast
    then show ?thesis by (intro bexI [of _ rq]) auto
  next
    case False
    then have "\<forall>rq \<in> set (hs_requests (run k)). rq_outcome rq \<noteq> None" using k(2) by (simp only: if_False) blast
    moreover have "set (hs_requests (run k)) \<noteq> {}" using k(1) some by (metis map_is_Nil_conv set_empty)
    ultimately show ?thesis by (meson all_not_in_conv)
  qed
  with a(1) reach0 run(2) some show ?thesis by blast
qed

end
