(* ===== verification/Repeated_Addresses.thy ===== *)
theory Repeated_Addresses
  imports Collector_Properties
begin

text \<open>
  What \<open>Build\<close> makes of zone files that repeat an address of a host. \<open>Dedupe\<close> moves such a slice
  away from the map entry or changes the array they share, so the invariant of \<open>Collector_Spec\<close>,
  where every slice stays where it is, becomes one on the current slice of each host and family.
  It holds for every stream in which a host with a repeated address belongs to one group only;
  beyond that the groups of one host overwrite each other's addresses (last section).
\<close>

section \<open>The addresses served\<close>

text \<open>
  The first \<open>k\<close> addresses of the stream, \<open>k\<close> the number of distinct ones, are kept, and the distinct
  ones are added to them.
\<close>

definition served_addrs :: "addr list \<Rightarrow> addr list" where
  "served_addrs xs =
     (if distinct xs then sorted_list_of_set (set xs)
      else sort (take (card (set xs)) xs @ sorted_list_of_set (set xs)))"

definition served_endpoint :: "rr list \<Rightarrow> string \<Rightarrow> addr list endpoint" where
  "served_endpoint rrs n =
     \<lparr>ep_name = n, ep_ip4 = served_addrs (stream_addrs rrs (n, False)),
      ep_ip6 = served_addrs (stream_addrs rrs (n, True))\<rparr>"

text \<open>The hosts of a group, and the groups with the addresses that are served.\<close>

definition group_hosts :: "string \<Rightarrow> rr list \<Rightarrow> string \<Rightarrow> string set" where
  "group_hosts domain rrs n =
     (\<Union>s \<in> defs_services (stream_defs domain rrs) n. set (stream_targets rrs s))"

definition served_group :: "string \<Rightarrow> rr list \<Rightarrow> string \<Rightarrow> addr list group" where
  "served_group domain rrs n = (group_of domain rrs n)\<lparr>grp_endpoints :=
     map (served_endpoint rrs) (filter (known_host rrs) (sorted_list_of_set (group_hosts domain rrs n)))\<rparr>"

definition served_groups :: "string \<Rightarrow> rr list \<Rightarrow> addr list groups" where
  "served_groups domain rrs =
     (groups_of domain rrs)\<lparr>gps_all := map (served_group domain rrs) (group_names domain rrs)\<rparr>"

lemma finite_group_hosts [simp]: "finite (group_hosts domain rrs n)"
  by (simp add: group_hosts_def)

text \<open>No host with a repeated address belongs to two groups.\<close>

definition repeats_unshared :: "string \<Rightarrow> rr list \<Rightarrow> bool" where
  "repeats_unshared domain rrs \<longleftrightarrow>
     (\<forall>n \<in> set (group_names domain rrs). \<forall>m \<in> set (group_names domain rrs). n \<noteq> m \<longrightarrow>
        (\<forall>t \<in> group_hosts domain rrs n \<inter> group_hosts domain rrs m. \<forall>v6. distinct (stream_addrs rrs (t, v6))))"

lemma served_addrs_props:
  "set (served_addrs xs) = set xs" "sorted (served_addrs xs)"
  "length (served_addrs xs) = (if distinct xs then length xs else 2 * card (set xs))"
  using set_take_subset [of "card (set xs)" xs] card_length [of xs]
  by (auto simp: served_addrs_def distinct_card)

lemma distinct_served_addrs: "distinct (served_addrs xs) \<longleftrightarrow> distinct xs"
proof
  assume "distinct (served_addrs xs)"
  then have "card (set xs) = length (served_addrs xs)"
    using distinct_card [of "served_addrs xs"] by (simp add: served_addrs_props(1))
  then show "distinct xs" by (cases "distinct xs") (simp_all add: served_addrs_props(3))
qed (simp add: served_addrs_def)

lemma served_addrs_distinct: "distinct xs \<Longrightarrow> mset ys = mset xs \<Longrightarrow> served_addrs ys = served_addrs xs"
  using mset_eq_imp_distinct_iff [of ys xs] mset_eq_setD [of ys xs] by (simp add: served_addrs_def)

lemma mset_served_addrs: "distinct xs \<Longrightarrow> mset (served_addrs xs) = mset xs"
  by (intro set_eq_iff_mset_eq_distinct [THEN iffD1])
    (simp_all add: served_addrs_props distinct_served_addrs)

section \<open>One slice\<close>

lemma sort_dedupe_result: "sort (dedupe_result ord xs) = served_addrs xs" for xs :: "addr list"
proof (cases "distinct xs")
  case True
  then show ?thesis
    by (simp add: served_addrs_def sorted_list_of_set_sort_remdups distinct_remdups_id)
next
  case False
  have "mset (range_keys ord (dedupe_keys xs)) = mset (sorted_list_of_set (set xs))"
    by (intro set_eq_iff_mset_eq_distinct [THEN iffD1]) simp_all
  then have "mset (dedupe_result ord xs) = mset (take (card (set xs)) xs @ sorted_list_of_set (set xs))"
    using False by (simp add: dedupe_result_def)
  then have "sort (dedupe_result ord xs) = sort (take (card (set xs)) xs @ sorted_list_of_set (set xs))"
    by (intro properties_for_sort [symmetric]) simp_all
  with False show ?thesis by (simp add: served_addrs_def)
qed

lemma ec_normalize_served:
  assumes valid: "valid_slice h s" and run: "ec_normalize g ords h s = (h', s')"
  shows "deref h' s' = served_addrs (deref h s)" and "slice_step h s h' s'"
    and "distinct (deref h s) \<Longrightarrow> s' = s"
proof -
  obtain h1 where dd: "values_dedupe g ZeroAddr (ord_addrs ords) h s = (h1, s')"
    and h': "h' = values_sort_func compare_addrs h1 s'"
    using run by (auto simp: ec_normalize_def split: prod.splits)
  note d = values_dedupe_spec [OF valid dd]
  note sorted = values_sort_func_spec [OF slice_step_valid [OF d(2)], of compare_addrs]
  show "deref h' s' = served_addrs (deref h s)"
    by (simp add: h' sorted(1) d(1) addrcmp.sort_func_sort sort_dedupe_result)
  show "slice_step h s h' s'" using d(2) sorted(2) unfolding h' by (rule slice_step_trans)
  show "s' = s" if "distinct (deref h s)" using values_dedupe_distinct [OF valid that] dd by simp
qed

section \<open>The slices of all hosts\<close>

text \<open>
  \<open>f\<close> gives the current slice of every host and family: that of the map entry in \<open>f0\<close>, or the one in
  the endpoint built last. \<open>P\<close> are those that have been normalized.
\<close>

definition slots_inv ::
  "(string \<times> bool \<Rightarrow> slice) \<Rightarrow> rr list \<Rightarrow> (string \<times> bool) set \<Rightarrow> addr store \<Rightarrow> (string \<times> bool \<Rightarrow> slice) \<Rightarrow> bool" where
  "slots_inv f0 rrs P h f \<longleftrightarrow> slot_family h f \<and>
     (\<forall>k. (k \<notin> P \<or> distinct (stream_addrs rrs k) \<longrightarrow> f k = f0 k) \<and>
        deref h (f k) = (if k \<in> P then served_addrs (stream_addrs rrs k) else stream_addrs rrs k))"

lemma slots_inv_step:
  assumes inv: "slots_inv f0 rrs P h f" and k: "k \<in> P \<longrightarrow> distinct (stream_addrs rrs k)"
    and run: "ec_normalize g ords h (f0 k) = (h', s')"
  shows "slots_inv f0 rrs (insert k P) h' (f(k := s'))" and "j \<in> P \<Longrightarrow> (f(k := s')) j = f j"
proof -
  have fam: "slot_family h f" using inv by (simp add: slots_inv_def)
  have now: "f k = f0 k" using inv k unfolding slots_inv_def by blast
  have content: "deref h (f k) = (if k \<in> P then served_addrs (stream_addrs rrs k) else stream_addrs rrs k)"
    using inv unfolding slots_inv_def by blast
  note norm = ec_normalize_served [OF slot_family_valid [OF fam] run [folded now]]
  have shown: "deref h' s' = served_addrs (stream_addrs rrs k)"
    using norm(1) content k served_addrs_distinct [OF _ mset_served_addrs] by auto
  have same: "s' = f0 k" if "distinct (stream_addrs rrs k)"
    using norm(3) that content by (simp add: now distinct_served_addrs)
  note step = slot_family_step [OF fam norm(2)]
  show "slots_inv f0 rrs (insert k P) h' (f(k := s'))"
    unfolding slots_inv_def
  proof (intro conjI allI)
    fix j
    have old: "(j \<notin> P \<or> distinct (stream_addrs rrs j) \<longrightarrow> f j = f0 j) \<and>
        deref h (f j) = (if j \<in> P then served_addrs (stream_addrs rrs j) else stream_addrs rrs j)"
      using inv unfolding slots_inv_def by blast
    show "j \<notin> insert k P \<or> distinct (stream_addrs rrs j) \<longrightarrow> (f(k := s')) j = f0 j"
      using old same by (cases "j = k") auto
    show "deref h' ((f(k := s')) j) =
        (if j \<in> insert k P then served_addrs (stream_addrs rrs j) else stream_addrs rrs j)"
      using old shown unfolding step(2) by auto
  qed (rule step(1))
  show "(f(k := s')) j = f j" if "j \<in> P" using that same k now by auto
qed

text \<open>The endpoints of the named hosts, over the current slices.\<close>

definition entries_at ::
  "(string \<times> bool \<Rightarrow> slice) \<Rightarrow> endpoint_collector \<Rightarrow> string list \<Rightarrow> slice endpoint list" where
  "entries_at f ec names = List.map_filter (\<lambda>n. map_option
     (\<lambda>e. e\<lparr>ep_ip4 := f (n, False), ep_ip6 := f (n, True)\<rparr>) (gomap_lookup ec n)) names"

lemma entries_at_simps [simp]:
  "entries_at f ec [] = []"
  "gomap_lookup ec n = None \<Longrightarrow> entries_at f ec (n # ns) = entries_at f ec ns"
  "gomap_lookup ec n = Some e \<Longrightarrow>
     entries_at f ec (n # ns) = e\<lparr>ep_ip4 := f (n, False), ep_ip6 := f (n, True)\<rparr> # entries_at f ec ns"
  by (simp_all add: entries_at_def List.map_filter_simps)

lemma entries_at_cong:
  "(\<And>k. k \<in> entry_slots ec (set names) \<Longrightarrow> f k = f' k) \<Longrightarrow> entries_at f ec names = entries_at f' ec names"
proof (induction names)
  case (Cons n names)
  have "entries_at f ec names = entries_at f' ec names"
    using Cons by (auto simp: entry_slots_def)
  moreover have "f (n, v6) = f' (n, v6)" if "gomap_lookup ec n = Some e" for e v6
    using Cons.prems [of "(n, v6)"] that by (simp add: entry_slots_def)
  ultimately show ?case by (cases "gomap_lookup ec n") simp_all
qed simp

lemma endpoints_served:
  assumes "slots_inv (ec_slot ec) rrs P h f" and "distinct names"
    and "\<forall>k \<in> P \<inter> entry_slots ec (set names). distinct (stream_addrs rrs k)"
  shows "\<exists>h' f'. ec_endpoints_for g ords h ec names = (h', entries_at f' ec names) \<and>
    slots_inv (ec_slot ec) rrs (P \<union> entry_slots ec (set names)) h' f' \<and> (\<forall>k \<in> P. f' k = f k)"
  using assms
proof (induction names arbitrary: P h f)
  case Nil
  then show ?case by (auto simp: entry_slots_simps)
next
  case (Cons n names)
  show ?case
  proof (cases "gomap_lookup ec n")
    case None
    with Cons show ?thesis by (simp add: entry_slots_simps)
  next
    case (Some e)
    have slots: "ec_slot ec (n, False) = ep_ip4 e" "ec_slot ec (n, True) = ep_ip6 e"
      using Some by (simp_all add: ec_slot_def)
    have old: "(n, v6) \<in> P \<longrightarrow> distinct (stream_addrs rrs (n, v6))" for v6
      using Cons.prems(3) Some by (simp add: entry_slots_simps)
    obtain h1 s1 where n1: "ec_normalize g ords h (ep_ip4 e) = (h1, s1)" by fastforce
    note i1 = slots_inv_step [OF Cons.prems(1) old n1 [folded slots(1)]]
    obtain h2 s2 where n2: "ec_normalize g ords h1 (ep_ip6 e) = (h2, s2)" by fastforce
    have "(n, True) \<in> insert (n, False) P \<longrightarrow> distinct (stream_addrs rrs (n, True))" using old by simp
    note i2 = slots_inv_step [OF i1(1) this n2 [folded slots(2)]]
    let ?P = "insert (n, True) (insert (n, False) P)" and ?f = "f((n, False) := s1, (n, True) := s2)"
    have "\<forall>k \<in> ?P \<inter> entry_slots ec (set names). distinct (stream_addrs rrs k)"
      using Cons.prems(2,3) Some by (auto simp: entry_slots_simps) (auto simp: entry_slots_def)
    with Cons.IH [OF i2(1)] Cons.prems(2) obtain h3 f3 where
      h3: "ec_endpoints_for g ords h2 ec names = (h3, entries_at f3 ec names)"
      "slots_inv (ec_slot ec) rrs (?P \<union> entry_slots ec (set names)) h3 f3" "\<forall>k \<in> ?P. f3 k = ?f k"
      by auto
    have "f3 (n, False) = s1" "f3 (n, True) = s2" using h3(3) by simp_all
    then have "ec_endpoints_for g ords h ec (n # names) = (h3, entries_at f3 ec (n # names))"
      using Some n1 n2 h3(1) by simp
    moreover have "\<forall>k \<in> P. f3 k = f k"
      using h3(3) i1(2) i2(2) by simp
    ultimately show ?thesis using h3(2) Some by (auto simp: entry_slots_simps)
  qed
qed

section \<open>All groups\<close>

lemma build_loop_served:
  assumes "slots_inv (ec_slot (col_endpoints rrc)) rrs P h f" and "sc_models (col_services rrc) rrs"
    and "distinct (map grp_name grps)"
    and "\<forall>grp \<in> set grps. \<forall>k \<in> P \<inter> entry_slots (col_endpoints rrc) (targets_of rrs grp).
      distinct (stream_addrs rrs k)"
    and "\<forall>grp \<in> set grps. \<forall>grp' \<in> set grps. grp_name grp \<noteq> grp_name grp' \<longrightarrow>
      (\<forall>t \<in> targets_of rrs grp \<inter> targets_of rrs grp'. \<forall>v6. distinct (stream_addrs rrs (t, v6)))"
  shows "\<exists>h' f'. build_loop g ords rrc h grps = (h', map (\<lambda>grp. grp\<lparr>grp_endpoints :=
      entries_at f' (col_endpoints rrc) (sorted_list_of_set (targets_of rrs grp))\<rparr>) grps) \<and>
    slots_inv (ec_slot (col_endpoints rrc)) rrs
      (P \<union> entry_slots (col_endpoints rrc) (\<Union>grp \<in> set grps. targets_of rrs grp)) h' f' \<and>
    (\<forall>k \<in> P. f' k = f k)"
  using assms(1,3-5)
proof (induction grps arbitrary: P h f)
  case Nil
  then show ?case by (auto simp: entry_slots_simps)
next
  case (Cons grp grps)
  let ?ec = "col_endpoints rrc" and ?ts = "\<lambda>grp :: slice group. sorted_list_of_set (targets_of rrs grp)"
  have ts: "sc_target_names ords (col_services rrc) (grp_services grp) = ?ts grp"
    by (simp add: sc_target_names_eq [OF assms(2)] targets_of_def)
  have "\<forall>k \<in> P \<inter> entry_slots ?ec (set (?ts grp)). distinct (stream_addrs rrs k)"
    using Cons.prems(3) by simp
  from endpoints_served [OF Cons.prems(1) _ this, of g ords] obtain h1 f1 where
    h1: "ec_endpoints_for g ords h ?ec (?ts grp) = (h1, entries_at f1 ?ec (?ts grp))"
    "slots_inv (ec_slot ?ec) rrs (P \<union> entry_slots ?ec (targets_of rrs grp)) h1 f1" "\<forall>k \<in> P. f1 k = f k"
    by auto
  have "distinct (stream_addrs rrs k)"
    if "grp' \<in> set grps" "k \<in> (P \<union> entry_slots ?ec (targets_of rrs grp)) \<inter> entry_slots ?ec (targets_of rrs grp')" for grp' k
  proof (cases "k \<in> P")
    case True
    with Cons.prems(3) that show ?thesis by auto
  next
    case False
    with that have "fst k \<in> targets_of rrs grp \<inter> targets_of rrs grp'" by (auto simp: entry_slots_def)
    moreover have "grp_name grp \<noteq> grp_name grp'" using Cons.prems(2) that(1) by auto
    moreover have "grp \<in> set (grp # grps)" "grp' \<in> set (grp # grps)" using that(1) by simp_all
    ultimately show ?thesis using Cons.prems(4) by (metis prod.collapse)
  qed
  moreover have "distinct (map grp_name grps)" using Cons.prems(2) by simp
  ultimately obtain h2 f2 where
    h2: "build_loop g ords rrc h1 grps = (h2, map (\<lambda>grp. grp\<lparr>grp_endpoints := entries_at f2 ?ec (?ts grp)\<rparr>) grps)"
    "slots_inv (ec_slot ?ec) rrs (P \<union> entry_slots ?ec (targets_of rrs grp) \<union>
      entry_slots ?ec (\<Union>grp \<in> set grps. targets_of rrs grp)) h2 f2"
    "\<forall>k \<in> P \<union> entry_slots ?ec (targets_of rrs grp). f2 k = f1 k"
    using Cons.IH [OF h1(2)] Cons.prems(4) by auto
  have "entries_at f1 ?ec (?ts grp) = entries_at f2 ?ec (?ts grp)"
    using h2(3) by (intro entries_at_cong) simp
  then have "build_loop g ords rrc h (grp # grps) =
      (h2, map (\<lambda>grp. grp\<lparr>grp_endpoints := entries_at f2 ?ec (?ts grp)\<rparr>) (grp # grps))"
    using h1(1) h2(1) by (simp add: ts)
  moreover have "\<forall>k \<in> P. f2 k = f k" using h1(3) h2(3) by simp
  ultimately show ?case using h2(2) by (auto simp: entry_slots_simps Un_assoc)
qed

lemma freeze_entries_at:
  assumes models: "ec_models h0 ec rrs" and inv: "slots_inv (ec_slot ec) rrs P h f"
    and P: "entry_slots ec (set names) \<subseteq> P"
  shows "map (freeze_endpoint h) (entries_at f ec names) = map (served_endpoint rrs) (filter (known_host rrs) names)"
  using P
proof (induction names)
  case (Cons n names)
  note look = models [unfolded ec_models_alt, THEN conjunct2, THEN conjunct2, THEN conjunct2,
    rule_format, of n]
  show ?case
  proof (cases "gomap_lookup ec n")
    case None
    with look have "\<not> known_host rrs n" by (simp split: if_splits)
    with None Cons show ?thesis by (simp add: entry_slots_simps)
  next
    case (Some e)
    with look have e: "known_host rrs n" "ep_name e = n" by (simp_all split: if_splits)
    have "(n, False) \<in> P" "(n, True) \<in> P"
      using Cons.prems Some by (simp_all add: entry_slots_simps)
    then have "deref h (f (n, v6)) = served_addrs (stream_addrs rrs (n, v6))" for v6
      using inv unfolding slots_inv_def by (cases v6) auto
    then have "freeze_endpoint h (e\<lparr>ep_ip4 := f (n, False), ep_ip6 := f (n, True)\<rparr>) = served_endpoint rrs n"
      using e(2) by (simp add: freeze_endpoint_def served_endpoint_def)
    with Some e Cons show ?thesis by (simp add: entry_slots_simps)
  qed
qed simp

lemma rrc_build_served:
  assumes models: "rrc_models rrc rrs" and unshared: "repeats_unshared (discovery_domain rrc) rrs"
    and run: "rrc_build g ords rrc = (rrc', gps)"
  shows "freeze_groups (col_heap rrc') gps = served_groups (discovery_domain rrc) rrs"
proof -
  let ?domain = "discovery_domain rrc" and ?ec = "col_endpoints rrc"
  let ?empty = "\<lambda>n. \<lparr>grp_name = n, grp_services =
    sorted_list_of_set (defs_services (stream_defs ?domain rrs) n), grp_endpoints = []\<rparr> :: slice group"
  define grps where "grps = map ?empty (group_names ?domain rrs)"
  have hosts: "targets_of rrs (?empty n) = group_hosts ?domain rrs n" for n
    by (simp add: targets_of_def group_hosts_def)
  from models have gc: "gc_models (col_groups rrc) (stream_defs ?domain rrs)"
    and sc: "sc_models (col_services rrc) rrs" and ec: "ec_models (col_heap rrc) ?ec rrs"
    by (simp_all add: rrc_models_def)
  have new: "gc_new_groups ords (col_groups rrc) =
      \<lparr>gps_by_name = gps_by_name (groups_of ?domain rrs), gps_all = grps\<rparr>"
    by (simp add: gc_new_groups_eq [OF gc] grps_def)
  have "slots_inv (ec_slot ?ec) rrs {} (col_heap rrc) (ec_slot ?ec)"
    using ec unfolding ec_models_def slots_inv_def by auto
  moreover have "distinct (map grp_name grps)" by (simp add: grps_def comp_def group_names_def)
  moreover have "\<forall>grp \<in> set grps. \<forall>grp' \<in> set grps. grp_name grp \<noteq> grp_name grp' \<longrightarrow>
      (\<forall>t \<in> targets_of rrs grp \<inter> targets_of rrs grp'. \<forall>v6. distinct (stream_addrs rrs (t, v6)))"
    using unshared unfolding grps_def repeats_unshared_def set_map ball_simps hosts by simp
  ultimately obtain h f where
    loop: "build_loop g ords rrc (col_heap rrc) grps = (h, map (\<lambda>grp. grp\<lparr>grp_endpoints :=
      entries_at f ?ec (sorted_list_of_set (targets_of rrs grp))\<rparr>) grps)"
    and inv: "slots_inv (ec_slot ?ec) rrs (entry_slots ?ec (\<Union>grp \<in> set grps. targets_of rrs grp)) h f"
    using build_loop_served [OF _ sc, of "{}" "col_heap rrc" "ec_slot ?ec" grps g ords] by auto
  have "freeze_group h ((?empty n)\<lparr>grp_endpoints := entries_at f ?ec (sorted_list_of_set (targets_of rrs (?empty n)))\<rparr>) =
      served_group ?domain rrs n" if "n \<in> set (group_names ?domain rrs)" for n
  proof -
    have "?empty n \<in> set grps" using that by (simp add: grps_def)
    then have "entry_slots ?ec (targets_of rrs (?empty n)) \<subseteq> entry_slots ?ec (\<Union>grp \<in> set grps. targets_of rrs grp)"
      by (auto simp: entry_slots_def)
    with freeze_entries_at [OF ec inv, of "sorted_list_of_set (targets_of rrs (?empty n))"] show ?thesis
      by (simp add: freeze_group_def served_group_def group_of_def Let_def hosts)
  qed
  then have all: "map (freeze_group h) (map (\<lambda>grp. grp\<lparr>grp_endpoints :=
      entries_at f ?ec (sorted_list_of_set (targets_of rrs grp))\<rparr>) grps) =
      map (served_group ?domain rrs) (group_names ?domain rrs)"
    by (simp add: grps_def)
  have "rrc' = rrc_reset (rrc\<lparr>col_heap := h\<rparr>)"
    and "gps = \<lparr>gps_by_name = gps_by_name (groups_of ?domain rrs), gps_all = map (\<lambda>grp. grp\<lparr>grp_endpoints :=
      entries_at f ?ec (sorted_list_of_set (targets_of rrs grp))\<rparr>) grps\<rparr>"
    using run by (simp_all add: rrc_build_def Let_def new loop)
  then show ?thesis
    using all by (simp add: freeze_groups_def rrc_reset_def served_groups_def groups_of_def Let_def)
qed

section \<open>Properties\<close>

lemma build_from_served:
  assumes "first_error (stream_texts domain rrs) = None" and "repeats_unshared domain rrs"
  shows "build_from g ords domain rrs = served_groups domain rrs"
proof -
  obtain rrc where add: "add_rrs g (new_rr_collector domain) rrs = (rrc, None)"
    using add_rrs_error [of g "new_rr_collector domain" rrs] assms(1)
    by (cases "add_rrs g (new_rr_collector domain) rrs") (simp add: new_rr_collector_def)
  obtain rrc' gps where build: "rrc_build g ords rrc = (rrc', gps)" by fastforce
  have "rrc_models rrc rrs" and "discovery_domain rrc = domain"
    using rrc_models_add_rrs [OF rrc_models_new add] by (simp_all add: new_rr_collector_def)
  with rrc_build_served [OF _ _ build] assms(2) add build show ?thesis by (simp add: build_from_def)
qed

text \<open>
  Property C30: what repeated addresses do to the groups. Let all discovery texts parse, and let no
  host with a repeated address belong to two groups; other hosts may. Then \<open>Build\<close> makes the groups
  that the stream describes, whatever the runtime chooses, but for the addresses: those of a host and
  family are free of duplicates only if the stream does not repeat one. From addresses with
  a repetition, \<open>k\<close> of them distinct, it makes \<open>2k\<close>: the first \<open>k\<close> of the stream and all the distinct
  ones, in ascending order (\<open>served_addrs\<close>). So every address is still served, and some more than once.
\<close>

theorem repeated_addresses_served:
  assumes "first_error (stream_texts domain rrs) = None" and "repeats_unshared domain rrs"
  shows "build_from g ords domain rrs = (groups_of domain rrs)\<lparr>gps_all :=
      map (\<lambda>grp. grp\<lparr>grp_endpoints := map (\<lambda>e.
          \<lparr>ep_name = ep_name e, ep_ip4 = served_addrs (stream_addrs rrs (ep_name e, False)),
           ep_ip6 = served_addrs (stream_addrs rrs (ep_name e, True))\<rparr>) (grp_endpoints grp)\<rparr>)
        (gps_all (groups_of domain rrs))\<rparr> \<and>
    (\<forall>k. let xs = stream_addrs rrs k; ys = served_addrs xs
      in set ys = set xs \<and> (distinct ys \<longleftrightarrow> distinct xs) \<and>
        sorted ys \<and> length ys = (if distinct xs then length xs else 2 * card (set xs)))"
proof -
  have "served_group domain rrs n = (group_of domain rrs n)\<lparr>grp_endpoints := map (\<lambda>e.
      \<lparr>ep_name = ep_name e, ep_ip4 = served_addrs (stream_addrs rrs (ep_name e, False)),
       ep_ip6 = served_addrs (stream_addrs rrs (ep_name e, True))\<rparr>) (grp_endpoints (group_of domain rrs n))\<rparr>" for n
    by (simp add: served_group_def group_of_def Let_def group_hosts_def served_endpoint_def endpoint_of_def)
  then show ?thesis
    unfolding build_from_served [OF assms] Let_def
    by (simp add: served_groups_def groups_of_def Let_def served_addrs_props distinct_served_addrs)
qed

text \<open>Host \<open>t\<close> has the addresses 2, 1, 1.\<close>

definition repeated_zone :: "rr list" where
  "repeated_zone =
     [TXT (sample_header ''d.'') [''g s.''], SRV (sample_header ''s.'') ''t.'',
      A (sample_header ''t.'') (IPv4 2), A (sample_header ''t.'') (IPv4 1), A (sample_header ''t.'') (IPv4 1)]"

theorem repeated_addresses_served_witness:
  "map (\<lambda>grp. map ep_ip4 (grp_endpoints grp)) (gps_all (build_from (\<lambda>_ n. n) sample_orders ''d.'' repeated_zone)) =
    [[[IPv4 1, IPv4 1, IPv4 2, IPv4 2]]]"
proof -
  have "first_error (stream_texts ''d.'' repeated_zone) = None" by code_simp
  moreover have "group_names ''d.'' repeated_zone = [''g'']" by code_simp
  then have "repeats_unshared ''d.'' repeated_zone" by (simp add: repeats_unshared_def)
  moreover have "map (\<lambda>grp. map ep_name (grp_endpoints grp)) (gps_all (groups_of ''d.'' repeated_zone)) = [[''t.'']]"
    by code_simp
  moreover have "served_addrs (stream_addrs repeated_zone (''t.'', False)) = [IPv4 1, IPv4 1, IPv4 2, IPv4 2]"
    by code_simp
  ultimately show ?thesis
    using repeated_addresses_served [of "''d.''" repeated_zone "\<lambda>_ n. n" sample_orders]
    by (auto simp: map_eq_Cons_conv)
qed

section \<open>Hosts of two groups\<close>

text \<open>
  When \<open>Dedupe\<close> needs more room than the array has, it appends in a new array and leaves the zeros of
  \<open>slices.Delete\<close> in the array of the map entry: what another group then reads.
\<close>

lemma dedupe_leaves_zeros:
  assumes valid: "valid_slice h (Slice a n)" and run: "values_dedupe g z ord h (Slice a n) = (h', s')"
  defines "xs \<equiv> deref h (Slice a n)"
  assumes "\<not> distinct xs" and "length (h ! a) < 2 * card (set xs)"
  shows "deref h' (Slice a n) = take (card (set xs)) xs @ replicate (n - card (set xs)) z"
proof -
  let ?d = "deduper_add None xs" and ?k = "card (set xs)"
  have len: "length xs = n" using length_deref [OF valid] by (simp add: xs_def)
  have k: "deduper_len ?d = ?k" "?k < n" "0 < ?k"
    using assms(4) len by (auto simp: deduper_len_card distinct_iff_card card_gt_0_iff)
  let ?h1 = "slice_write h (Slice a n) (take ?k xs @ replicate (n - ?k) z)"
  have del: "slice_delete z h (Slice a n) (deduper_len ?d) (slice_len (Slice a n)) = (?h1, Slice a ?k)"
    using k len by (simp add: slice_delete_def xs_def)
  have "deref ?h1 (Slice a n) = take ?k xs @ replicate (n - ?k) z"
    using slice_write_spec(1) [OF valid, of "take ?k xs @ replicate (n - ?k) z"] k len by simp
  have app: "deduper_append_to_slice g z ord ?d ?h1 (Slice a ?k) = (h', s')"
    using run del k len short_distinct [of xs] assms(4)
    by (auto simp: values_dedupe_def Let_def xs_def split: if_splits)
  obtain h2 s2 where grow: "slice_grow g z ?h1 (Slice a ?k) (deduper_len ?d) = (h2, s2)" by fastforce
  have room: "length (?h1 ! a) = length (h ! a)" "a < length ?h1" "?k \<le> length (?h1 ! a)"
    using valid k len by auto
  have fresh: "length ?h1 < length h2 \<and> h2 ! a = ?h1 ! a \<and> slice_array s2 = Some (length ?h1) \<and> valid_slice h2 s2"
    using grow room assms(5) k
    by (auto simp: slice_grow_def slice_cap_def slice_alloc_def Let_def nth_append grow_cap_def split: if_splits)
  have "fold (\<lambda>v (h, s). slice_append g z h s [v]) (range_keys ord (gomap_keys ?d)) (h2, s2) = (h', s')"
    using app grow k by (simp add: deduper_append_to_slice_def)
  from sapp.app_fold [OF _ this] fresh room(2) have "h' ! a = h2 ! a" "length h2 \<le> length h'"
    by (auto simp: slice_step_def)
  with fresh room(2) show ?thesis
    using \<open>deref ?h1 (Slice a n) = _\<close> by (simp add: deref_def)
qed

text \<open>
  Such groups serve the zero (invalid) address: the zone above with a second group of the same host,
  which is built after the first.
\<close>

lemma shared_host_serves_zero_address:
  "map (\<lambda>grp. (grp_name grp, map ep_ip4 (grp_endpoints grp)))
     (gps_all (build_from (\<lambda>_ n. n) sample_orders ''d.''
       (TXT (sample_header ''d.'') [''h s.''] # repeated_zone))) =
   [(''g'', [[IPv4 1, IPv4 1, IPv4 2, IPv4 2]]), (''h'', [[ZeroAddr, IPv4 1, IPv4 2]])]"
  by code_simp

end
