(* ===== verification/Iterators.thy ===== *)
theory Iterators
  imports Locator File_Ingester
begin

text \<open>
  The iterators of the program as Go has them (\<open>service/group.go\<close>, \<open>service/locator.go\<close>,
  \<open>service/empty.go\<close>, \<open>service/fileIngester.go\<close>, \<open>values.go\<close>): functions that push elements into a
  \<open>yield\<close> function until it returns false. Everywhere else an iterator is the list it yields; here
  both readings are shown to agree, for the iterators and for the loops that range over them.

  Go gives every loop over such a function its own \<open>yield\<close>, which runs the body and remembers that
  the loop has been left. An iterator that calls it once more makes the program panic; in the model
  the loop is then \<open>Overrun\<close>.
\<close>

section \<open>Ranging over functions\<close>

text \<open>\<open>'w\<close> is the state that the consumer works on; an iterator returns the panic it ran into, if any.\<close>

type_synonym ('a, 'w) yield = "'a \<Rightarrow> 'w \<Rightarrow> 'w \<times> bool"
type_synonym ('a, 'w) iter_seq = "('a, 'w) yield \<Rightarrow> 'w \<Rightarrow> panic option \<times> 'w"

datatype loop_status = Going | Left | Overrun

definition loop_yield :: "('a, 's) yield \<Rightarrow> ('a, 's \<times> loop_status) yield" where
  "loop_yield body x w =
     (case w of
        (s, Going) \<Rightarrow> (let (s, go) = body x s in ((s, if go then Going else Left), go))
      | (s, _) \<Rightarrow> ((s, Overrun), False))"

text \<open>The body returns whether the loop goes on: \<open>break\<close> and \<open>return\<close> are false.\<close>

definition range_over ::
  "('a, 's \<times> loop_status) iter_seq \<Rightarrow> ('a, 's) yield \<Rightarrow> 's \<Rightarrow> panic option \<times> 's \<times> loop_status" where
  "range_over iter body s = iter (loop_yield body) (s, Going)"

text \<open>The loop \<open>for _, x := range xs { if !yield(x) { return } }\<close>, and whether it ran to its end.\<close>

fun push_all :: "'a list \<Rightarrow> ('a, 'w) yield \<Rightarrow> 'w \<Rightarrow> 'w \<times> bool" where
  "push_all [] yield w = (w, True)"
| "push_all (x # xs) yield w =
     (case yield x w of
        (w, True) \<Rightarrow> push_all xs yield w
      | (w, False) \<Rightarrow> (w, False))"

text \<open>\<open>slices.Values\<close>.\<close>

definition slices_values :: "'a list \<Rightarrow> ('a, 'w) iter_seq" where
  "slices_values xs yield w = (None, fst (push_all xs yield w))"

section \<open>The iterators\<close>

definition values_all_seq :: "'v store \<Rightarrow> slice \<Rightarrow> ('v, 'w) iter_seq" where
  "values_all_seq h vs = slices_values (deref h vs)"

definition group_name :: "'v group \<Rightarrow> string" where
  "group_name g = grp_name g"

definition group_services_seq :: "'v group \<Rightarrow> (string, 'w) iter_seq" where
  "group_services_seq g = slices_values (grp_services g)"

definition group_endpoints_seq :: "'v group \<Rightarrow> ('v endpoint, 'w) iter_seq" where
  "group_endpoints_seq g yield w =
     (None, fst (push_all [0..<length (grp_endpoints g)] (\<lambda>i. yield (grp_endpoints g ! i)) w))"

definition empty_rrs_seq :: "('c \<times> rr, 'w) iter_seq" where
  "empty_rrs_seq yield w = (None, w)"

definition group_rrs_seq :: "'v group \<Rightarrow> 16 word \<Rightarrow> ('v group \<times> rr, 'w) iter_seq" where
  "group_rrs_seq g rr_type =
     (if rr_type \<noteq> type_TXT then empty_rrs_seq
      else (\<lambda>yield w.
        case push_all (grp_services g) (\<lambda>service_name. yield (g, group_txt g service_name)) w of
          (w, False) \<Rightarrow> (None, w)
        | (w, True) \<Rightarrow>
            (None, fst (push_all (grp_endpoints g)
              (\<lambda>endpoint. yield (g, group_txt g (original_name endpoint))) w))))"

definition groups_all_seq :: "'v groups \<Rightarrow> ('v group, 'w) iter_seq" where
  "groups_all_seq gps yield w =
     (None, fst (push_all [0..<length (gps_all gps)] (\<lambda>i. yield (gps_all gps ! i)) w))"

text \<open>The two loops of \<open>Groups.RRs\<close>: the inner one ranges over the records of a group.\<close>

fun groups_rrs_loop :: "16 word \<Rightarrow> 'v group list \<Rightarrow> ('v group \<times> rr, 'w) iter_seq" where
  "groups_rrs_loop rr_type [] yield w = (None, w)"
| "groups_rrs_loop rr_type (g # gs) yield w =
     (case range_over (group_rrs_seq g rr_type) yield w of
        (None, w, Going) \<Rightarrow> groups_rrs_loop rr_type gs yield w
      | (p, w, _) \<Rightarrow> (p, w))"

definition groups_rrs_seq :: "'v groups \<Rightarrow> 16 word \<Rightarrow> ('v group \<times> rr, 'w) iter_seq" where
  "groups_rrs_seq gps rr_type = groups_rrs_loop rr_type (gps_all gps)"

text \<open>The loops over located endpoints and the addresses of one family.\<close>

fun located_loop ::
  "(addr list endpoint \<Rightarrow> addr list) \<Rightarrow> (addr \<Rightarrow> rr) \<Rightarrow> located \<Rightarrow> (addr list endpoint \<times> rr, 'w) iter_seq" where
  "located_loop addrs to_rr [] yield w = (None, w)"
| "located_loop addrs to_rr (None # le) yield w = (Some NilDereference, w)"
| "located_loop addrs to_rr (Some endpoint # le) yield w =
     (case push_all (addrs endpoint) (\<lambda>addr. yield (endpoint, to_rr addr)) w of
        (w, True) \<Rightarrow> located_loop addrs to_rr le yield w
      | (w, False) \<Rightarrow> (None, w))"

definition located_rrs_seq :: "located \<Rightarrow> 16 word \<Rightarrow> (addr list endpoint \<times> rr, 'w) iter_seq" where
  "located_rrs_seq le rr_type =
     (if rr_type = type_A then located_loop ep_ip4 (A inet_header) le
      else if rr_type = type_AAAA then located_loop ep_ip6 (AAAA inet_header) le
      else empty_rrs_seq)"

text \<open>The rings of a locator; a name without a ring is passed over.\<close>

fun rings_named :: "('b, 'r) locator \<Rightarrow> string list \<Rightarrow> ('r option, 'w) yield \<Rightarrow> 'w \<Rightarrow> 'w" where
  "rings_named l [] yield w = w"
| "rings_named l (name # names) yield w =
     (if ring_named l name \<noteq> None then
        (case yield (ring_named l name) w of
           (w, True) \<Rightarrow> rings_named l names yield w
         | (w, False) \<Rightarrow> w)
      else rings_named l names yield w)"

definition rings_seq :: "('b, 'r) locator \<Rightarrow> string list \<Rightarrow> ('r option, 'w) iter_seq" where
  "rings_seq l groups yield w =
     (None,
      if 0 < length groups then rings_named l groups yield w
      else fst (push_all (loc_all_rings l) yield w))"

text \<open>After a glob that cannot be expanded \<open>zoneFiles\<close> yields the error and ignores the answer.\<close>

fun zone_files_seq :: "'e ingest_env \<Rightarrow> string list \<Rightarrow> (string \<times> 'e option, 'w) iter_seq" where
  "zone_files_seq env [] yield w = (None, w)"
| "zone_files_seq env (glob # globs) yield w =
     (case env_glob env glob of
        Inl err \<Rightarrow> (None, fst (yield ([], Some err) w))
      | Inr matches \<Rightarrow>
          (case push_all (sort_strings matches) (\<lambda>path. yield (path, None)) w of
             (w, True) \<Rightarrow> zone_files_seq env globs yield w
           | (w, False) \<Rightarrow> (None, w)))"

section \<open>Iterators as lists\<close>

text \<open>
  What it means for an iterator to be a list, with the panic \<open>p\<close> at its end: a loop over it runs the
  body on the elements in their order, is left as soon as the body says so, and is never overrun.
\<close>

definition pushes ::
  "('a, 's \<times> loop_status) iter_seq \<Rightarrow> 'a list \<Rightarrow> panic option \<Rightarrow> bool" where
  "pushes iter xs p \<longleftrightarrow>
     (\<forall>body s. range_over iter body s =
        (case push_all xs body s of
           (s, True) \<Rightarrow> (p, s, Going)
         | (s, False) \<Rightarrow> (None, s, Left)))"

lemma pushesD:
  "pushes iter xs p \<Longrightarrow> range_over iter body s =
     (case push_all xs body s of (s, True) \<Rightarrow> (p, s, Going) | (s, False) \<Rightarrow> (None, s, Left))"
  by (simp add: pushes_def)

lemma range_over_state: "pushes iter xs p \<Longrightarrow> fst (snd (range_over iter body s)) = fst (push_all xs body s)"
  by (simp add: pushes_def split: prod.split bool.split)

lemma push_all_map: "push_all (map f xs) yield w = push_all xs (\<lambda>x. yield (f x)) w"
  by (induction xs arbitrary: w) (auto split: prod.split bool.split)

lemma push_all_append:
  "push_all (xs @ ys) yield w =
     (case push_all xs yield w of (w, True) \<Rightarrow> push_all ys yield w | (w, False) \<Rightarrow> (w, False))"
  by (induction xs arbitrary: w) (auto split: prod.split bool.split)

lemma push_all_loop:
  "push_all xs (loop_yield body) (s, Going) =
     (case push_all xs body s of (s, go) \<Rightarrow> ((s, if go then Going else Left), go))"
  by (induction xs arbitrary: s) (auto simp: loop_yield_def split: prod.split bool.split)

lemma push_all_nth:
  "push_all [0..<length xs] (\<lambda>i. yield (xs ! i)) w = push_all xs yield w"
  using push_all_map [of "(!) xs" "[0..<length xs]" yield w] by (simp add: map_nth)

lemma push_all_fold: "push_all xs (\<lambda>x s. (f s x, True)) s = (foldl f s xs, True)"
  by (induction xs arbitrary: s) simp_all

text \<open>An iterator that is a composition of \<open>push_all\<close> loops for any consumer is a list.\<close>

lemma pushesI:
  assumes "\<And>yield w. iter yield w =
    (case push_all xs yield w of (w, True) \<Rightarrow> (p, w) | (w, False) \<Rightarrow> (None, w))"
  shows "pushes iter xs p"
  by (simp add: pushes_def range_over_def assms push_all_loop split: prod.split bool.split)

lemma slices_values_pushes: "pushes (slices_values xs) xs None"
  by (rule pushesI) (simp add: slices_values_def split: prod.split bool.split)

lemma empty_rrs_pushes: "pushes empty_rrs_seq [] None"
  by (rule pushesI) (simp add: empty_rrs_seq_def)

lemma group_endpoints_pushes: "pushes (group_endpoints_seq g) (group_endpoints g) None"
  by (rule pushesI) (simp add: group_endpoints_seq_def push_all_nth split: prod.split bool.split)

lemma groups_all_pushes: "pushes (groups_all_seq gps) (groups_all gps) None"
  by (rule pushesI) (simp add: groups_all_seq_def push_all_nth split: prod.split bool.split)

lemma group_rrs_pushes: "pushes (group_rrs_seq g rr_type) (group_rrs g rr_type) None"
  using empty_rrs_pushes
  by (cases "rr_type = type_TXT")
    (auto simp: group_rrs_seq_def group_rrs_def empty_rrs_def push_all_append push_all_map
      intro!: pushesI split: prod.split bool.split)

lemma groups_rrs_loop_push:
  "groups_rrs_loop rr_type gs yield w =
     (None, fst (push_all (concat (map (\<lambda>g. group_rrs g rr_type) gs)) yield w))"
  by (induction gs arbitrary: w)
    (auto simp: pushesD [OF group_rrs_pushes] push_all_append split: prod.split bool.split)

lemma groups_rrs_pushes: "pushes (groups_rrs_seq gps rr_type) (groups_rrs gps rr_type) None"
  by (rule pushesI)
    (simp add: groups_rrs_seq_def groups_rrs_def groups_rrs_loop_push split: prod.split bool.split)

lemma rings_named_push:
  "rings_named l names yield w =
     fst (push_all (filter (\<lambda>ring. ring \<noteq> None) (map (ring_named l) names)) yield w)"
  by (induction names arbitrary: w) (auto split: prod.split bool.split)

lemma rings_pushes: "pushes (rings_seq l groups) (rings l groups) None"
  by (rule pushesI) (simp add: rings_seq_def rings_def rings_named_push split: prod.split bool.split)

lemma zone_files_push:
  "zone_files_seq env globs yield w = (None, fst (push_all (zone_files env globs) yield w))"
  by (induction env globs yield w rule: zone_files_seq.induct)
    (auto simp: push_all_append push_all_map split: sum.split prod.split bool.split)

lemma zone_files_pushes: "pushes (zone_files_seq env globs) (zone_files env globs) None"
  by (rule pushesI) (simp add: zone_files_push split: prod.split bool.split)

text \<open>Up to the first nil endpoint, where the loop panics.\<close>

definition located_pairs :: "(addr list endpoint \<Rightarrow> rr list) \<Rightarrow> located \<Rightarrow> (addr list endpoint \<times> rr) list" where
  "located_pairs f le = concat (map (\<lambda>e. map (Pair (the e)) (f (the e))) (takeWhile (\<lambda>e. e \<noteq> None) le))"

definition nil_panic :: "located \<Rightarrow> panic option" where
  "nil_panic le = (if None \<in> set le then Some NilDereference else None)"

lemma located_seq_pairs:
  "located_seq f le = (case nil_panic le of Some p \<Rightarrow> Inl p | None \<Rightarrow> Inr (located_pairs f le))"
  by (induction f le rule: located_seq.induct) (auto simp: nil_panic_def located_pairs_def split: if_splits)

lemma located_loop_push:
  "located_loop addrs to_rr le yield w =
     (case push_all (located_pairs (\<lambda>e. map to_rr (addrs e)) le) yield w of
        (w, True) \<Rightarrow> (nil_panic le, w)
      | (w, False) \<Rightarrow> (None, w))"
  by (induction addrs to_rr le yield w rule: located_loop.induct)
    (auto simp: located_pairs_def nil_panic_def push_all_append push_all_map comp_def
      split: prod.split bool.split)

definition address_records :: "16 word \<Rightarrow> addr list endpoint \<Rightarrow> rr list" where
  "address_records rr_type e =
     (if rr_type = type_A then map (A inet_header) (ep_ip4 e)
      else if rr_type = type_AAAA then map (AAAA inet_header) (ep_ip6 e) else [])"

lemma address_records_family [simp]:
  "address_records type_A = (\<lambda>e. map (A inet_header) (ep_ip4 e))"
  "address_records type_AAAA = (\<lambda>e. map (AAAA inet_header) (ep_ip6 e))"
  by (simp_all add: address_records_def fun_eq_iff)

lemma located_rrs_pushes:
  "pushes (located_rrs_seq le rr_type) (located_pairs (address_records rr_type) le)
     (if rr_type = type_A \<or> rr_type = type_AAAA then nil_panic le else None)"
proof -
  have none: "located_pairs (address_records rr_type) le = []" if "rr_type \<noteq> type_A" "rr_type \<noteq> type_AAAA"
    using that by (simp add: located_pairs_def address_records_def)
  have loop: "pushes (located_loop addrs to_rr le) (located_pairs (\<lambda>e. map to_rr (addrs e)) le) (nil_panic le)"
    for addrs to_rr
    by (rule pushesI) (rule located_loop_push)
  show ?thesis
    using loop [of ep_ip4 "A inet_header"] loop [of ep_ip6 "AAAA inet_header"] empty_rrs_pushes none
    by (auto simp: located_rrs_seq_def)
qed

lemma located_rrs_list:
  "located_rrs le rr_type =
    (case (if rr_type = type_A \<or> rr_type = type_AAAA then nil_panic le else None) of
       Some p \<Rightarrow> Inl p
     | None \<Rightarrow> Inr (located_pairs (address_records rr_type) le))"
proof -
  have "located_pairs (address_records rr_type) le = []" if "rr_type \<noteq> type_A" "rr_type \<noteq> type_AAAA"
    using that by (simp add: located_pairs_def address_records_def)
  then show ?thesis by (cases "nil_panic le") (auto simp: located_rrs_def located_seq_pairs empty_rrs_def)
qed

section \<open>The loops over them\<close>

definition find_string_loop ::
  "('b, 'q, 'r) medley \<Rightarrow> ('b, 'r) locator \<Rightarrow> string \<Rightarrow> string list \<Rightarrow> located" where
  "find_string_loop md l object groups =
     fst (snd (range_over (rings_seq l groups)
       (\<lambda>ring results. (results @ [md_nearest_string md ring object], True)) []))"

definition find_bytes_loop ::
  "('b, 'q, 'r) medley \<Rightarrow> ('b, 'r) locator \<Rightarrow> string \<Rightarrow> string list \<Rightarrow> located" where
  "find_bytes_loop md l object groups =
     fst (snd (range_over (rings_seq l groups)
       (\<lambda>ring results. (results @ [md_nearest md ring object], True)) []))"

text \<open>The loop of both handlers: every record gets the header and is appended to the answer.\<close>

definition answer_loop ::
  "header \<Rightarrow> ('e \<times> rr, rr list \<times> loop_status) iter_seq \<Rightarrow> rr list \<Rightarrow> panic option \<times> rr list" where
  "answer_loop header rrs answer =
     (case range_over rrs (\<lambda>(_, rr) answer. (answer @ [set_rr_header header rr], True)) answer of
        (p, answer, _) \<Rightarrow> (p, answer))"

text \<open>The loop of \<open>Locator.Update\<close>.\<close>

definition build_rings_loop ::
  "('b, 'q, 'r) medley \<Rightarrow> 'b \<Rightarrow> addr list groups \<Rightarrow> (string \<times> 'r option) list \<times> 'r option list" where
  "build_rings_loop md b gps =
     fst (snd (range_over (groups_all_seq gps)
       (\<lambda>grp (rings_by_name, rings).
          (let ring = build_ring md b grp
           in ((AList.update (group_name grp) ring rings_by_name, rings @ [ring]), True)))
       ([], [])))"

text \<open>
  The loop of \<open>Ingest\<close> over the files. Its state is the number of files so far, the checksum, the
  collector and \<open>event.Err\<close>; the three ways to leave it are those of the source.
\<close>

definition ingest_loop_body ::
  "growth \<Rightarrow> 'x ingest_env \<Rightarrow> 'l file_ingester
    \<Rightarrow> (string \<times> 'x option, nat \<times> digest \<times> rr_collector \<times> 'x ingest_error option) yield" where
  "ingest_loop_body g env fi = (\<lambda>(path, err) (file_count, checksummer, rrc, event_err).
     (case err of
        Some err \<Rightarrow> ((file_count, checksummer, rrc, Some (GlobError err)), False)
      | None \<Rightarrow>
          (case env_ctx_err env file_count of
             Some err \<Rightarrow> ((file_count, checksummer, rrc, Some (ContextError err)), False)
           | None \<Rightarrow>
               (case ingest_file g env fi checksummer rrc path of
                  (checksummer, rrc, Some err) \<Rightarrow> ((Suc file_count, checksummer, rrc, Some err), False)
                | (checksummer, rrc, None) \<Rightarrow> ((Suc file_count, checksummer, rrc, None), True)))))"

definition ingest_loop ::
  "growth \<Rightarrow> 'x ingest_env \<Rightarrow> 'l file_ingester \<Rightarrow> digest \<times> rr_collector \<times> 'x ingest_error option" where
  "ingest_loop g env fi =
     (case range_over (zone_files_seq env (fi_globs fi)) (ingest_loop_body g env fi)
        (0, adler_new, new_rr_collector (fi_domain fi), None) of
        (_, (_, result), _) \<Rightarrow> result)"

lemma range_over_fold:
  "pushes iter xs p \<Longrightarrow> range_over iter (\<lambda>x s. (f s x, True)) s = (p, foldl f s xs, Going)"
  by (simp add: pushesD push_all_fold)

lemma find_loops: "find_string_loop md l object groups = find_string md l object groups"
  "find_bytes_loop md l object groups = find_bytes md l object groups"
  using range_over_fold [OF rings_pushes [of l groups], where f = "\<lambda>results ring. results @ [md_nearest_string md ring object]"]
    range_over_fold [OF rings_pushes [of l groups], where f = "\<lambda>results ring. results @ [md_nearest md ring object]"]
  by (simp_all add: find_string_loop_def find_bytes_loop_def find_string_def find_bytes_def)

lemma answer_loop_pushes:
  assumes "pushes rrs xs p"
  shows "answer_loop h rrs answer = (p, answer @ fill_headers h xs)"
proof -
  have fold: "foldl (\<lambda>ans (_, rr). ans @ [set_rr_header h rr]) answer xs = answer @ fill_headers h xs"
    by (induction xs arbitrary: answer) (auto simp: fill_headers_def)
  have body: "(\<lambda>(_, rr) ans. (ans @ [set_rr_header h rr], True)) =
      (\<lambda>x ans. ((\<lambda>ans (_, rr). ans @ [set_rr_header h rr]) ans x, True))"
    by auto
  show ?thesis unfolding answer_loop_def body range_over_fold [OF assms] fold by simp
qed

lemma build_rings_loop: "build_rings_loop md b gps = build_rings md b (groups_all gps)"
proof -
  have "(\<lambda>grp (by_name, rs). (let ring = build_ring md b grp
        in ((AList.update (group_name grp) ring by_name, rs @ [ring]), True))) =
      (\<lambda>grp s. ((\<lambda>(by_name, rs) grp. (let ring = build_ring md b grp
        in (AList.update (grp_name grp) ring by_name, rs @ [ring]))) s grp, True))"
    by (auto simp: Let_def group_name_def)
  then show ?thesis
    unfolding build_rings_loop_def build_rings_def by (simp only: range_over_fold [OF groups_all_pushes] fst_conv snd_conv)
qed

lemma ingest_paths_push:
  "snd (fst (push_all paths (ingest_loop_body g env fi) (n, checksummer, rrc, None))) =
     ingest_paths g env fi n checksummer rrc paths"
  by (induction g env fi n checksummer rrc paths rule: ingest_paths.induct)
    (auto simp: ingest_loop_body_def split: prod.split option.split)

lemma ingest_loop_read: "ingest_loop g env fi = ingest_read g env fi"
proof -
  have "ingest_loop g env fi = snd (fst (push_all (zone_files env (fi_globs fi)) (ingest_loop_body g env fi)
      (0, adler_new, new_rr_collector (fi_domain fi), None)))"
    unfolding ingest_loop_def pushesD [OF zone_files_pushes] by (auto split: prod.split bool.split)
  then show ?thesis by (simp add: ingest_paths_push ingest_read_def)
qed

section \<open>Properties\<close>

lemma values_all_pushes: "pushes (values_all_seq h vs) (values_all h vs) None"
  unfolding values_all_seq_def values_all_def by (rule slices_values_pushes)

lemma group_services_pushes: "pushes (group_services_seq g) (grp_services g) None"
  unfolding group_services_seq_def by (rule slices_values_pushes)

text \<open>
  Property C21: the iterators keep Go's protocol. Each of them, pushing into the \<open>yield\<close> of a loop,
  runs the body on exactly the elements of its list and in their order, stops at once when the loop
  is left, and never calls \<open>yield\<close> again after that; only the records of located endpoints can end
  in a panic, at the first nil endpoint.
\<close>

theorem iterators_push_lists:
  "pushes (values_all_seq h vs) (values_all h vs) None \<and>
   pushes (group_services_seq g) (grp_services g) None \<and>
   pushes (group_endpoints_seq g) (group_endpoints g) None \<and>
   pushes (group_rrs_seq g rr_type) (group_rrs g rr_type) None \<and>
   pushes (groups_all_seq gps) (groups_all gps) None \<and>
   pushes (groups_rrs_seq gps rr_type) (groups_rrs gps rr_type) None \<and>
   pushes (rings_seq l names) (rings l names) None \<and>
   pushes (zone_files_seq env globs) (zone_files env globs) None \<and>
   pushes (located_rrs_seq le rr_type) (located_pairs (address_records rr_type) le)
     (if rr_type = type_A \<or> rr_type = type_AAAA then nil_panic le else None)"
  by (intro conjI values_all_pushes group_services_pushes group_endpoints_pushes group_rrs_pushes
      groups_all_pushes groups_rrs_pushes rings_pushes zone_files_pushes located_rrs_pushes)

text \<open>
  Property C22: the loops compute what the rest of the development says. Ranging over the pushed
  elements, with the early exits of the source, the lookups of the locator, its building of rings,
  the answers of the group handler and the reading of the zone files are the list functions.
\<close>

theorem loops_over_iterators:
  "find_string_loop md l object names = find_string md l object names \<and>
   find_bytes_loop md l object names = find_bytes md l object names \<and>
   build_rings_loop md b gps = build_rings md b (groups_all gps) \<and>
   answer_loop header (group_rrs_seq g rr_type) answer =
     (None, answer @ fill_headers header (group_rrs g rr_type)) \<and>
   answer_loop header (groups_rrs_seq gps rr_type) answer =
     (None, answer @ fill_headers header (groups_rrs gps rr_type)) \<and>
   ingest_loop g' env fi = ingest_read g' env fi"
  by (intro conjI find_loops build_rings_loop ingest_loop_read
      answer_loop_pushes [OF group_rrs_pushes] answer_loop_pushes [OF groups_rrs_pushes])

text \<open>The protocol is a condition: an iterator that ignores the answer of \<open>yield\<close> is no list.\<close>

lemma careless_iterator:
  fixes x y :: 'a
  shows "\<not> pushes (\<lambda>yield w :: nat \<times> loop_status. (None, fst (yield y (fst (yield x w))))) [x, y] None"
    (is "\<not> pushes ?iter _ _")
proof
  assume "pushes ?iter [x, y] None"
  from pushesD [OF this, of "\<lambda>_ s. (s, False)" 0] show False
    by (simp add: range_over_def loop_yield_def)
qed

end
