(* ===== verification/Locator_Log.thy ===== *)
theory Locator_Log
  imports Iterators Log_Fields
begin

text \<open>
  The locator's side of an event with its log (\<open>OnIngest\<close> and \<open>Update\<close> in \<open>service/locator.go\<close>):
  nested loops over the pushing iterators of the groups and their endpoints, run only when the
  logger writes debug entries. \<open>enabled\<close> says whether it does.
\<close>

record ('f, 'l, 'x) locator_log_api = "('f, 'l) zap_api" +
  zap_any :: "string \<Rightarrow> 'x ingest_event \<Rightarrow> 'f"
  zap_strings :: "string \<Rightarrow> string list \<Rightarrow> 'f"

section \<open>Updating\<close>

definition endpoint_entry ::
  "('f, 'l, 'x) locator_log_api \<Rightarrow> 'l \<Rightarrow> 'v group \<Rightarrow> 'v endpoint \<Rightarrow> ('f, 'l) log_entry" where
  "endpoint_entry zap logger g e =
     log_at DebugLevel logger ''endpoint''
       [zap_string zap ''group'' (group_name g), zap_string zap ''originalName'' (original_name e)]"

definition group_entry :: "('f, 'l, 'x) locator_log_api \<Rightarrow> 'l \<Rightarrow> 'v group \<Rightarrow> ('f, 'l) log_entry" where
  "group_entry zap logger g =
     log_at DebugLevel logger ''group''
       [zap_string zap ''name'' (group_name g), zap_strings zap ''services'' (grp_services g)]"

text \<open>The body of the outer loop.\<close>

definition log_group ::
  "('f, 'l, 'x) locator_log_api \<Rightarrow> 'l \<Rightarrow> ('v group, ('f, 'l) log_entry list) yield" where
  "log_group zap logger g written =
     (case range_over (group_endpoints_seq g) (\<lambda>e written. (written @ [endpoint_entry zap logger g e], True))
         (written @ [group_entry zap logger g]) of
        (_, written, _) \<Rightarrow> (written, True))"

definition update_logged ::
  "('b, 'q, 'r) medley \<Rightarrow> ('f, 'l, 'x) locator_log_api \<Rightarrow> 'l \<Rightarrow> bool \<Rightarrow> ('f, 'l) log_entry list
    \<Rightarrow> ('b, 'r) locator \<Rightarrow> addr list groups option
    \<Rightarrow> ('f, 'l) log_entry list \<times> (panic + ('b, 'r) locator)" where
  "update_logged md zap logger enabled written l gps_ptr =
     (case gps_ptr of
        None \<Rightarrow> (written, Inl NilDereference)
      | Some gps \<Rightarrow>
          (let written =
                 (if enabled then fst (snd (range_over (groups_all_seq gps) (log_group zap logger) written))
                  else written);
               (rings_by_name, rings) = build_rings_loop md (loc_builder l) gps;
               l = l\<lparr>loc_groups := Some gps\<rparr>;
               l = l\<lparr>loc_rings_by_name := Some rings_by_name\<rparr>
           in (written, Inr (l\<lparr>loc_all_rings := rings\<rparr>))))"

definition on_ingest_logged ::
  "('b, 'q, 'r) medley \<Rightarrow> ('f, 'l, 'x) locator_log_api \<Rightarrow> 'l \<Rightarrow> bool \<Rightarrow> ('b, 'r) locator \<Rightarrow> 'x ingest_event
    \<Rightarrow> ('f, 'l) log_entry list \<times> (panic + ('b, 'r) locator)" where
  "on_ingest_logged md zap logger enabled l event =
     (let written = [log_at DebugLevel logger ''received ingest event'' [zap_any zap ''event'' event]]
      in if ev_err event \<noteq> None then (written, Inr l)
         else update_logged md zap logger enabled written l (ev_groups event))"

section \<open>What is logged\<close>

lemma foldl_append_map: "foldl (\<lambda>written e. written @ [f e]) written xs = written @ map f xs"
  by (induction xs arbitrary: written) simp_all

lemma foldl_append_concat: "foldl (\<lambda>written g. written @ f g) written gs = written @ concat (map f gs)"
  by (induction gs arbitrary: written) simp_all

lemma log_group_entries:
  "log_group zap logger g written =
     (written @ group_entry zap logger g # map (endpoint_entry zap logger g) (group_endpoints g), True)"
  by (simp add: log_group_def range_over_fold [OF group_endpoints_pushes] foldl_append_map)

lemma log_groups_entries:
  fixes gps :: "'v groups"
  shows "fst (snd (range_over (groups_all_seq gps) (log_group zap logger) written)) =
     written @ concat (map (\<lambda>g. group_entry zap logger g # map (endpoint_entry zap logger g) (group_endpoints g))
       (groups_all gps))"
proof -
  let ?f = "\<lambda>g :: 'v group. group_entry zap logger g # map (endpoint_entry zap logger g) (group_endpoints g)"
  have "log_group zap logger = (\<lambda>g written. (written @ ?f g, True))"
    by (intro ext) (rule log_group_entries)
  moreover have "range_over (groups_all_seq gps) (\<lambda>g written. (written @ ?f g, True)) written =
      (None, foldl (\<lambda>written g. written @ ?f g) written (groups_all gps), Going)"
    by (rule range_over_fold [OF groups_all_pushes])
  ultimately show ?thesis by (simp only: foldl_append_concat fst_conv snd_conv)
qed

text \<open>
  The event is handled as \<open>on_ingest\<close> says, whatever is logged. The log has the event and, for new
  groups and a logger that writes debug entries, every group followed by its endpoints.
\<close>

lemma on_ingest_logged_spec:
  "on_ingest_logged md zap logger enabled l event =
     (log_at DebugLevel logger ''received ingest event'' [zap_any zap ''event'' event] #
        (case ev_groups event of
           Some gps \<Rightarrow>
             if enabled \<and> ev_err event = None
             then concat (map (\<lambda>g. group_entry zap logger g # map (endpoint_entry zap logger g) (group_endpoints g))
               (groups_all gps))
             else []
         | None \<Rightarrow> []),
      on_ingest md l event)"
  by (simp add: on_ingest_logged_def update_logged_def on_ingest_def update_locator_def log_groups_entries
      build_rings_loop split: option.split prod.split)

end
