(* ===== verification/Ingest_Log.thy ===== *)
theory Ingest_Log
  imports Iterators Log_Fields
begin

text \<open>
  Ingesting with its log (\<open>service/fileIngester.go\<close>): the loop of \<open>Ingest\<close> over the iterator of the
  zone files, as the code has it, and what it writes to the log. \<open>logger\<close> is the one that
  \<open>WithIngestLogger\<close> stored.
\<close>

section \<open>Ingesting\<close>

type_synonym ('f, 'l) log = "('f, 'l) log_entry list"

text \<open>The loop of \<open>ingestFile\<close>, with a debug entry for every record before it is collected.\<close>

fun ingest_items_logged ::
  "growth \<Rightarrow> ('f, 'l, 'e, 't) log_api \<Rightarrow> 'l \<Rightarrow> ('f, 'l) log \<Rightarrow> rr_collector \<Rightarrow> nat
    \<Rightarrow> (rr option \<times> 'x option) list \<Rightarrow> ('f, 'l) log \<times> rr_collector \<times> nat \<times> 'x ingest_error option" where
  "ingest_items_logged g zap l written rrc n [] = (written, rrc, n, None)"
| "ingest_items_logged g zap l written rrc n ((None, err) # items) =
     (written, rrc, Suc n, map_option ParseError err)"
| "ingest_items_logged g zap l written rrc n ((Some rr, err) # items) =
     (let written = written @ [log_at DebugLevel l ''resource record'' [zap_stringer zap ''rr'' rr]]
      in case add_rr g rrc rr of
           (rrc, Some e) \<Rightarrow> (written, rrc, Suc n, Some (BadDefinition e))
         | (rrc, None) \<Rightarrow> ingest_items_logged g zap l written rrc (Suc n) items)"

definition ingest_file_logged ::
  "growth \<Rightarrow> ('f, 'l, 'e, 't) log_api \<Rightarrow> 'x ingest_env \<Rightarrow> 'k file_ingester \<Rightarrow> 'l \<Rightarrow> ('f, 'l) log
    \<Rightarrow> digest \<Rightarrow> rr_collector \<Rightarrow> string \<Rightarrow> ('f, 'l) log \<times> digest \<times> rr_collector \<times> 'x ingest_error option" where
  "ingest_file_logged g zap env fi l written checksummer rrc path =
     (case env_open env path of
        Inl err \<Rightarrow> (written, checksummer, rrc, Some (OpenError err))
      | Inr content \<Rightarrow>
          (let zone = env_parse env content (fi_origin fi) path (fi_ttl fi);
               (written, rrc, n, err) = ingest_items_logged g zap l written rrc 0 (pz_items zone)
           in (written, adler_write checksummer (pz_read zone n), rrc, err)))"

text \<open>
  The body of the loop over the files. The entry for a file that fails is written with the loop's
  own \<open>err\<close>, which is nil there, and not with \<open>event.Err\<close>.
\<close>

definition ingest_logged_body ::
  "growth \<Rightarrow> ('f, 'l, 'x ingest_error, 't) log_api \<Rightarrow> 'x ingest_env \<Rightarrow> 'k file_ingester \<Rightarrow> 'l
    \<Rightarrow> (string \<times> 'x option,
        ('f, 'l) log \<times> nat \<times> digest \<times> rr_collector \<times> 'x ingest_error option) yield" where
  "ingest_logged_body g zap env fi logger = (\<lambda>(path, err) (written, file_count, checksummer, rrc, event_err).
     (case err of
        Some err \<Rightarrow>
          (let event_err = Some (GlobError err)
           in ((written @ [log_at ErrorLevel logger ''failed to expand file globs'' [error_field zap event_err]],
                file_count, checksummer, rrc, event_err), False))
      | None \<Rightarrow>
          (let event_err = map_option ContextError (env_ctx_err env file_count)
           in if event_err \<noteq> None then ((written, file_count, checksummer, rrc, event_err), False)
           else
             (let file_count = Suc file_count;
                  file_logger = zap_with zap logger [zap_string zap ''path'' path];
                  written = written @ [log_at DebugLevel file_logger ''parsing zone file'' []];
                  (written, checksummer, rrc, event_err) =
                    ingest_file_logged g zap env fi file_logger written checksummer rrc path
              in if event_err \<noteq> None then
                ((written @ [log_at ErrorLevel logger ''error parsing file''
                    [zap_string zap ''path'' path, error_field zap (map_option GlobError err)]],
                  file_count, checksummer, rrc, event_err), False)
              else ((written, file_count, checksummer, rrc, event_err), True)))))"

definition ingest_finish_logged ::
  "growth \<Rightarrow> map_orders \<Rightarrow> ('f, 'l, 'e, 't) log_api \<Rightarrow> ('k, 'x ingest_error) listener_method
    \<Rightarrow> 'l \<Rightarrow> ('f, 'l) log \<Rightarrow> nat \<Rightarrow> 32 word \<Rightarrow> digest \<times> rr_collector \<times> 'x ingest_error option
    \<Rightarrow> 'k file_ingester \<Rightarrow> ('f, 'l) log \<times> (panic + 'k file_ingester)" where
  "ingest_finish_logged g ords zap on_event logger written file_count old result fi =
     (let (checksummer, rrc, err) = result;
          written = written @ [log_at InfoLevel logger ''parsing complete''
            [zap_int zap ''fileCount'' (int file_count)]] in
      if err = None then
        (let new = adler_value checksummer;
             (rrc', gps) = rrc_build g ords rrc;
             event = \<lparr>ev_err = None, ev_groups = Some (freeze_groups (col_heap rrc') gps)\<rparr>
         in if \<not> fi_first fi then
              (written @ [log_at InfoLevel logger ''initial ingest'' []],
               dispatch_to on_event event (fi\<lparr>fi_first := True, fi_checksum := new\<rparr>))
            else if fi_checksum fi \<noteq> new \<and> fi_checksum fi = old then
              (written @ [log_at InfoLevel logger ''changes detected'' []],
               dispatch_to on_event event (fi\<lparr>fi_checksum := new\<rparr>))
            else (written @ [log_at InfoLevel logger ''no changes since last ingest'' []], Inr fi))
      else (written, dispatch_to on_event \<lparr>ev_err = err, ev_groups = None\<rparr> fi))"

definition ingest_logged ::
  "growth \<Rightarrow> map_orders \<Rightarrow> ('f, 'l, 'x ingest_error, 't) log_api \<Rightarrow> 'x ingest_env
    \<Rightarrow> ('k, 'x ingest_error) listener_method \<Rightarrow> 'l \<Rightarrow> 'k file_ingester
    \<Rightarrow> ('f, 'l) log \<times> (panic + 'k file_ingester)" where
  "ingest_logged g ords zap env on_event logger fi =
     (let old = fi_checksum fi;
          (_, (written, file_count, result), _) =
            range_over (zone_files_seq env (fi_globs fi)) (ingest_logged_body g zap env fi logger)
              ([], 0, adler_new, new_rr_collector (fi_domain fi), None)
      in ingest_finish_logged g ords zap on_event logger written file_count old result fi)"

section \<open>What is logged\<close>

definition begun :: "('f, 'l) log \<Rightarrow> 'l list" where
  "begun written = map le_logger (filter (\<lambda>e. le_message e = ''parsing zone file'') written)"

definition reported :: "('f, 'l) log \<Rightarrow> ('f, 'l) log" where
  "reported = filter (\<lambda>e. le_level e \<noteq> DebugLevel)"

definition file_logger :: "('f, 'l, 'e, 't) log_api \<Rightarrow> 'l \<Rightarrow> string \<Rightarrow> 'l" where
  "file_logger zap logger path = zap_with zap logger [zap_string zap ''path'' path]"

text \<open>The error entry of a scan whose last file was \<open>path\<close>.\<close>

fun scan_failure ::
  "('f, 'l, 'x ingest_error, 't) log_api \<Rightarrow> 'l \<Rightarrow> string \<Rightarrow> 'x ingest_error option \<Rightarrow> ('f, 'l) log" where
  "scan_failure zap logger path None = []"
| "scan_failure zap logger path (Some (GlobError err)) =
     [log_at ErrorLevel logger ''failed to expand file globs'' [zap_error zap (GlobError err)]]"
| "scan_failure zap logger path (Some (ContextError err)) = []"
| "scan_failure zap logger path (Some _) =
     [log_at ErrorLevel logger ''error parsing file'' [zap_string zap ''path'' path, zap_skip zap]]"

lemma begun_simps [simp]:
  "begun [] = []"
  "begun (xs @ ys) = begun xs @ begun ys"
  "begun (log_at lv l m fs # es) = (if m = ''parsing zone file'' then l # begun es else begun es)"
  by (simp_all add: begun_def)

lemma reported_simps [simp]:
  "reported [] = []"
  "reported (xs @ ys) = reported xs @ reported ys"
  "reported (log_at lv l m fs # es) =
     (if lv = DebugLevel then reported es else log_at lv l m fs # reported es)"
  by (simp_all add: reported_def)

lemma ingest_items_logged_erase:
  "snd (ingest_items_logged g zap l written rrc n items) = ingest_items g rrc n items"
  by (induction g rrc n items arbitrary: written rule: ingest_items.induct)
    (auto simp: Let_def split: prod.split option.split)

text \<open>A file adds debug entries only.\<close>

lemma ingest_items_logged_quiet:
  "\<exists>more. fst (ingest_items_logged g zap l written rrc n items) = written @ more \<and>
     begun more = [] \<and> reported more = []"
proof (induction g zap l written rrc n items rule: ingest_items_logged.induct)
  case (3 g zap l written rrc n rr err items)
  let ?entry = "log_at DebugLevel l ''resource record'' [zap_stringer zap ''rr'' rr]"
  show ?case
  proof (cases "add_rr g rrc rr")
    case (Pair rrc' e)
    show ?thesis
    proof (cases e)
      case None
      with 3 [OF refl Pair [symmetric]] Pair obtain more
        where "fst (ingest_items_logged g zap l (written @ [?entry]) rrc' (Suc n) items) =
            (written @ [?entry]) @ more" "begun more = []" "reported more = []"
        by blast
      then show ?thesis using Pair None by (intro exI [of _ "?entry # more"]) simp
    next
      case (Some err')
      then show ?thesis using Pair by (auto intro!: exI [of _ "[?entry]"])
    qed
  qed
qed auto

lemma ingest_file_logged_erase:
  "snd (ingest_file_logged g zap env fi l written d rrc path) = ingest_file g env fi d rrc path"
  by (auto simp: ingest_file_logged_def ingest_file_def Let_def split_beta
      ingest_items_logged_erase [of g zap l written, symmetric] split: sum.split)

lemma ingest_file_logged_quiet:
  "\<exists>more. fst (ingest_file_logged g zap env fi l written d rrc path) = written @ more \<and>
     begun more = [] \<and> reported more = []"
  using ingest_items_logged_quiet [of g zap l written rrc 0]
  by (auto simp: ingest_file_logged_def Let_def split_beta split: sum.split)

lemma ingest_items_failure:
  "snd (snd (ingest_items g rrc n items)) \<noteq> Some (GlobError e)"
  "snd (snd (ingest_items g rrc n items)) \<noteq> Some (ContextError e)"
  by (induction g rrc n items rule: ingest_items.induct) (auto split: prod.split option.split)

lemma ingest_file_failure:
  "snd (snd (ingest_file g env fi d rrc path)) \<noteq> Some (GlobError e)"
  "snd (snd (ingest_file g env fi d rrc path)) \<noteq> Some (ContextError e)"
  by (auto simp: ingest_file_def Let_def split_beta ingest_items_failure split: sum.split)

text \<open>The loop from any point on: \<open>m\<close> files are begun, the last of them or \<open>prev\<close> is the last one.\<close>

lemma ingest_logged_push:
  "\<exists>m \<le> length paths. \<exists>more.
     fst (push_all paths (ingest_logged_body g zap env fi logger) (written, n, d, rrc, None)) =
       (written @ more, n + m, ingest_paths g env fi n d rrc paths) \<and>
     begun more = map (file_logger zap logger \<circ> fst) (take m paths) \<and>
     reported more = scan_failure zap logger (last (prev # map fst (take m paths)))
       (snd (snd (ingest_paths g env fi n d rrc paths)))"
proof (induction paths arbitrary: written n d rrc prev)
  case Nil
  then show ?case by simp
next
  case (Cons x paths)
  obtain path err where x: "x = (path, err)" by fastforce
  show ?case
  proof (cases "err = None \<and> env_ctx_err env n = None")
    case False
    then show ?thesis
      by (cases err) (auto simp: x ingest_logged_body_def Let_def intro!: exI [of _ 0])
  next
    case True
    let ?l = "file_logger zap logger path"
    let ?opened = "written @ [log_at DebugLevel ?l ''parsing zone file'' []]"
    obtain more d' rrc' e where
      step: "ingest_file_logged g zap env fi ?l ?opened d rrc path = (?opened @ more, d', rrc', e)"
      and quiet: "begun more = []" "reported more = []"
      using ingest_file_logged_quiet [of g zap env fi ?l ?opened d rrc path]
      by (metis prod.collapse)
    have result: "ingest_file g env fi d rrc path = (d', rrc', e)"
      using ingest_file_logged_erase [of g zap env fi ?l ?opened d rrc path] by (simp add: step)
    show ?thesis
    proof (cases e)
      case (Some err')
      then show ?thesis using True quiet ingest_file_failure [of g env fi d rrc path]
        by (cases err') (auto simp: x ingest_logged_body_def Let_def step result file_logger_def [symmetric]
            intro!: exI [of _ "Suc 0"])
    next
      case None
      then show ?thesis using True quiet Cons.IH [of "?opened @ more" "Suc n" d' rrc' path]
        by (auto simp: x ingest_logged_body_def Let_def step result file_logger_def [symmetric])
    qed
  qed
qed

lemma ingest_finish_logged_erase:
  "snd (ingest_finish_logged g ords zap on_event logger written n old result fi) =
     ingest_finish g ords on_event old result fi"
  by (simp add: ingest_finish_logged_def ingest_finish_def Let_def split_beta)

text \<open>Whether a scan without an error has something to announce.\<close>

definition scan_news :: "'k file_ingester \<Rightarrow> digest \<Rightarrow> string" where
  "scan_news fi checksummer =
     (if \<not> fi_first fi then ''initial ingest''
      else if fi_checksum fi \<noteq> adler_value checksummer then ''changes detected''
      else ''no changes since last ingest'')"

lemma ingest_finish_logged_entries:
  "fst (ingest_finish_logged g ords zap on_event logger written n (fi_checksum fi) (d, rrc, err) fi) =
     written @ [log_at InfoLevel logger ''parsing complete'' [zap_int zap ''fileCount'' (int n)]] @
     (if err = None then [log_at InfoLevel logger (scan_news fi d) []] else [])"
  by (simp add: ingest_finish_logged_def Let_def split_beta scan_news_def)

lemma ingest_logged_scan:
  "\<exists>n \<le> length (zone_files env (fi_globs fi)). \<exists>written.
     ingest_logged g ords zap env on_event logger fi =
       ingest_finish_logged g ords zap on_event logger written n (fi_checksum fi) (ingest_read g env fi) fi \<and>
     begun written = map (file_logger zap logger \<circ> fst) (take n (zone_files env (fi_globs fi))) \<and>
     reported written = scan_failure zap logger (last ([] # map fst (take n (zone_files env (fi_globs fi)))))
       (snd (snd (ingest_read g env fi)))"
proof -
  let ?paths = "zone_files env (fi_globs fi)"
  let ?start = "([], 0, adler_new, new_rr_collector (fi_domain fi), None)"
  from ingest_logged_push [where paths = ?paths and g = g and env = env and fi = fi and zap = zap
      and logger = logger and written = "[]" and n = 0 and d = adler_new
      and rrc = "new_rr_collector (fi_domain fi)" and prev = "[]"]
  obtain n written where "n \<le> length ?paths"
    and "fst (push_all ?paths (ingest_logged_body g zap env fi logger) ?start) =
      (written, n, ingest_read g env fi)"
    and "begun written = map (file_logger zap logger \<circ> fst) (take n ?paths)"
    and "reported written = scan_failure zap logger (last ([] # map fst (take n ?paths)))
      (snd (snd (ingest_read g env fi)))"
    by (auto simp: ingest_read_def)
  then show ?thesis
    using range_over_state [OF zone_files_pushes [of env "fi_globs fi"], of "ingest_logged_body g zap env fi logger" ?start]
    by (intro exI [of _ n] conjI exI [of _ written])
      (simp_all add: ingest_logged_def Let_def split_beta)
qed

section \<open>Properties\<close>

text \<open>
  An ingest with its log, written over the pushing iterator of the zone files, has
  exactly the effect that the development calls \<open>ingest\<close>: on the ingester, its listeners and the
  panics that end it.
\<close>

lemma ingest_log_erased:
  "snd (ingest_logged g ords zap env on_event logger fi) = ingest g ords env on_event fi"
  using ingest_logged_scan [where env = env and fi = fi and g = g and ords = ords and zap = zap
      and on_event = on_event and logger = logger]
  by (auto simp: ingest_finish_logged_erase ingest_def)

text \<open>
  Property C25: the log of an ingest. Each file that is begun, a prefix of the files found, has an
  entry with its own logger; whatever else is not a debug entry is at most one error, the number of
  files begun, and, if there was no error, what the scan found out. A context that has ended is not
  logged, and the entry for a file that fails names the file but never carries its error.
\<close>

theorem ingest_log_entries:
  "\<exists>n \<le> length (zone_files env (fi_globs fi)).
     let written = fst (ingest_logged g ords zap env on_event logger fi);
         paths = take n (zone_files env (fi_globs fi));
         (checksummer, _, err) = ingest_read g env fi
     in begun written = map (\<lambda>(path, _). file_logger zap logger path) paths \<and>
        reported written =
          scan_failure zap logger (last ([] # map fst paths)) err @
          [log_at InfoLevel logger ''parsing complete'' [zap_int zap ''fileCount'' (int n)]] @
          (if err = None then [log_at InfoLevel logger (scan_news fi checksummer) []] else [])"
proof -
  from ingest_logged_scan [where env = env and fi = fi and g = g and ords = ords and zap = zap
      and on_event = on_event and logger = logger]
  obtain n written where n: "n \<le> length (zone_files env (fi_globs fi))"
    and run: "ingest_logged g ords zap env on_event logger fi =
      ingest_finish_logged g ords zap on_event logger written n (fi_checksum fi) (ingest_read g env fi) fi"
    and "begun written = map (file_logger zap logger \<circ> fst) (take n (zone_files env (fi_globs fi)))"
    and "reported written = scan_failure zap logger (last ([] # map fst (take n (zone_files env (fi_globs fi)))))
      (snd (snd (ingest_read g env fi)))"
    by blast
  moreover obtain d rrc err where "ingest_read g env fi = (d, rrc, err)" by (rule prod_cases3)
  ultimately show ?thesis
    by (intro exI [of _ n]) (simp add: ingest_finish_logged_entries comp_def split_beta scan_news_def)
qed

end
