(* ===== verification/Operation_Log.thy ===== *)
theory Operation_Log
  imports Handler_Properties Log_Fields
begin

text \<open>
  The main handler with its log (\<open>operation\<close> in \<open>server/handler.go\<close>): the same steps as in
  \<open>Handlers\<close>, on the operation as the code has it, and what each of them writes to the log. The
  endpoint and the group handler write nothing.

  \<open>'t\<close> are points in time and \<open>'e\<close> the errors of packing and writing; a log entry keeps the logger
  it was written with.
\<close>

section \<open>Operations\<close>

text \<open>\<open>op_log\<close> is what has been written so far; \<open>op_sent\<close> the bytes that went to the client.\<close>

record ('m, 'f, 'l, 't) operation =
  op_original :: "'m msg"
  op_start :: 't
  op_logger :: 'l
  op_response :: "'m msg"
  op_log :: "('f, 'l) log_entry list"
  op_sent :: "string option"

definition op_write_log :: "level \<Rightarrow> string \<Rightarrow> 'f list \<Rightarrow> ('m, 'f, 'l, 't) operation \<Rightarrow> ('m, 'f, 'l, 't) operation" where
  "op_write_log level message fs op =
     op\<lparr>op_log := op_log op @ [log_at level (op_logger op) message fs]\<rparr>"

definition op_start_operation ::
  "('m, 'e) dns_api \<Rightarrow> ('f, 'l, 'e, 't) log_api \<Rightarrow> 'm message_view \<Rightarrow> 't \<Rightarrow> 'l \<Rightarrow> 'm msg
    \<Rightarrow> ('m, 'f, 'l, 't) operation" where
  "op_start_operation api zap view now base original =
     (let response = (dn_copy api original)\<lparr>msg_rcode := rcode_success\<rparr>;
          response = dn_set_reply api response original;
          op = \<lparr>op_original = original, op_start = now,
            op_logger = zap_with zap base [request_field (zap_api.truncate zap) view ''request'' original],
            op_response = response, op_log = [], op_sent = None\<rparr>
      in op_write_log InfoLevel ''request start'' [] op)"

definition op_refuse :: "string \<Rightarrow> ('m, 'f, 'l, 't) operation \<Rightarrow> ('m, 'f, 'l, 't) operation" where
  "op_refuse message op =
     op_write_log ErrorLevel message [] (op\<lparr>op_response := (op_response op)\<lparr>msg_rcode := rcode_refused\<rparr>\<rparr>)"

definition op_get_question ::
  "('m, 'f, 'l, 't) operation \<Rightarrow> rr option \<times> ('m, 'f, 'l, 't) operation" where
  "op_get_question op =
     (if length (msg_question (op_original op)) \<noteq> 1 then (None, op_refuse ''invalid number of questions'' op)
      else if hdr_class (rr_header (msg_question (op_original op) ! 0)) \<noteq> class_INET
        then (None, op_refuse ''unhandled class'' op)
      else (Some (msg_question (op_original op) ! 0), op))"

definition op_unhandled :: "('m, 'f, 'l, 't) operation \<Rightarrow> ('m, 'f, 'l, 't) operation" where
  "op_unhandled op =
     (let op = op_write_log ErrorLevel ''unhandled request'' [] op
      in op\<lparr>op_response := (op_response op)\<lparr>msg_rcode := rcode_refused\<rparr>\<rparr>)"

text \<open>\<open>write\<close> is the response writer of the DNS package, \<open>now\<close> the time when the operation ends.\<close>

definition op_finish ::
  "('m, 'e) dns_api \<Rightarrow> ('f, 'l, 'e, 't) log_api \<Rightarrow> (string \<Rightarrow> 'e option) \<Rightarrow> 't \<Rightarrow> ('m, 'f, 'l, 't) operation
    \<Rightarrow> ('m, 'f, 'l, 't) operation" where
  "op_finish api zap write now op =
     (let op = (case dn_pack api (op_response op) of
            Inl err \<Rightarrow> op_write_log ErrorLevel ''unable to pack response'' [error_field zap (Some err)] op
          | Inr bytes \<Rightarrow>
              (let op = op\<lparr>op_sent := Some bytes\<rparr>
               in case write bytes of
                    Some err \<Rightarrow> op_write_log ErrorLevel ''unable to write response'' [error_field zap (Some err)] op
                  | None \<Rightarrow> op))
      in op_write_log InfoLevel ''request complete'' [zap_duration zap ''duration'' (op_start op) now] op)"

definition op_route ::
  "('b, 'q, 'r) medley \<Rightarrow> ('m, 'e) dns_api \<Rightarrow> (nat \<Rightarrow> ('b, 'r) locator) \<Rightarrow> 'l handler
    \<Rightarrow> 32 word \<Rightarrow> (nat \<Rightarrow> nat) \<Rightarrow> rr \<Rightarrow> ('m, 'f, 'l, 't) operation
    \<Rightarrow> panic option \<times> ('m, 'f, 'l, 't) operation" where
  "op_route md api mem h r sh question op =
     (if dn_is_below api (h_endpoint_domain h) (hdr_name (rr_header question)) then
        (case h_endpoint_handler h of
           None \<Rightarrow> (Some NilDereference, op)
         | Some eh \<Rightarrow>
             (case serve_endpoints md mem eh r sh (op_response op)
                 (parse_endpoint_request api question (h_endpoint_domain h)) of
                (p, response) \<Rightarrow> (p, op\<lparr>op_response := response\<rparr>)))
      else if dn_is_below api (h_group_domain h) (hdr_name (rr_header question)) then
        (case h_group_handler h of
           None \<Rightarrow> (Some NilDereference, op)
         | Some gh \<Rightarrow>
             (case serve_groups mem gh r (op_response op)
                 (parse_group_request api question (h_group_domain h)) of
                (p, response) \<Rightarrow> (p, op\<lparr>op_response := response\<rparr>)))
      else (None, op_unhandled op))"

text \<open>
  \<open>ServeDNS\<close>; \<open>finish\<close> is deferred and so runs after a panic of a handler too. Without a logger the
  operation does not even start.
\<close>

definition serve_operation ::
  "('b, 'q, 'r) medley \<Rightarrow> ('m, 'e) dns_api \<Rightarrow> ('f, 'l, 'e, 't) log_api \<Rightarrow> 'm message_view
    \<Rightarrow> (nat \<Rightarrow> ('b, 'r) locator) \<Rightarrow> 'l handler \<Rightarrow> 32 word \<Rightarrow> (nat \<Rightarrow> nat) \<Rightarrow> (string \<Rightarrow> 'e option)
    \<Rightarrow> 't \<Rightarrow> 't \<Rightarrow> 'm msg \<Rightarrow> panic option \<times> ('m, 'f, 'l, 't) operation option" where
  "serve_operation md api zap view mem h r sh write t0 t1 original =
     (case h_logger h of
        None \<Rightarrow> (Some NilDereference, None)
      | Some base \<Rightarrow>
          (let op = op_start_operation api zap view t0 base original;
               (question, op) = op_get_question op;
               (p, op) = (case question of
                  None \<Rightarrow> (None, op)
                | Some q \<Rightarrow> op_route md api mem h r sh q op)
           in (p, Some (op_finish api zap write t1 op))))"

section \<open>What is logged\<close>

text \<open>The reason for which the main handler itself refuses a request, before any other handler.\<close>

definition refusal :: "('m, 'e) dns_api \<Rightarrow> 'l handler \<Rightarrow> 'm msg \<Rightarrow> string option" where
  "refusal api h original =
     (case msg_question original of
        [q] \<Rightarrow>
          if hdr_class (rr_header q) \<noteq> class_INET then Some ''unhandled class''
          else if dn_is_below api (h_endpoint_domain h) (hdr_name (rr_header q)) \<or>
              dn_is_below api (h_group_domain h) (hdr_name (rr_header q)) then None
          else Some ''unhandled request''
      | _ \<Rightarrow> Some ''invalid number of questions'')"

definition send_error :: "('m, 'e) dns_api \<Rightarrow> (string \<Rightarrow> 'e option) \<Rightarrow> 'm msg \<Rightarrow> (string \<times> 'e) option" where
  "send_error api write response =
     (case dn_pack api response of
        Inl err \<Rightarrow> Some (''unable to pack response'', err)
      | Inr bytes \<Rightarrow> map_option (Pair ''unable to write response'') (write bytes))"

lemma op_write_log_simps [simp]:
  "op_original (op_write_log lv m fs op) = op_original op"
  "op_start (op_write_log lv m fs op) = op_start op"
  "op_logger (op_write_log lv m fs op) = op_logger op"
  "op_response (op_write_log lv m fs op) = op_response op"
  "op_sent (op_write_log lv m fs op) = op_sent op"
  "op_log (op_write_log lv m fs op) = op_log op @ [log_at lv (op_logger op) m fs]"
  by (simp_all add: op_write_log_def)

lemma op_refuse_simps [simp]:
  "op_original (op_refuse m op) = op_original op"
  "op_start (op_refuse m op) = op_start op"
  "op_logger (op_refuse m op) = op_logger op"
  "op_response (op_refuse m op) = (op_response op)\<lparr>msg_rcode := rcode_refused\<rparr>"
  "op_log (op_refuse m op) = op_log op @ [log_at ErrorLevel (op_logger op) m []]"
  by (simp_all add: op_refuse_def)

lemma op_start_simps [simp]:
  "op_original (op_start_operation api zap view t base original) = original"
  "op_start (op_start_operation api zap view t base original) = t"
  "op_sent (op_start_operation api zap view t base original) = None"
  "op_response (op_start_operation api zap view t base original) = start_operation api original"
  "op_logger (op_start_operation api zap view t base original) =
     operation_logger (zap_api.truncate zap) view base original"
  "op_log (op_start_operation api zap view t base original) =
     [log_at InfoLevel (operation_logger (zap_api.truncate zap) view base original) ''request start'' []]"
  by (simp_all add: op_start_operation_def start_operation_def operation_logger_def Let_def)
    (simp_all add: zap_api.truncate_def)

lemma op_finish_simps:
  "op_response (op_finish api zap write t op) = op_response op"
  "op_sent (op_finish api zap write t op) =
     (case finish api (op_response op) of None \<Rightarrow> op_sent op | Some bytes \<Rightarrow> Some bytes)"
  "op_log (op_finish api zap write t op) =
     op_log op @
     (case send_error api write (op_response op) of
        None \<Rightarrow> []
      | Some (m, err) \<Rightarrow> [log_at ErrorLevel (op_logger op) m [zap_error zap err]]) @
     [log_at InfoLevel (op_logger op) ''request complete'' [zap_duration zap ''duration'' (op_start op) t]]"
  by (simp_all add: op_finish_def finish_def send_error_def Let_def split: sum.split option.split)

lemma op_get_question_simps:
  "fst (op_get_question op) = fst (get_question (op_original op) (op_response op))"
  "op_response (snd (op_get_question op)) = snd (get_question (op_original op) (op_response op))"
  "op_sent (snd (op_get_question op)) = op_sent op"
  "op_start (snd (op_get_question op)) = op_start op"
  "op_logger (snd (op_get_question op)) = op_logger op"
  by (simp_all add: op_get_question_def get_question_def op_refuse_def)

lemma op_route_simps:
  "fst (op_route md api mem h r sh q op) = fst (route md api mem h r sh (op_response op) q)"
  "op_response (snd (op_route md api mem h r sh q op)) = snd (route md api mem h r sh (op_response op) q)"
  "op_sent (snd (op_route md api mem h r sh q op)) = op_sent op"
  "op_start (snd (op_route md api mem h r sh q op)) = op_start op"
  "op_logger (snd (op_route md api mem h r sh q op)) = op_logger op"
  by (simp_all add: op_route_def route_def op_unhandled_def unhandled_def Let_def
      split: option.split prod.split)

lemma op_routed_log:
  "op_log (snd (op_route md api mem h r sh q op)) =
     op_log op @
     (if dn_is_below api (h_endpoint_domain h) (hdr_name (rr_header q)) \<or>
         dn_is_below api (h_group_domain h) (hdr_name (rr_header q)) then []
      else [log_at ErrorLevel (op_logger op) ''unhandled request'' []])"
  by (simp add: op_route_def op_unhandled_def Let_def split: option.split prod.split)

text \<open>The operation between its start and its end.\<close>

definition op_serve ::
  "('b, 'q, 'r) medley \<Rightarrow> ('m, 'e) dns_api \<Rightarrow> (nat \<Rightarrow> ('b, 'r) locator) \<Rightarrow> 'l handler
    \<Rightarrow> 32 word \<Rightarrow> (nat \<Rightarrow> nat) \<Rightarrow> ('m, 'f, 'l, 't) operation \<Rightarrow> panic option \<times> ('m, 'f, 'l, 't) operation" where
  "op_serve md api mem h r sh op =
     (case op_get_question op of
        (None, op) \<Rightarrow> (None, op)
      | (Some q, op) \<Rightarrow> op_route md api mem h r sh q op)"

lemma serve_operation_unfold:
  "h_logger h = Some base \<Longrightarrow>
   serve_operation md api zap view mem h r sh write t0 t1 original =
     (case op_serve md api mem h r sh (op_start_operation api zap view t0 base original) of
        (p, op) \<Rightarrow> (p, Some (op_finish api zap write t1 op)))"
  by (simp add: serve_operation_def op_serve_def Let_def split: prod.split option.split)

lemma op_serve_log:
  "op_log (snd (op_serve md api mem h r sh op)) =
     op_log op @
     (case refusal api h (op_original op) of
        None \<Rightarrow> []
      | Some message \<Rightarrow> [log_at ErrorLevel (op_logger op) message []])"
proof (cases "msg_question (op_original op)")
  case Nil
  then show ?thesis by (simp add: op_serve_def op_get_question_def refusal_def)
next
  case (Cons q qs)
  then show ?thesis
    by (cases qs) (simp_all add: op_serve_def op_get_question_def refusal_def op_routed_log)
qed

lemma op_serve_simps:
  "op_logger (snd (op_serve md api mem h r sh op)) = op_logger op"
  "op_start (snd (op_serve md api mem h r sh op)) = op_start op"
  "op_sent (snd (op_serve md api mem h r sh op)) = op_sent op"
  using op_get_question_simps [of op]
  by (cases "op_get_question op"; cases "fst (op_get_question op)";
      simp add: op_serve_def op_route_simps)+

lemma op_serve_response:
  "(case op_serve md api mem h r sh op of (p, op) \<Rightarrow> (p, op_response op)) =
     (case get_question (op_original op) (op_response op) of
        (None, response) \<Rightarrow> (None, response)
      | (Some q, response) \<Rightarrow> route md api mem h r sh response q)"
proof -
  obtain q op' where q: "op_get_question op = (q, op')" by fastforce
  with op_get_question_simps(1,2) [of op]
  have "get_question (op_original op) (op_response op) = (q, op_response op')" by (simp add: prod_eq_iff)
  with q show ?thesis by (cases q) (simp_all add: op_serve_def op_route_simps split_beta)
qed

section \<open>Properties\<close>

text \<open>
  For the witnesses: loggers are the fields they carry, fields are strings, and a request without a
  question.
\<close>

definition sample_log :: "(string, string list, unit, nat) log_api" where
  "sample_log =
     \<lparr>zap_string = (\<lambda>k v. k), zap_uint16 = (\<lambda>k v. k), zap_uint32 = (\<lambda>k v. k), zap_bool = (\<lambda>k v. k),
      zap_int = (\<lambda>k v. k), zap_skip = [], zap_dict = (\<lambda>k fs. k), zap_object = (\<lambda>k v. k), zap_with = (@),
      zap_named = (\<lambda>l n. l), zap_nop = [], zap_error = (\<lambda>err. ''error''), zap_duration = (\<lambda>k a b. k),
      zap_stringer = (\<lambda>k v. k)\<rparr>"

definition sample_view :: "unit message_view" where
  "sample_view = \<lparr>mv_id = (\<lambda>_. 7), mv_udp_size = (\<lambda>_. 512), mv_recursion_desired = (\<lambda>_. False)\<rparr>"

definition sample_logging_handler :: "string list handler" where
  "sample_logging_handler = zero_handler\<lparr>h_logger := Some [''server'']\<rparr>"

definition sample_empty_query :: "unit msg" where
  "sample_empty_query = \<lparr>msg_question = [], msg_answer = [], msg_rcode = 0, msg_rest = ()\<rparr>"

text \<open>
  Property C23: erasing its log, an operation is what the development calls serving a request: the
  panic that goes on, the response and the bytes sent are those of \<open>serve_dns\<close>, so nothing that the
  operation logs changes what the client gets.
\<close>

theorem operation_refines_serving:
  assumes "h_logger h = Some base"
  shows "\<exists>p op. serve_operation md api zap view mem h r sh write t0 t1 original = (p, Some op) \<and>
    serve_dns md api mem h r sh original = (p, op_response op, op_sent op)"
proof -
  let ?op = "op_start_operation api zap view t0 base original"
  have served: "serve_dns md api mem h r sh original =
      (case op_serve md api mem h r sh ?op of
         (p, op) \<Rightarrow> (p, op_response op, finish api (op_response op)))"
  proof -
    obtain q response where q: "get_question original (start_operation api original) = (q, response)"
      by fastforce
    obtain p op where op: "op_serve md api mem h r sh ?op = (p, op)" by fastforce
    from op_serve_response [of md api mem h r sh ?op, symmetric] q op show ?thesis
      by (cases q) (simp_all add: serve_dns_def)
  qed
  have unsent: "op_sent (snd (op_serve md api mem h r sh ?op)) = None"
    by (simp add: op_serve_simps)
  then show ?thesis
    by (cases "op_serve md api mem h r sh ?op")
      (simp add: serve_operation_unfold [OF assms] served op_finish_simps split: option.split)
qed

theorem operation_refines_serving_witness:
  "\<exists>p op. serve_operation sample_medley sample_api sample_log sample_view (\<lambda>_. zero_locator 0)
      sample_logging_handler 0 (\<lambda>n. n) (\<lambda>_. None) 1 2 sample_empty_query = (p, Some op) \<and>
    serve_dns sample_medley sample_api (\<lambda>_. zero_locator 0) sample_logging_handler 0 (\<lambda>n. n)
      sample_empty_query = (p, op_response op, op_sent op)"
  by (rule operation_refines_serving [of _ "[''server'']"]) (simp add: sample_logging_handler_def)

text \<open>
  Property C24: every operation logs its start and its end, also when a handler panics, and between
  them exactly the errors there were: the reason for which the main handler refuses the request, and
  the failure to pack the response or, only if it was packed, to write it. Every entry is written
  with the logger that carries the request.
\<close>

theorem operation_log:
  assumes "h_logger h = Some base"
    and "serve_operation md api zap view mem h r sh write t0 t1 original = (p, Some op)"
  defines "logger \<equiv> operation_logger (zap_api.truncate zap) view base original"
  shows "op_log op =
    [log_at InfoLevel logger ''request start'' []] @
    (case refusal api h original of
       None \<Rightarrow> []
     | Some message \<Rightarrow> [log_at ErrorLevel logger message []]) @
    (case send_error api write (op_response op) of
       None \<Rightarrow> []
     | Some (message, err) \<Rightarrow> [log_at ErrorLevel logger message [zap_error zap err]]) @
    [log_at InfoLevel logger ''request complete'' [zap_duration zap ''duration'' t0 t1]]"
proof -
  let ?op = "op_start_operation api zap view t0 base original"
  let ?served = "snd (op_serve md api mem h r sh ?op)"
  have op: "op = op_finish api zap write t1 ?served"
    using assms(2) by (simp add: serve_operation_unfold [OF assms(1)] split: prod.splits)
  show ?thesis
    unfolding op op_finish_simps op_serve_simps op_serve_log op_start_simps logger_def by simp
qed

theorem operation_log_witness:
  "\<exists>p op. serve_operation sample_medley sample_api sample_log sample_view (\<lambda>_. zero_locator 0)
      sample_logging_handler 0 (\<lambda>n. n) (\<lambda>_. Some ()) 1 2 sample_empty_query = (p, Some op) \<and>
    map (\<lambda>entry. (le_logger entry, le_message entry, le_fields entry)) (op_log op) =
      map (Pair [''server'', ''request''])
        [(''request start'', []), (''invalid number of questions'', []),
         (''unable to write response'', [''error'']), (''request complete'', [''duration''])]"
proof -
  let ?run = "serve_operation sample_medley sample_api sample_log sample_view (\<lambda>_. zero_locator 0)
      sample_logging_handler 0 (\<lambda>n. n) (\<lambda>_. Some ()) 1 2 sample_empty_query"
  have base: "h_logger sample_logging_handler = Some [''server'']"
    by (simp add: sample_logging_handler_def)
  have "\<exists>p op. ?run = (p, Some op)"
    by (simp add: serve_operation_unfold [OF base] split_beta)
  then obtain p op where run: "?run = (p, Some op)" by blast
  have "refusal sample_api sample_logging_handler sample_empty_query = Some ''invalid number of questions''"
    by (simp add: refusal_def sample_empty_query_def)
  moreover have "send_error sample_api (\<lambda>_. Some ()) (op_response op) = Some (''unable to write response'', ())"
    by (simp add: send_error_def sample_api_def)
  moreover have "operation_logger (zap_api.truncate sample_log) sample_view [''server''] sample_empty_query =
      [''server'', ''request'']"
    by (simp add: operation_logger_def request_field_def sample_log_def zap_api.truncate_def)
  ultimately have "map (\<lambda>entry. (le_logger entry, le_message entry, le_fields entry)) (op_log op) =
      map (Pair [''server'', ''request''])
        [(''request start'', []), (''invalid number of questions'', []),
         (''unable to write response'', [''error'']), (''request complete'', [''duration''])]"
    using operation_log [OF base run] by (simp add: log_at_def sample_log_def)
  with run show ?thesis by blast
qed

end
