(* ===== verification/Wiring_Log.thy ===== *)
theory Wiring_Log
  imports Start_Up
begin

text \<open>
  What the wiring itself logs at start-up: the range of TTLs of the jitterer (\<open>server/provide.go\<close>) and
  the configuration file that was used (\<open>cmd/hashy/commandLine.go\<close>). The entries of the initial
  ingest are those of \<open>Ingest_Log\<close>.
\<close>

section \<open>Entries\<close>

definition jitter_entry :: "('f, 'l) zap_api \<Rightarrow> 'l \<Rightarrow> ttl_jitterer \<Rightarrow> ('f, 'l) log_entry" where
  "jitter_entry zap logger j =
     (let (lo, hi) = jitter_range j
      in log_at DebugLevel logger ''TTL jitter range for generated DNS RRs''
           [zap_uint32 zap ''lo'' lo, zap_uint32 zap ''hi'' hi])"

definition provide_jitterer_logged ::
  "('b, 'q, 'r, 'm, 'e, 'l, 'f, 'c, 'x, 'u) externals \<Rightarrow> zone_config \<Rightarrow> 'l
    \<Rightarrow> ('f, 'l) log_entry list \<times> ('u start_error + ttl_jitterer)" where
  "provide_jitterer_logged ex zcfg logger =
     (case new_ttl_jitterer (ex_fimpl ex) (duration_to_seconds (ex_impl ex) (zc_ttl zcfg)) (zc_ttl_jitter zcfg) of
        (j, None) \<Rightarrow> ([jitter_entry (ex_zap ex) logger j], Inr j)
      | (j, Some err) \<Rightarrow> ([], Inl (JitterError err)))"

text \<open>\<open>location\<close> is what \<open>ConfigFileUsed\<close> of the viper package returns.\<close>

definition configuration_entry :: "('f, 'l) zap_api \<Rightarrow> 'l \<Rightarrow> string \<Rightarrow> ('f, 'l) log_entry" where
  "configuration_entry zap logger location =
     log_at InfoLevel logger ''configuration file used'' [zap_string zap ''location'' location]"

lemma provide_jitterer_erased: "snd (provide_jitterer_logged ex zcfg logger) = provide_jitterer ex zcfg"
  by (simp add: provide_jitterer_logged_def provide_jitterer_def split: prod.split option.split)

lemma provide_jitterer_entries:
  "fst (provide_jitterer_logged ex zcfg logger) =
     (case provide_jitterer ex zcfg of Inl _ \<Rightarrow> [] | Inr j \<Rightarrow> [jitter_entry (ex_zap ex) logger j])"
  by (simp add: provide_jitterer_logged_def provide_jitterer_def split: prod.split option.split)

section \<open>Start-up with its log\<close>

definition construct_log ::
  "('b, 'q, 'r, 'm, 'e, 'l, 'f, 'c, 'x, 'u) externals \<Rightarrow> component \<Rightarrow> ('b, 'r, 'l, 'c, 'u) app
    \<Rightarrow> ('f, 'l) log_entry list" where
  "construct_log ex c s =
     (if c = Jitterer then fst (provide_jitterer_logged ex (app_zone s) (the (ap_logger s))) else [])"

definition invoke_log ::
  "('b, 'q, 'r, 'm, 'e, 'l, 'f, 'c, 'x, 'u) externals \<Rightarrow> string \<Rightarrow> ('b, 'r, 'l, 'c, 'u) app
    \<Rightarrow> ('f, 'l) log_entry list" where
  "invoke_log ex location s =
     (if ap_invoked s = 3 then [configuration_entry (ex_zap ex) (the (ap_logger s)) location] else [])"

inductive fx_logged ::
  "('b, 'q, 'r, 'm, 'e, 'l, 'f, 'c, 'x, 'u) externals \<Rightarrow> command_line \<Rightarrow> string
    \<Rightarrow> ('b, 'r, 'l, 'c, 'u) app \<times> ('f, 'l) log_entry list
    \<Rightarrow> ('b, 'r, 'l, 'c, 'u) app \<times> ('f, 'l) log_entry list \<Rightarrow> bool"
  for ex cl location
where
  construct_logged:
    "ap_error s = None \<Longrightarrow> ap_invoked s < 4 \<Longrightarrow> needed (ap_invoked s) c \<Longrightarrow> \<not> built s c \<Longrightarrow>
     \<forall>d \<in> set (params c). built s d \<Longrightarrow>
     fx_logged ex cl location (s, written) (construct ex cl c s, written @ construct_log ex c s)"
| invoke_logged:
    "ap_error s = None \<Longrightarrow> ap_invoked s < 4 \<Longrightarrow> \<forall>d \<in> set (invoke_params (ap_invoked s)). built s d \<Longrightarrow>
     fx_logged ex cl location (s, written) (run_invoke ex s, written @ invoke_log ex location s)"

text \<open>Logging changes nothing else.\<close>

lemma fx_logged_erased: "fx_logged ex cl location sw tw \<Longrightarrow> fx_step ex cl (fst sw) (fst tw)"
  by (induction rule: fx_logged.induct) (auto intro: fx_step.intros)

lemma fx_step_logged:
  assumes "fx_step ex cl s t"
  shows "\<exists>new. fx_logged ex cl location (s, written) (t, written @ new)"
  using assms by cases (blast intro: construct_logged invoke_logged)+

section \<open>What is logged\<close>

definition wiring_entries ::
  "('b, 'q, 'r, 'm, 'e, 'l, 'f, 'c, 'x, 'u) externals \<Rightarrow> string \<Rightarrow> ('b, 'r, 'l, 'c, 'u) app
    \<Rightarrow> ('f, 'l) log_entry list" where
  "wiring_entries ex location s =
     (case ap_jitterer s of None \<Rightarrow> [] | Some j \<Rightarrow> [jitter_entry (ex_zap ex) (the (ap_logger s)) j]) @
     (if ap_invoked s = 4 then [configuration_entry (ex_zap ex) (the (ap_logger s)) location] else [])"

lemma construct_entries:
  assumes ok: "app_ok ex cl s" and "ap_invoked s < 4" and "\<not> built s c" and "ap_error s = None"
  shows "wiring_entries ex location (construct ex cl c s) = wiring_entries ex location s @ construct_log ex c s"
proof -
  have "ap_logger s \<noteq> None" if "ap_jitterer s \<noteq> None"
    using app_okD(1) [OF ok, of Jitterer] that by simp
  with assms(2,3) show ?thesis
    by (cases c)
      (auto simp: wiring_entries_def construct_log_def provide_jitterer_entries split: sum.splits option.splits)
qed

lemma invoke_entries:
  assumes "ap_invoked s < 4"
  shows "wiring_entries ex location (run_invoke ex s) = wiring_entries ex location s @ invoke_log ex location s"
  using assms by (auto simp: wiring_entries_def run_invoke_def invoke_log_def split: sum.split option.split)

interpretation wiring: step_system "fx_logged ex cl location"
    "\<lambda>(s, written). app_ok ex cl s \<and> written = wiring_entries ex location s"
  for ex cl location
proof unfold_locales
  fix sw tw
  assume step: "fx_logged ex cl location sw tw"
    and inv: "case sw of (s, written) \<Rightarrow> app_ok ex cl s \<and> written = wiring_entries ex location s"
  from step have "app_ok ex cl (fst tw) \<and> snd tw = wiring_entries ex location (fst tw)"
  proof cases
    case (construct_logged s c written)
    with inv fx_logged_erased [OF step] construct_entries [of ex cl s c location] fx_step_ok [of ex cl s]
    show ?thesis by simp
  next
    case (invoke_logged s written)
    with inv fx_logged_erased [OF step] invoke_entries [of s ex location] fx_step_ok [of ex cl s]
    show ?thesis by simp
  qed
  then show "case tw of (s, written) \<Rightarrow> app_ok ex cl s \<and> written = wiring_entries ex location s"
    by (cases tw) simp
qed

text \<open>
  Whatever the order of the constructors, a start-up that succeeds logs exactly two entries of its
  own: the range of TTLs that the handlers' jitterer draws from, and then the configuration file.
\<close>

lemma start_up_log:
  assumes "(fx_logged ex cl location)\<^sup>*\<^sup>* (new_app, []) (s, written)"
    and "\<nexists>s'. fx_step ex cl s s'" and "ap_error s = None"
  shows "written = [jitter_entry (ex_zap ex) (the (ap_logger s)) (the (ap_jitterer s)),
    configuration_entry (ex_zap ex) (the (ap_logger s)) location]"
proof -
  have "wiring_entries ex location new_app = []" by (simp add: wiring_entries_def new_app_def)
  with wiring.steps_inv [OF assms(1)] have w: "app_ok ex cl s" "written = wiring_entries ex location s"
    by (simp_all add: app_ok_new)
  have "4 \<le> ap_invoked s" using assms(2,3) fx_stuck [of ex cl s] by simp
  with w(1) have four: "ap_invoked s = 4" by (simp add: app_ok_def)
  have "built s Jitterer" using all_built [OF w(1), of Jitterer] four by (simp del: built.simps)
  with w(2) four show ?thesis by (auto simp: wiring_entries_def)
qed

end
