(* ===== verification/Program_Entry.thy ===== *)
theory Program_Entry
  imports Wiring
begin

text \<open>
  The process: \<open>main\<close> (\<open>cmd/hashy/main.go\<close>), \<open>run\<close> (\<open>cmd/hashy/run.go\<close>) and the hooks of the command
  line that the kong package calls, \<open>AfterApply\<close> and \<open>Run\<close> (\<open>cmd/hashy/commandLine.go\<close>).

  The kong package is a parameter (record \<open>kong_api\<close>): \<open>'o\<close> are its options, \<open>'k\<close> its parsers,
  \<open>'ctx\<close> the parsed command lines, \<open>'v\<close> the configuration of the viper package, \<open>'e\<close> its errors.
  So is \<open>Run\<close> of the fx application, which either returns or ends the process.
\<close>

section \<open>The command line's hooks\<close>

record ('o, 'k, 'ctx, 'v, 'e) kong_api =
  kong_description :: "string \<Rightarrow> 'o"
  kong_new :: "'o list \<Rightarrow> 'e + 'k"
  kong_parse :: "'k \<Rightarrow> string list \<Rightarrow> 'e + 'ctx"
  kong_run :: "'ctx \<Rightarrow> 'e option"
  kong_bind :: "'ctx \<Rightarrow> 'v \<Rightarrow> 'ctx"

definition after_apply ::
  "('o, 'k, 'ctx, 'v, 'e) kong_api \<Rightarrow> ('v, 'e) viper_api \<Rightarrow> string \<Rightarrow> command_line \<Rightarrow> 'ctx
    \<Rightarrow> 'ctx \<times> 'e option" where
  "after_apply kong vp default_config cl ctx =
     (case new_viper vp default_config cl of
        (v, None) \<Rightarrow> (kong_bind kong ctx v, None)
      | (v, Some err) \<Rightarrow> (ctx, Some err))"

text \<open>
  \<open>Run\<close>, for the application that \<open>fx.New\<close> returns - a state in which start-up has ended -, where
  \<open>fx_run\<close> is the status with which \<open>Run\<close> of the application ends the process, if it does.
\<close>

datatype 'u run_end = ProcessExit nat | RunReturned "'u start_error option"

definition command_run ::
  "(('b, 'r, 'l, 'c, 'u) app \<Rightarrow> nat option) \<Rightarrow> ('b, 'r, 'l, 'c, 'u) app \<Rightarrow> 'u run_end" where
  "command_run fx_run a =
     (case fx_run a of
        Some status \<Rightarrow> ProcessExit status
      | None \<Rightarrow> RunReturned (ap_error a))"

section \<open>The process\<close>

definition hashy_description :: string where
  "hashy_description =
     ''hashy is a DNS server that uses a consistent hash for certain domains and passes through others''"

datatype 'e run_error = CreatingParser 'e | ParsingCommandLine 'e | RunningCommand 'e

fun run_error_text :: "('e \<Rightarrow> string) \<Rightarrow> 'e run_error \<Rightarrow> string" where
  "run_error_text text (CreatingParser err) = ''error creating command line parser: '' @ text err"
| "run_error_text text (ParsingCommandLine err) = ''error parsing command line: '' @ text err"
| "run_error_text text (RunningCommand err) = text err"

definition run_hashy ::
  "('o, 'k, 'ctx, 'v, 'e) kong_api \<Rightarrow> string list \<Rightarrow> 'o list \<Rightarrow> 'e run_error option" where
  "run_hashy kong args opts =
     (let opts = opts @ [kong_description kong hashy_description]
      in case kong_new kong opts of
           Inl err \<Rightarrow> Some (CreatingParser err)
         | Inr k \<Rightarrow>
             (case kong_parse kong k args of
                Inl err \<Rightarrow> Some (ParsingCommandLine err)
              | Inr ctx \<Rightarrow> map_option RunningCommand (kong_run kong ctx)))"

text \<open>What \<open>main\<close> writes to the standard error, and the exit status of the process.\<close>

definition main_hashy ::
  "('o, 'k, 'ctx, 'v, 'e) kong_api \<Rightarrow> ('e \<Rightarrow> string) \<Rightarrow> string list \<Rightarrow> string \<times> nat" where
  "main_hashy kong text os_args =
     (case run_hashy kong (drop 1 os_args) [] of
        Some err \<Rightarrow> (run_error_text text err @ [CHR 0x0A], 1)
      | None \<Rightarrow> ([], 0))"

section \<open>The exit status\<close>

text \<open>
  \<open>Run\<close> of the application as documented: an application that could not be constructed ends the
  process with status 1; otherwise it runs until it is told to shut down, and ends the process only
  with the exit code given to \<open>Shutdown\<close>. hashy's servers call \<open>Shutdown\<close> without one.
\<close>

definition fx_runs :: "(('b, 'r, 'l, 'c, 'u) app \<Rightarrow> nat option) \<Rightarrow> bool" where
  "fx_runs fx_run \<longleftrightarrow> (\<forall>a. fx_run a = (if ap_error a = None then None else Some 1))"

text \<open>
  So \<open>Run\<close> never returns an error: one of construction ends the process before, and a program
  that has started returns none - also when it ended because a server could not listen.
\<close>

lemma command_run_ends:
  "fx_runs fx_run \<Longrightarrow>
     command_run fx_run a = (if ap_error a = None then RunReturned None else ProcessExit 1)"
  by (auto simp: command_run_def fx_runs_def)

lemma fx_runs_possible: "fx_runs (\<lambda>a. if ap_error a = None then None else Some 1)"
  by (simp add: fx_runs_def)

lemma main_status: "snd (main_hashy kong text os_args) = 0 \<longleftrightarrow> run_hashy kong (drop 1 os_args) [] = None"
  by (simp add: main_hashy_def split: option.split)

lemma run_hashy_returns:
  "run_hashy kong args opts = None \<longleftrightarrow>
    (\<exists>k ctx. kong_new kong (opts @ [kong_description kong hashy_description]) = Inr k \<and>
      kong_parse kong k args = Inr ctx \<and> kong_run kong ctx = None)"
  by (auto simp: run_hashy_def Let_def split: sum.splits)

lemma after_apply_error:
  "snd (after_apply kong vp default_config cl ctx) = snd (new_viper vp default_config cl)"
  by (simp add: after_apply_def split: prod.split option.split)

end
