(* ===== verification/Spec2Isabelle.thy ===== *)
theory Spec2Isabelle
  imports Program_Handlers Repeated_Addresses Locator_Log Ingest_Log Operation_Log Wiring_Log Program_Entry
begin

text \<open>
  hashy: a DNS server that answers with the service instances a consistent hash selects.

  The program. Zone files list groups (TXT records of a discovery domain), the services of each
  group (SRV) and the addresses of their hosts (A, AAAA). A file ingester
  (\<open>service/fileIngester.go\<close>), called at start-up and by the background goroutine of an ingest
  checker (\<open>service/ingester.go\<close>), reads the files into collectors
  (\<open>service/collectors.go\<close>), builds \<open>Groups\<close> (\<open>service/group.go\<close>) when something changed and
  hands them as an event to its listeners. The listener is the locator
  (\<open>service/locator.go\<close>), which builds one hash ring for every group and swaps all of them under a
  lock. The DNS handlers (\<open>server/\<close>) parse a question's name into an object and group names,
  ask the locator, and append the endpoints' addresses, or TXT records about groups, to the
  response.

  The theories, in the order of the program's layers:

  \<^item> \<open>Hashy_Prelude\<close>: Go maps with an arbitrary iteration order, sorting by a three-way
    comparison, functional options. \<open>Go_Slices\<close>: slices over a store of backing arrays, with
    what each operation may touch. \<open>Step_Systems\<close>: invariants, termination and simulation of
    step relations, once for all the step relations below.
  \<^item> \<open>TTL\<close> (\<open>ttl.go\<close>), \<open>Values\<close> (\<open>dedupe.go\<close>, \<open>values.go\<close>), \<open>Net_Addr\<close> (\<open>compare.go\<close>),
    \<open>Shuffle\<close> (\<open>shuffle.go\<close>): the root package.
  \<^item> \<open>Group_Definition\<close> (\<open>service/groupDefinition.go\<close>), \<open>Group_Records\<close> (\<open>service/endpoint.go\<close>,
    \<open>service/group.go\<close>, \<open>service/empty.go\<close>, \<open>LocatedEndpoints\<close> of \<open>service/locator.go\<close>).
  \<^item> \<open>Collectors\<close> (\<open>service/collectors.go\<close>), \<open>Collector_Spec\<close> with what a stream of records
    describes (\<open>groups_of\<close>) and the simulation that the collectors implement it,
    \<open>Collector_Properties\<close> with the resulting theorems, \<open>Repeated_Addresses\<close>: what \<open>Build\<close> makes of
    zone files that repeat an address.
  \<^item> \<open>Locator\<close> (\<open>service/locator.go\<close>) with its abstract state \<open>published\<close>,
    \<open>Locator_Concurrency\<close> with the interleavings of lookups and updates as a step relation,
    \<open>Locator_Progress\<close>: no deadlock, and every call returns, and \<open>Locator_Linearizable\<close>: the moment
    at which each call takes effect.
  \<^item> \<open>File_Ingester\<close> (\<open>service/fileIngester.go\<close>), \<open>Ingest_Spec\<close> with the specification of
    \<open>Ingest\<close> by a scan of the files, \<open>Ingest_Overlap\<close> with the atomic steps of overlapping calls,
    \<open>Ingest_Checker\<close> (\<open>service/ingester.go\<close>).
  \<^item> \<open>Serving_Overlap\<close>: overlapping ingests and requests together, at the grain of the locator's
    lock and of each write to it; a simulation shows that the calls of the locator as a listener
    implement the atomic ones of \<open>Ingest_Overlap\<close>. \<open>Serving_Progress\<close>: all of them return;
    \<open>Serving_Answers\<close>: what the handlers answer meanwhile; \<open>Lone_Call\<close>: one ingest at a time, and
    calls and requests that come later.
  \<^item> \<open>Iterators\<close>: the iterators as functions that push into \<open>yield\<close>, and the loops over them with
    their early exits. \<open>Ingest_Log\<close>: \<open>Ingest\<close> over these iterators, with what it logs;
    \<open>Locator_Log\<close>: the same for \<open>OnIngest\<close> and \<open>Update\<close>.
  \<^item> \<open>Configuration\<close> (\<open>config/\<close>, \<open>cmd/hashy/commandLine.go\<close>).
  \<^item> \<open>Dns_Requests\<close> (request parsing), \<open>Handlers\<close> (\<open>server/handler.go\<close>,
    \<open>server/endpointHandler.go\<close>, \<open>server/groupHandler.go\<close>), \<open>Handler_Properties\<close>,
    \<open>Answer_Types\<close> (the types of the records served), \<open>Servers\<close> (\<open>server/servers.go\<close>,
    \<open>server/bundle.go\<close>), \<open>Log_Fields\<close> (\<open>hashyzap/\<close>, the derived loggers and log entries),
    \<open>Operation_Log\<close> (the operation of \<open>server/handler.go\<close> with what it logs).
  \<^item> \<open>Wiring\<close> (\<open>service/provide.go\<close>, \<open>server/provide.go\<close>, \<open>Run\<close> of \<open>cmd/hashy/commandLine.go\<close>): the
    constructors and the injector's run over them (\<open>fx_step\<close>), with the reference start-up \<open>boot\<close>;
    \<open>Start_Up\<close>: start-up ends, in the same state whatever the order of the constructors;
    \<open>Lifecycle\<close>: the hooks, the servers and the background ingests of the started program as a step
    relation (\<open>life_step\<close>); \<open>Program_Answers\<close>: what requests to the running program are told, even if
    ingests overlapped; \<open>Wiring_Log\<close>: what the wiring logs; \<open>Program_Entry\<close> (\<open>cmd/hashy/main.go\<close>,
    \<open>cmd/hashy/run.go\<close>).
  \<^item> \<open>Program_Steps\<close>: the running program at its finest grain (\<open>program_step\<close>): the steps of \<open>Lifecycle\<close>,
    every ingest in its atomic steps, every access to the locator and its lock, and requests that
    arrive at any time; it refines \<open>Lifecycle\<close>. \<open>Program_Requests\<close>: what requests are answered in it.
    \<open>Program_Handlers\<close>: messages that arrive, their handlers around the call of the locator, and
    panics as steps of the program (\<open>handlers_step\<close>); every request comes to its end.
  \<^item> This theory: what holds from the zone files, and from start-up, to the answers.

  How code is rendered. A struct is a record, an operation a function from the old state to the
  new one, a pointer an option or, where it is shared, an address; an error is a value of an
  own datatype, a run-time panic a value of \<open>panic\<close>. Iterators are the lists they yield, which
  \<open>Iterators\<close> shows of the pushing functions they are; what is logged is left out but in
  \<open>Operation_Log\<close>, \<open>Ingest_Log\<close>, \<open>Locator_Log\<close> and \<open>Wiring_Log\<close>, which show that leaving it out
  changes nothing else.
  TTLs are 32-bit words; floats are rationals with each rounding written out, the result of
  an out-of-range conversion to an integer a parameter. Strings are byte strings. Random
  numbers, map iteration orders and slice growth are parameters, and the theorems hold for all
  of them. Addresses live in slices over a store because \<open>endpointsFor\<close> dedupes and sorts arrays
  that the collected entries share; \<open>freeze_groups\<close> is what a reader of the result sees.

  Parameters. The hash rings (record \<open>medley\<close>), the DNS library (record \<open>dns_api\<close>, and
  \<open>env_parse\<close> for its zone parser), the file system, the context (record \<open>ingest_env\<close>), the
  logging and configuration libraries. What is needed of them is named: \<open>builds_rings\<close> (a built
  ring is not nil), \<open>rings_pick\<close> (a ring over some endpoints yields one of them),
  \<open>empty_rings_yield_nil\<close> (a ring over none yields nil, for the panic that follows from it),
  \<open>replies_successful\<close> (\<open>SetReply\<close> does not invent an error code). Calls to them return and do
  not panic. The fx injector and application are used by their documented behaviour (the texts of
  \<open>Wiring\<close> and \<open>Lifecycle\<close> say which), the zap and kong packages are records of the functions that
  are called (\<open>zap_api\<close>, \<open>log_api\<close>, \<open>kong_api\<close>, \<open>viper_api\<close>).

  How the layers meet. The theorems about one call of \<open>Ingest\<close> apply to the running program because
  its calls do not overlap (\<open>lifecycle_ingests_do_not_overlap\<close>) and a call that is not interleaved
  with another is the function \<open>ingest\<close> (\<open>call_alone\<close>), also with requests in between
  (\<open>program_refines_life\<close>); the theorems about a locator with published
  groups apply because that is what the ingester makes of it (\<open>lifecycle_serves_a_scan\<close>); the
  handlers' because start-up builds every server with a clone of the configured handler
  (\<open>started_server\<close>).

  Contracts. Interfaces between components are locales, interpreted on the model:
  \<open>keyed_comparison\<close> and \<open>comparison\<close> (sorting), \<open>value_set\<close> and \<open>sorting_value_set\<close> (dedupers),
  \<open>slice_appender\<close>, \<open>ttl_source\<close> (the jitterer as the handlers use it), \<open>rr_source\<close> (\<open>LenRRs\<close> and
  \<open>RRs\<close> of groups and located endpoints), \<open>ingest_listener\<close> and \<open>file_listener\<close> (the locator as
  the ingester uses it). \<open>step_system\<close>, \<open>terminating_system\<close>, \<open>bounded_system\<close> and
  \<open>step_simulation\<close> are interpreted on each step relation: the checker, the lock of the locator,
  overlapping ingests, these with requests, start-up, what it logs, the life of the program,
  the program at its finest grain, and the same with its handlers.

  Bounds and termination. Every function is total: recursion is structural or over the list of
  what is left to read, and no fuel is used. Step relations may run for ever, so what ends is
  proved: the calls of the locator by a measure on the goroutines, overlapping ingests and requests
  by that and the steps left to each call, requests by that and the handlers that have not ended, start-up by the number of
  constructors and invoked functions left (at most fourteen steps), the shutdown of the program, from any
  phase, by the number of hooks left. The checker has unboundedly many runs; its theorems are invariants.

  Panics. A function that can panic returns the panic. That one which leaves a handler ends the program,
  unless the DNS package recovers, is in \<open>Program_Handlers\<close>; its program takes the steps of \<open>Lifecycle\<close>
  and \<open>Program_Steps\<close> up to there, so what these show of every reachable state holds. \<open>serve_dns\<close>
  takes the logger of a handler to be there, as start-up provides it; \<open>serve_operation\<close> has the panic
  without one.

  Not modelled: the logger fields of records that nothing reads, timers (a tick is a step that is always
  possible; the points in time that an operation logs are parameters), and network I/O
  (\<open>ListenAndServe\<close> may return at any time with any result, a request may arrive at any server that
  listens). What a call of \<open>Ingest\<close> sees of the files is one environment for the whole call. In
  \<open>Program_Steps\<close> a waiting writer does not keep new readers out, as Go's \<open>RWMutex\<close> does: the
  program has fewer runs than the model, so what holds of all runs holds, and \<open>locator_calls_return\<close>
  covers progress under either rule. Tests and the example configuration are left aside.
\<close>

section \<open>From zone files to answers\<close>

text \<open>
  What a consistent hash ring promises: the endpoint it yields for an object is one of those it
  was built over, if there are any.
\<close>

definition rings_pick :: "('b, 'q, 'r) medley \<Rightarrow> bool" where
  "rings_pick md \<longleftrightarrow>
     (\<forall>b g object. grp_endpoints g \<noteq> [] \<longrightarrow>
        (\<exists>e \<in> set (grp_endpoints g). md_nearest_string md (build_ring md b g) object = Some e))"

lemma located_in_picks:
  assumes "rings_pick md" and "\<forall>g \<in> set (selected_groups gps names). grp_endpoints g \<noteq> []"
  shows "\<exists>es. located_in md b (Some gps) object names = map Some es \<and>
    list_all2 (\<lambda>g e. e \<in> set (grp_endpoints g)) (selected_groups gps names) es"
proof -
  have "\<exists>es. map (\<lambda>g. md_nearest_string md (build_ring md b g) object) gs = map Some es \<and>
      list_all2 (\<lambda>g e. e \<in> set (grp_endpoints g)) gs es"
    if "\<forall>g \<in> set gs. grp_endpoints g \<noteq> []" for gs
    using that
  proof (induction gs)
    case (Cons g gs)
    obtain e where "e \<in> set (grp_endpoints g)" "md_nearest_string md (build_ring md b g) object = Some e"
      using assms(1) Cons.prems unfolding rings_pick_def by (metis list.set_intros(1))
    moreover obtain es where "map (\<lambda>g. md_nearest_string md (build_ring md b g) object) gs = map Some es"
      "list_all2 (\<lambda>g e. e \<in> set (grp_endpoints g)) gs es"
      using Cons by auto
    ultimately show ?case by (intro exI [of _ "e # es"]) simp
  qed simp
  from this [OF assms(2)] show ?thesis by (simp add: located_in_def)
qed

text \<open>A ring over no endpoints yields none.\<close>

definition empty_rings_yield_nil :: "('b, 'q, 'r) medley \<Rightarrow> bool" where
  "empty_rings_yield_nil md \<longleftrightarrow>
     (\<forall>b g object. grp_endpoints g = [] \<longrightarrow> md_nearest_string md (build_ring md b g) object = None)"

lemma located_in_nil:
  "empty_rings_yield_nil md \<Longrightarrow> \<exists>g \<in> set (selected_groups gps names). grp_endpoints g = [] \<Longrightarrow>
     None \<in> set (located_in md b (Some gps) object names)"
  by (auto simp: located_in_def empty_rings_yield_nil_def image_iff intro!: bexI)

lemma scan_texts:
  "scan env fi = Inr (rrs, bytes) \<Longrightarrow> first_error (stream_texts (fi_domain fi) rrs) = None"
  using ingest_read_scan [where env = env and fi = fi and g = "\<lambda>_ n. n"]
    add_rrs_error [of "\<lambda>_ n. n" "new_rr_collector (fi_domain fi)" rrs]
  by (auto simp: new_rr_collector_def)

text \<open>
  Property C1: from zone files to answers. Let an ingest, whose only listener is the locator, find
  changed, error-free zone files in which no host repeats an address. Afterwards the locator answers
  an address question with one endpoint of each selected group that the zone files describe - all
  groups, or those named in the question - and the handler adds exactly the addresses of these
  endpoints, with the question's name and one TTL, to the answer. This needs every selected group to
  have an endpoint, that is a known host. If one has none, and a ring over no endpoints yields nil,
  every question for addresses makes the handler panic, with the response as it was. (The locator
  starts empty or with published groups, the handler has a locator and a jitterer, a built ring is
  not nil, and a ring over some endpoints yields one of them.)
\<close>

theorem zone_files_to_answer:
  assumes "fi_listeners fi = [l]" and "is_published md b l"
    and "scan env fi = Inr (rrs, bytes)" and "changed fi bytes" and "addrs_distinct rrs"
    and "builds_rings md" and "rings_pick md"
    and "eh_locator eh = Some loc" and "eh_jitterer eh = Some j"
  shows "\<exists>fi' l'. ingest g ords env (on_ingest md) fi = Inr fi' \<and> fi_listeners fi' = [l'] \<and>
    (let gs = selected_groups (groups_of (fi_domain fi) rrs) (er_groups request);
         outcome = serve_endpoints md (\<lambda>_. l') eh r sh response request
     in if \<forall>g' \<in> set gs. grp_endpoints g' \<noteq> []
        then \<exists>es response'. outcome = (None, response') \<and>
          list_all2 (\<lambda>g' e. e \<in> set (grp_endpoints g')) gs es \<and>
          mset (msg_answer response') = mset (msg_answer response) +
            mset (concat (map (endpoint_records \<lparr>hdr_name = er_name request, hdr_ttl = jitter_ttl j r,
              hdr_class = class_INET\<rparr> (er_rr_type request)) es))
        else empty_rings_yield_nil md \<and> (er_rr_type request = type_A \<or> er_rr_type request = type_AAAA) \<longrightarrow>
          (\<exists>p. outcome = (Some p, response)))"
proof -
  let ?gps = "groups_of (fi_domain fi) rrs" and ?l = "published md b (Some (groups_of (fi_domain fi) rrs))"
  let ?gs = "selected_groups ?gps (er_groups request)"
  have "\<forall>l \<in> set (fi_listeners fi). is_published md b l" using assms(1,2) by simp
  moreover have "build_from g ords (fi_domain fi) rrs = ?gps"
    using scan_texts [OF assms(3)] assms(5) by (rule build_from_spec)
  ultimately obtain fi' where fi': "ingest g ords env (on_ingest md) fi = Inr fi'" "fi_listeners fi' = [?l]"
    using ingest_locators [of fi md b g ords env] assms(1,3,4) by auto
  have found: "find_string md ?l (er_object request) (er_groups request) =
      located_in md b (Some ?gps) (er_object request) (er_groups request)"
    using find_string_published [of "Some ?gps" md b] groups_of_wf assms(6) by simp
  show ?thesis
  proof (cases "\<forall>g' \<in> set ?gs. grp_endpoints g' \<noteq> []")
    case True
    obtain es where es: "located_in md b (Some ?gps) (er_object request) (er_groups request) = map Some es"
      "list_all2 (\<lambda>g' e. e \<in> set (grp_endpoints g')) ?gs es"
      using located_in_picks [OF assms(7) True] by blast
    from serve_endpoints_some [where mem = "\<lambda>_. ?l" and md = md and request = request and r = r
        and sh = sh and response = response, OF assms(8,9)] found es fi' True
    show ?thesis by (intro exI [of _ fi'] exI [of _ ?l]) (auto simp: Let_def mset_shuffle)
  next
    case False
    have "\<exists>p. serve_endpoints md (\<lambda>_. ?l) eh r sh response request = (Some p, response)"
      if "empty_rings_yield_nil md" "er_rr_type request = type_A \<or> er_rr_type request = type_AAAA"
    proof (rule serve_endpoints_nil [OF assms(8,9) _ that(2)])
      show "None \<in> set (find_string md ?l (er_object request) (er_groups request))"
        using False unfolding found by (intro located_in_nil [OF that(1)]) simp
    qed
    with fi' False show ?thesis by (intro exI [of _ fi'] exI [of _ ?l]) (auto simp: Let_def)
  qed
qed

theorem zone_files_to_answer_witness:
  "\<exists>fi' l' response'.
    ingest (\<lambda>_ n. n) sample_orders sample_env (on_ingest sample_medley) sample_ingester = Inr fi' \<and>
    fi_listeners fi' = [l'] \<and>
    serve_endpoints sample_medley (\<lambda>_. l') \<lparr>eh_locator = Some 0, eh_jitterer = Some sample_jitterer\<rparr>
      0 (\<lambda>n. n) \<lparr>msg_question = [], msg_answer = [], msg_rcode = 0, msg_rest = ()\<rparr>
      (sample_request\<lparr>er_groups := [''red'']\<rparr>) = (None, response')"
proof -
  have gps: "selected_groups (groups_of ''d.'' sample_zone) [''red''] = [group_of ''d.'' sample_zone ''red'']"
    and eps: "grp_endpoints (group_of ''d.'' sample_zone ''red'') \<noteq> []"
    by code_simp+
  have pick: "rings_pick sample_medley"
    by (auto simp: rings_pick_def build_ring_def sample_medley_def split: list.split)
  have fi: "fi_listeners sample_ingester = [zero_locator 0]" "fi_domain sample_ingester = ''d.''"
    "changed sample_ingester ''a.zoneb.zone''"
    by (simp_all add: sample_ingester_def changed_def zero_file_ingester_def)
  have loc: "is_published sample_medley 0 (zero_locator 0)"
    using sample_listeners fi(1) by simp
  show ?thesis
    using zone_files_to_answer [OF fi(1) loc sample_scan fi(3) sample_zone_ok(2) sample_ok(2) pick,
        of "\<lparr>eh_locator = Some 0, eh_jitterer = Some sample_jitterer\<rparr>" 0 sample_jitterer "\<lambda>_ n. n" sample_orders
        "sample_request\<lparr>er_groups := [''red'']\<rparr>" 0 "\<lambda>n. n"
        "\<lparr>msg_question = [], msg_answer = [], msg_rcode = 0, msg_rest = ()\<rparr>"]
      gps eps fi(2)
    by (auto simp: Let_def)
qed

section \<open>From start-up to answers\<close>

text \<open>The request that the main handler passes on for a question below the endpoint domain.\<close>

lemma serve_dns_endpoint:
  assumes "msg_question original = [q]" and "hdr_class (rr_header q) = class_INET"
    and "dn_is_below api (h_endpoint_domain h) (hdr_name (rr_header q))"
    and "h_endpoint_handler h = Some eh" and "eh_locator eh = Some loc" and "eh_jitterer eh = Some j"
    and "request = parse_endpoint_request api q (h_endpoint_domain h)"
    and "find_string md (mem loc) (er_object request) (er_groups request) = map Some es"
  shows "\<exists>response. serve_dns md api mem h r sh original = (None, response, finish api response) \<and>
    msg_rcode response = msg_rcode (start_operation api original) \<and>
    mset (msg_answer response) = mset (msg_answer (start_operation api original)) +
      mset (concat (map (endpoint_records \<lparr>hdr_name = er_name request, hdr_ttl = jitter_ttl j r,
        hdr_class = class_INET\<rparr> (er_rr_type request)) es))"
  using assms serve_endpoints_some [where md = md and mem = mem and request = request and r = r
      and sh = sh and response = "start_operation api original", OF assms(5,6,8)]
  by (simp add: serve_dns_def get_question_def route_def Let_def mset_shuffle)

text \<open>The same when a ring yields nil: the handler panics, and the reply is sent without an answer.\<close>

lemma serve_dns_nil:
  assumes "msg_question original = [q]" and "hdr_class (rr_header q) = class_INET"
    and "dn_is_below api (h_endpoint_domain h) (hdr_name (rr_header q))"
    and "h_endpoint_handler h = Some eh" and "eh_locator eh = Some loc" and "eh_jitterer eh = Some j"
    and "request = parse_endpoint_request api q (h_endpoint_domain h)"
    and "None \<in> set (find_string md (mem loc) (er_object request) (er_groups request))"
    and "er_rr_type request = type_A \<or> er_rr_type request = type_AAAA"
  shows "\<exists>p. serve_dns md api mem h r sh original =
    (Some p, start_operation api original, finish api (start_operation api original))"
  using serve_endpoints_nil [where mem = mem and r = r and sh = sh and response = "start_operation api original",
      OF assms(5,6,8,9)] assms(1-4,7)
  by (auto simp: serve_dns_def get_question_def route_def Let_def)

text \<open>
  Property C2: the started program answers from its zone files. Whenever start-up has ended without
  an error, the first scan of the files succeeded, and no host repeats an address in them, every
  server of the bundle answers a message with one question, of class IN and below its endpoint
  domain, with one endpoint of each selected group that the zone files describe. This again needs every selected group to have an
  endpoint. If one has none, and a ring over no endpoints yields nil, a question for addresses makes
  the handler of the server panic, and the reply has no added records. (The configured maps of
  servers are maps, without a key twice, a built ring is not nil, and a ring over some endpoints
  yields one of them.)
\<close>

theorem started_program_answers:
  assumes "started ex cl s" and "gomap_wf (dc_udp (app_dns s))" and "gomap_wf (dc_tcp (app_dns s))"
    and "scan (initial_env ex) (first_ingester ex cl s) = Inr (rrs, bytes)" and "addrs_distinct rrs"
    and "builds_rings (ex_medley ex)" and "rings_pick (ex_medley ex)"
    and "gomap_lookup (the (ap_bundle s)) server_name = Some i"
    and "msg_question original = [q]" and "hdr_class (rr_header q) = class_INET"
    and "dn_is_below (ex_dns ex) (h_endpoint_domain (the (ap_handler s))) (hdr_name (rr_header q))"
    and "request = parse_endpoint_request (ex_dns ex) q (h_endpoint_domain (the (ap_handler s)))"
  shows "\<exists>h j. srv_handler (info_server i) = Some h \<and> ap_jitterer s = Some j \<and>
    (let gs = selected_groups (groups_of (fi_domain (first_ingester ex cl s)) rrs) (er_groups request);
         outcome = serve_dns (ex_medley ex) (ex_dns ex) (\<lambda>_. app_locator s) h r sh original;
         reply = start_operation (ex_dns ex) original
     in if \<forall>g \<in> set gs. grp_endpoints g \<noteq> []
        then \<exists>es response. outcome = (None, response, finish (ex_dns ex) response) \<and>
          list_all2 (\<lambda>g e. e \<in> set (grp_endpoints g)) gs es \<and>
          mset (msg_answer response) = mset (msg_answer reply) +
            mset (concat (map (endpoint_records \<lparr>hdr_name = er_name request, hdr_ttl = jitter_ttl j r,
              hdr_class = class_INET\<rparr> (er_rr_type request)) es))
        else empty_rings_yield_nil (ex_medley ex) \<and> (er_rr_type request = type_A \<or> er_rr_type request = type_AAAA) \<longrightarrow>
          (\<exists>p. outcome = (Some p, reply, finish (ex_dns ex) reply)))"
proof -
  let ?gps = "groups_of (fi_domain (first_ingester ex cl s)) rrs"
  let ?l = "published (ex_medley ex) (app_builder ex cl s) (Some ?gps)"
  let ?gs = "selected_groups ?gps (er_groups request)" and ?md = "ex_medley ex" and ?mem = "\<lambda>_ :: nat. app_locator s"
  obtain j where j: "ap_jitterer s = Some j" using startedD(3) [OF assms(1), of Jitterer] by auto
  obtain l where h: "srv_handler (info_server i) = Some ((the (ap_handler s))\<lparr>h_logger := Some l\<rparr>)"
    using started_server [OF assms(1-3,8)] by blast
  let ?h = "(the (ap_handler s))\<lparr>h_logger := Some l\<rparr>"
  have eh: "h_endpoint_handler ?h = Some \<lparr>eh_locator = Some the_locator, eh_jitterer = Some j\<rparr>"
    using started_handler [OF assms(1)] j by (simp add: Let_def)
  have below: "dn_is_below (ex_dns ex) (h_endpoint_domain ?h) (hdr_name (rr_header q))"
    and request: "request = parse_endpoint_request (ex_dns ex) q (h_endpoint_domain ?h)"
    using assms(11,12) by simp_all
  have "app_locator s = ?l"
    using started_locator [OF assms(1)] assms(4) build_from_spec [OF scan_texts [OF assms(4)] assms(5)] by simp
  then have found: "find_string ?md (app_locator s) (er_object request) (er_groups request) =
      located_in ?md (app_builder ex cl s) (Some ?gps) (er_object request) (er_groups request)"
    using find_string_published [of "Some ?gps" ?md "app_builder ex cl s"] groups_of_wf assms(6) by simp
  show ?thesis
  proof (cases "\<forall>g \<in> set ?gs. grp_endpoints g \<noteq> []")
    case True
    obtain es where es: "located_in ?md (app_builder ex cl s) (Some ?gps) (er_object request) (er_groups request) =
        map Some es" "list_all2 (\<lambda>g e. e \<in> set (grp_endpoints g)) ?gs es"
      using located_in_picks [OF assms(7) True] by blast
    have "find_string ?md (app_locator s) (er_object request) (er_groups request) = map Some es"
      by (simp only: found es(1))
    from serve_dns_endpoint [where h = ?h and mem = ?mem and r = r and sh = sh, OF assms(9,10) below eh _ _ request this]
      h j es(2) True
    show ?thesis by (simp add: Let_def) blast
  next
    case False
    have "\<exists>p. serve_dns ?md (ex_dns ex) ?mem ?h r sh original =
        (Some p, start_operation (ex_dns ex) original, finish (ex_dns ex) (start_operation (ex_dns ex) original))"
      if "empty_rings_yield_nil ?md" "er_rr_type request = type_A \<or> er_rr_type request = type_AAAA"
    proof (rule serve_dns_nil [OF assms(9,10) below eh _ _ request _ that(2)])
      show "None \<in> set (find_string ?md (app_locator s) (er_object request) (er_groups request))"
        using False unfolding found by (intro located_in_nil [OF that(1)]) simp
    qed simp_all
    with h j False show ?thesis by (auto simp: Let_def)
  qed
qed

text \<open>The started sample program, as far as the witnesses read it.\<close>

lemma sample_program:
  assumes "started (sample_world_on env) sample_command_line s" and "the (ap_config s) = sample_main"
  shows "gomap_wf (dc_udp (app_dns s))" and "gomap_wf (dc_tcp (app_dns s))"
    and "h_endpoint_domain (the (ap_handler s)) = ''endpoint.hashy.net.''"
    and "h_group_domain (the (ap_handler s)) = ''group.hashy.net.''"
proof -
  show "gomap_wf (dc_udp (app_dns s))" and "gomap_wf (dc_tcp (app_dns s))"
    by (simp_all add: app_dns_def assms(2) sample_main_def sample_dns_def provide_dns_def)
  show "h_endpoint_domain (the (ap_handler s)) = ''endpoint.hashy.net.''"
    and "h_group_domain (the (ap_handler s)) = ''group.hashy.net.''"
    by (simp_all add: started_handler [OF assms(1)] Let_def app_zone_def app_dns_def assms(2)
      sample_main_def sample_dns_def provide_dns_def provide_zone_def sample_world_on_def sample_api_def)
qed

theorem started_program_answers_witness:
  "\<exists>s (i :: string info) h response. started sample_world sample_command_line s \<and> srv_handler (info_server i) = Some h \<and>
    serve_dns sample_medley sample_api (\<lambda>_. app_locator s) h 0 (\<lambda>n. n)
      (sample_query (A \<lparr>hdr_name = ''x.red.endpoint.hashy.net.'', hdr_ttl = 0, hdr_class = class_INET\<rparr> ZeroAddr)) =
      (None, response, Some [])"
proof -
  let ?q = "A \<lparr>hdr_name = ''x.red.endpoint.hashy.net.'', hdr_ttl = 0, hdr_class = class_INET\<rparr> ZeroAddr"
  obtain s i where s: "started sample_world sample_command_line s" "the (ap_config s) = sample_main"
    "gomap_lookup (the (ap_bundle s)) ''dns'' = Some i"
    using sample_started [of sample_env] unfolding sample_world_def by blast
  note p = sample_program [OF s(1) [unfolded sample_world_def] s(2)] and scan = sample_first_scan [OF s(2)]
  have pick: "rings_pick (ex_medley sample_world)" "builds_rings (ex_medley sample_world)"
    by (auto simp: rings_pick_def build_ring_def builds_rings_def sample_world_def sample_world_on_def sample_medley_def split: list.split)
  have request: "er_groups (parse_endpoint_request sample_api ?q ''endpoint.hashy.net.'') = [''red'']"
    by code_simp
  have gps: "selected_groups (groups_of ''d.'' sample_zone) [''red''] = [group_of ''d.'' sample_zone ''red'']"
    and eps: "grp_endpoints (group_of ''d.'' sample_zone ''red'') \<noteq> []"
    by code_simp+
  have api: "ex_dns sample_world = sample_api" "ex_medley sample_world = sample_medley"
    by (simp_all add: sample_world_def sample_world_on_def)
  have below: "dn_is_below sample_api ''endpoint.hashy.net.'' (hdr_name (rr_header ?q))" by code_simp
  have "\<exists>h response. srv_handler (info_server i) = Some h \<and>
    serve_dns sample_medley sample_api (\<lambda>_. app_locator s) h 0 (\<lambda>n. n) (sample_query ?q) =
      (None, response, finish sample_api response)"
    using started_program_answers [OF s(1) p(1,2) scan sample_zone_ok(2) pick(2,1) s(3),
        of "sample_query ?q" ?q _ 0 "\<lambda>n. n"] p(3) below gps eps request
    by (auto simp: api sample_query_def sample_first [OF s(2)] Let_def)
  moreover have "finish sample_api response = Some []" for response
    by (simp add: finish_def sample_api_def)
  ultimately show ?thesis using s(1) by auto
qed

text \<open>
  Property C28: the program also starts when its zone files cannot be read. The locator then holds
  nothing: questions below the endpoint domain are answered with no records, and every TXT
  question below the group domain makes the handler panic.
\<close>

theorem started_without_groups:
  assumes "started ex cl s" and "gomap_wf (dc_udp (app_dns s))" and "gomap_wf (dc_tcp (app_dns s))"
    and "scan (initial_env ex) (first_ingester ex cl s) = Inl err"
    and "gomap_lookup (the (ap_bundle s)) server_name = Some i"
    and "msg_question original = [q]" and "hdr_class (rr_header q) = class_INET"
  shows "\<exists>h. srv_handler (info_server i) = Some h \<and>
    (if dn_is_below (ex_dns ex) (h_endpoint_domain h) (hdr_name (rr_header q))
     then \<exists>response. serve_dns (ex_medley ex) (ex_dns ex) (\<lambda>_. app_locator s) h r sh original =
         (None, response, finish (ex_dns ex) response) \<and>
       mset (msg_answer response) = mset (msg_answer (start_operation (ex_dns ex) original))
     else if dn_is_below (ex_dns ex) (h_group_domain h) (hdr_name (rr_header q)) \<and> dn_rr_to_type (ex_dns ex) q = type_TXT
     then fst (serve_dns (ex_medley ex) (ex_dns ex) (\<lambda>_. app_locator s) h r sh original) = Some NilDereference
     else fst (serve_dns (ex_medley ex) (ex_dns ex) (\<lambda>_. app_locator s) h r sh original) = None)"
proof -
  let ?b = "app_builder ex cl s"
  obtain j where j: "ap_jitterer s = Some j" using startedD(3) [OF assms(1), of Jitterer] by auto
  obtain l where h: "srv_handler (info_server i) = Some ((the (ap_handler s))\<lparr>h_logger := Some l\<rparr>)"
    using started_server [OF assms(1-3,5)] by blast
  let ?h = "(the (ap_handler s))\<lparr>h_logger := Some l\<rparr>" and ?api = "ex_dns ex"
  have eh: "h_endpoint_handler ?h = Some \<lparr>eh_locator = Some the_locator, eh_jitterer = Some j\<rparr>"
    "h_group_handler ?h = Some \<lparr>gh_locator = Some the_locator, gh_jitterer = Some j\<rparr>"
    using started_handler [OF assms(1)] j by (simp_all add: Let_def)
  have loc: "app_locator s = zero_locator ?b" using started_locator [OF assms(1)] assms(4) by simp
  have none: "find_string (ex_medley ex) (app_locator s) obj names = map Some []" for obj names
    by (simp add: loc find_string_map rings_def zero_locator_def ring_named_def filter_empty_conv)
  show ?thesis
  proof (cases "dn_is_below ?api (h_endpoint_domain ?h) (hdr_name (rr_header q))")
    case True
    from serve_dns_endpoint [where h = ?h and mem = "\<lambda>_. app_locator s" and r = r and sh = sh,
        OF assms(6,7) this eh(1) _ _ refl none] True h
    show ?thesis by auto
  next
    case False
    with assms(6,7) eh(2) h loc show ?thesis
      by (auto simp: serve_dns_def get_question_def route_def serve_groups_def parse_group_request_def
        unhandled_def locator_groups_def zero_locator_def Let_def)
  qed
qed

text \<open>The sample program over files that cannot be listed.\<close>

definition broken_env :: "string ingest_env" where
  "broken_env = sample_env\<lparr>env_glob := \<lambda>_. Inl ''no such directory''\<rparr>"

lemma broken_scan:
  assumes "the (ap_config s) = sample_main"
  shows "scan (initial_env (sample_world_on broken_env)) (first_ingester (sample_world_on broken_env) sample_command_line s) =
    Inl (GlobError ''no such directory'')"
proof -
  let ?w = "sample_world_on broken_env"
  have "initial_env ?w = broken_env"
    by (simp add: initial_env_def sample_world_on_def broken_env_def sample_env_def)
  moreover have "fi_globs (first_ingester ?w sample_command_line s) = [''*.zone'']"
    by (simp add: first_ingester_def provide_file_ingester_def new_file_ingester_configured app_groups_def
      assms sample_main_def sample_command_line_def provide_groups_def decorate_groups_def sample_world_on_def
      broken_env_def sample_env_def Let_def)
  ultimately show ?thesis by (simp add: scan_def broken_env_def)
qed

theorem started_without_groups_witness:
  "\<exists>s (i :: string info) h. started (sample_world_on broken_env) sample_command_line s \<and>
    srv_handler (info_server i) = Some h \<and>
    fst (serve_dns sample_medley sample_api (\<lambda>_. app_locator s) h 0 (\<lambda>n. n)
      (sample_query (TXT \<lparr>hdr_name = ''red.group.hashy.net.'', hdr_ttl = 0, hdr_class = class_INET\<rparr> []))) =
      Some NilDereference"
proof -
  let ?q = "TXT \<lparr>hdr_name = ''red.group.hashy.net.'', hdr_ttl = 0, hdr_class = class_INET\<rparr> []"
  let ?w = "sample_world_on broken_env"
  obtain s i where s: "started ?w sample_command_line s" "the (ap_config s) = sample_main"
    "gomap_lookup (the (ap_bundle s)) ''dns'' = Some i"
    using sample_started by blast
  note p = sample_program [OF s(1,2)]
  obtain l where h: "srv_handler (info_server i) = Some ((the (ap_handler s))\<lparr>h_logger := Some l\<rparr>)"
    using started_server [OF s(1) p(1,2) s(3)] by blast
  have below: "\<not> dn_is_below sample_api ''endpoint.hashy.net.'' (hdr_name (rr_header ?q))"
    "dn_is_below sample_api ''group.hashy.net.'' (hdr_name (rr_header ?q))" "dn_rr_to_type sample_api ?q = type_TXT"
    by code_simp+
  have api: "ex_dns ?w = sample_api" "ex_medley ?w = sample_medley" by (simp_all add: sample_world_on_def)
  have "fst (serve_dns sample_medley sample_api (\<lambda>_. app_locator s) ((the (ap_handler s))\<lparr>h_logger := Some l\<rparr>)
      0 (\<lambda>n. n) (sample_query ?q)) = Some NilDereference"
    using started_without_groups [OF s(1) p(1,2) broken_scan [OF s(2)] s(3), of "sample_query ?q" ?q 0 "\<lambda>n. n"]
      h p(3,4) below
    by (simp add: api sample_query_def)
  with s(1) h show ?thesis by blast
qed

section \<open>Discovery\<close>

lemma parsed_ok:
  assumes "parse_group_definition t = (d, None)"
  shows "validate_group_name (gdef_name d) = None \<and> (\<forall>s \<in> set (gdef_services d). s \<noteq> [] \<and> space_free s)"
proof (cases "strings_fields t")
  case (Cons n svcs)
  then have "\<forall>s \<in> set svcs. s \<noteq> [] \<and> space_free s"
    using strings_fields_words [of _ t] by simp
  with assms Cons show ?thesis
    by (auto simp: parse_group_definition_def Let_def split: if_splits option.splits)
qed (use assms in \<open>simp add: parse_group_definition_def\<close>)

lemma stream_defs_texts:
  "stream_defs domain rrs = map (\<lambda>t. fst (parse_group_definition t)) (stream_texts domain rrs)"
proof -
  have "txt_defs domain r = map (\<lambda>t. fst (parse_group_definition t)) (rr_texts domain r)" for r
    by (cases r) simp_all
  then have "txt_defs domain = (\<lambda>r. map (\<lambda>t. fst (parse_group_definition t)) (rr_texts domain r))"
    by (rule ext)
  then show ?thesis by (simp add: stream_defs_def stream_texts_def map_concat comp_def)
qed

lemma groups_of_names:
  assumes "first_error (stream_texts domain rrs) = None" and "g \<in> set (gps_all (groups_of domain rrs))"
  shows "validate_group_name (grp_name g) = None \<and> (\<forall>s \<in> set (grp_services g). s \<noteq> [] \<and> space_free s)"
proof -
  have ok: "validate_group_name (gdef_name d) = None \<and> (\<forall>s \<in> set (gdef_services d). s \<noteq> [] \<and> space_free s)"
    if "d \<in> set (stream_defs domain rrs)" for d
  proof -
    obtain t where "t \<in> set (stream_texts domain rrs)" "d = fst (parse_group_definition t)"
      using \<open>d \<in> _\<close> by (auto simp: stream_defs_texts)
    then have "parse_group_definition t = (d, None)"
      using assms(1) by (auto simp: first_error_None prod_eq_iff)
    then show ?thesis by (rule parsed_ok)
  qed
  obtain d where d: "d \<in> set (stream_defs domain rrs)" "g = group_of domain rrs (gdef_name d)"
    using assms(2) by (auto simp: groups_of_def Let_def group_names_def)
  have "s \<noteq> [] \<and> space_free s" if "s \<in> defs_services (stream_defs domain rrs) n" for s n
    using that ok unfolding defs_services_def by blast
  with ok [OF d(1)] show ?thesis by (simp add: d(2) group_of_def Let_def)
qed

text \<open>The definitions that the texts of a record parse to.\<close>

fun parsed_texts :: "rr \<Rightarrow> (group_definition \<times> definition_error option) list" where
  "parsed_texts (TXT _ texts) = map parse_group_definition texts"
| "parsed_texts _ = []"

text \<open>
  Property C33: what hashy tells about its groups is again discovery information. Every TXT
  record it serves for a group built from error-free zone files parses, and gives the group's
  name with one service or one endpoint name: first its services, then its endpoints. So the
  answer does not say which names are services. Endpoint names come from SRV targets and need
  to be free of white space.
\<close>

theorem group_texts_parse_back:
  assumes "first_error (stream_texts domain rrs) = None" and "g \<in> set (gps_all (groups_of domain rrs))"
    and "\<forall>e \<in> set (grp_endpoints g). ep_name e \<noteq> [] \<and> space_free (ep_name e)"
  shows "map (\<lambda>(_, rr). parsed_texts rr) (group_rrs g type_TXT) =
    map (\<lambda>item. [(\<lparr>gdef_name = grp_name g, gdef_services = [item]\<rparr>, None)])
      (grp_services g @ map ep_name (grp_endpoints g))"
proof -
  note ok = groups_of_names [OF assms(1,2)]
  have "parsed_texts (group_txt g item) = [(\<lparr>gdef_name = grp_name g, gdef_services = [item]\<rparr>, None)]"
    if "item \<noteq> []" "space_free item" for item
    using parse_joined [of "grp_name g" "[item]"] ok that by (simp add: group_txt_def)
  then show ?thesis
    using ok assms(3) by (simp add: group_rrs_def original_name_def)
qed

theorem group_texts_parse_back_witness:
  "map (\<lambda>(_, rr). parsed_texts rr) (group_rrs (group_of ''d.'' sample_zone ''red'') type_TXT) =
    map (\<lambda>item. [(\<lparr>gdef_name = ''red'', gdef_services = [item]\<rparr>, None)]) [''s1.'', ''s2.'', ''a.'', ''b.'']"
proof -
  have "group_of ''d.'' sample_zone ''red'' \<in> set (gps_all (groups_of ''d.'' sample_zone))"
    and "grp_name (group_of ''d.'' sample_zone ''red'') = ''red''"
    and "\<forall>e \<in> set (grp_endpoints (group_of ''d.'' sample_zone ''red'')). ep_name e \<noteq> [] \<and> space_free (ep_name e)"
    and "grp_services (group_of ''d.'' sample_zone ''red'') @
      map ep_name (grp_endpoints (group_of ''d.'' sample_zone ''red'')) = [''s1.'', ''s2.'', ''a.'', ''b.'']"
    by code_simp+
  with group_texts_parse_back [OF sample_zone_ok(1), of "group_of ''d.'' sample_zone ''red''"]
  show ?thesis by simp
qed

end
